(* ===== verification/Prelude.thy ===== *)
theory Prelude
  imports Main "HOL-Library.Word" "HOL-Library.Monad_Syntax" "HOL-Library.Sublist"
    "HOL-Library.Signed_Division"
begin

text \<open>
  What the component theories share: the reading of a C++ execution as an \<open>option\<close> value
  (\<open>None\<close> is an execution the language gives no meaning to: undefined behaviour, or an
  \<open>assert\<close> that fails), \<open>size_t\<close> subtraction with its wrap-around, byte arrays with
  checked reads and writes, the results of the system calls, and the collections of
  rewrite rules the proofs of the components use.
\<close>

section \<open>Collections of rules\<close>

named_theorems cpp_consts \<open>the named constants of the sources\<close>
named_theorems mem_simps \<open>checked reads and writes of byte arrays\<close>
named_theorems range_simps \<open>iterator ranges read as lists\<close>

section \<open>Executions, assertions and sizes\<close>

text \<open>
  \<open>assert(c)\<close> of \<open><cassert>\<close>: a no-op when the build defines \<open>NDEBUG\<close> (the default
  \<open>Release\<close> build), an abort otherwise.
\<close>

definition cpp_assert :: "bool \<Rightarrow> bool \<Rightarrow> unit option" where
  "cpp_assert ndebug c = (if ndebug \<or> c then Some () else None)"

text \<open>
  Sizes are \<open>nat\<close>: every object is smaller than \<open>2^63\<close> bytes. Only subtraction can
  leave that range, and it wraps modulo \<open>2^64\<close>.
\<close>

definition size_sub :: "nat \<Rightarrow> nat \<Rightarrow> nat" where
  "size_sub a b = (if b \<le> a then a - b else a + 2 ^ 64 - b)"

text \<open>Hash values are of type \<open>size_t\<close> as well; the functions that compute them wrap.\<close>

type_synonym hash = "64 word"

section \<open>Byte arrays\<close>

abbreviation NUL :: char where
  "NUL \<equiv> CHR 0x00"

text \<open>Reading the bytes \<open>[i, j)\<close> of an array, and storing bytes at offset \<open>i\<close>.\<close>

definition mem_read :: "nat \<Rightarrow> nat \<Rightarrow> 'a list \<Rightarrow> 'a list option" where
  "mem_read i j v = (if i \<le> j \<and> j \<le> length v then Some (take (j - i) (drop i v)) else None)"

definition mem_write :: "nat \<Rightarrow> 'a list \<Rightarrow> 'a list \<Rightarrow> 'a list option" where
  "mem_write i xs v =
     (if i + length xs \<le> length v
      then Some (take i v @ xs @ drop (i + length xs) v) else None)"

text \<open>\<open>std::vector<char>::resize\<close>: cut, or pad with value-initialised elements.\<close>

definition vec_resize :: "nat \<Rightarrow> string \<Rightarrow> string" where
  "vec_resize n v = take n v @ replicate (n - length v) NUL"

section \<open>System calls that move bytes\<close>

text \<open>
  The kernel is a parameter. \<open>readv\<close> is asked for at most as many bytes as the sizes of
  its buffers and answers with an error or with the bytes it stored in them, in order;
  \<open>writev\<close> is given the buffers and answers with the number of bytes it took from their
  front, or with a negative number. A plain \<open>read\<close> or \<open>write\<close> has one buffer.
\<close>

datatype sys_read = SysErr | SysBytes string

type_synonym sys_readv = "nat list \<Rightarrow> sys_read"
type_synonym sys_writev = "string list \<Rightarrow> int"

definition readv_contract :: "sys_readv \<Rightarrow> bool" where
  "readv_contract rd \<longleftrightarrow> (\<forall>lens bs. rd lens = SysBytes bs \<longrightarrow> length bs \<le> sum_list lens)"

definition writev_contract :: "sys_writev \<Rightarrow> bool" where
  "writev_contract wr \<longleftrightarrow> (\<forall>vs. wr vs \<le> int (length (concat vs)))"

section \<open>Generic lemmas\<close>

lemma cpp_assert_Some [simp]: "cpp_assert nd c = Some u \<longleftrightarrow> nd \<or> c"
  by (cases u) (simp add: cpp_assert_def)

lemma cpp_assert_True [simp]: "cpp_assert nd True = Some ()" "cpp_assert True c = Some ()"
  by (simp_all add: cpp_assert_def)

lemma size_sub_le [simp]: "b \<le> a \<Longrightarrow> size_sub a b = a - b"
  by (simp add: size_sub_def)

lemma mem_read_Some [mem_simps]:
  "i \<le> j \<Longrightarrow> j \<le> length v \<Longrightarrow> mem_read i j v = Some (take (j - i) (drop i v))"
  by (simp add: mem_read_def)

lemma mem_write_Some [mem_simps]:
  "i + length xs \<le> length v \<Longrightarrow>
   mem_write i xs v = Some (take i v @ xs @ drop (i + length xs) v)"
  by (simp add: mem_write_def)

lemma mem_write_length: "mem_write i xs v = Some v' \<Longrightarrow> length v' = length v"
  by (auto simp: mem_write_def split: if_splits)

lemma mem_write_read:
  "mem_write i xs v = Some v' \<Longrightarrow> mem_read i (i + length xs) v' = Some xs"
  by (auto simp: mem_write_def mem_read_def split: if_splits)

lemma mem_write_at_end:
  "r \<le> w \<Longrightarrow> mem_write w xs v = Some v' \<Longrightarrow>
   take (w + length xs - r) (drop r v') = take (w - r) (drop r v) @ xs"
  by (auto simp: mem_write_def drop_take split: if_splits)

lemma length_vec_resize [simp]: "length (vec_resize n v) = n"
  by (simp add: vec_resize_def)

lemma take_vec_resize [mem_simps]: "m \<le> n \<Longrightarrow> m \<le> length v \<Longrightarrow> take m (vec_resize n v) = take m v"
  by (simp add: vec_resize_def min_def)

lemma readv_contractD: "readv_contract rd \<Longrightarrow> rd lens = SysBytes bs \<Longrightarrow> length bs \<le> sum_list lens"
  by (simp add: readv_contract_def)

lemma writev_contractD: "writev_contract wr \<Longrightarrow> wr vs \<le> int (length (concat vs))"
  by (simp add: writev_contract_def)

section \<open>C strings and decimal numbers\<close>

text \<open>
  The bytes of a string up to its terminating zero byte, what \<open>snprintf\<close> leaves of a text
  in a buffer of \<open>n\<close> bytes, element access, and the digits \<open>%d\<close> and \<open>%zd\<close> print.
\<close>

definition c_str :: "string \<Rightarrow> string" where
  "c_str s = takeWhile (\<lambda>c. c \<noteq> NUL) s"

definition snprintf :: "nat \<Rightarrow> string \<Rightarrow> string" where
  "snprintf n s = take (n - 1) s"

lemma c_str_id [simp]: "NUL \<notin> set s \<Longrightarrow> c_str s = s"
  by (auto simp: c_str_def takeWhile_eq_all_conv)

lemma snprintf_id [simp]: "length s < n \<Longrightarrow> snprintf n s = s"
  by (simp add: snprintf_def)

definition vec_at :: "'a list \<Rightarrow> nat \<Rightarrow> 'a option" where
  "vec_at xs i = (if i < length xs then Some (xs ! i) else None)"

definition digit_char :: "nat \<Rightarrow> char" where
  "digit_char d = char_of (48 + d)"

fun decimal :: "nat \<Rightarrow> string" where
  "decimal n = (if n < 10 then [digit_char n] else decimal (n div 10) @ [digit_char (n mod 10)])"

declare decimal.simps [simp del]

lemma decimal_rec:
  "n < 10 \<Longrightarrow> decimal n = [digit_char n]"
  "10 \<le> n \<Longrightarrow> decimal n = decimal (n div 10) @ [digit_char (n mod 10)]"
  by (simp_all add: decimal.simps [of n])

definition decimal_int :: "int \<Rightarrow> string" where
  "decimal_int i = (if i < 0 then ''-'' @ decimal (nat (- i)) else decimal (nat i))"

definition undecimal :: "string \<Rightarrow> nat" where
  "undecimal s = foldl (\<lambda>n c. 10 * n + (of_char c - 48)) 0 s"

lemma of_char_digit [simp]: "d < 10 \<Longrightarrow> of_char (digit_char d) = 48 + d"
  by (simp add: digit_char_def)

lemma undecimal_decimal [simp]: "undecimal (decimal n) = n"
proof (induction n rule: decimal.induct)
  case (1 n)
  show ?case
  proof (cases "n < 10")
    case True
    then show ?thesis by (simp add: decimal.simps [of n] undecimal_def)
  next
    case False
    then have "undecimal (decimal n) = 10 * undecimal (decimal (n div 10)) + n mod 10"
      by (simp add: decimal.simps [of n] undecimal_def)
    with 1 False show ?thesis by simp
  qed
qed

lemma decimal_digits: "c \<in> set (decimal n) \<Longrightarrow> \<exists>d<10. c = digit_char d"
proof (induction n rule: decimal.induct)
  case (1 n)
  have "\<exists>d<10. digit_char (n mod 10) = digit_char d" by (rule exI [of _ "n mod 10"]) simp
  with 1 show ?case by (cases "n < 10") (auto simp: decimal.simps [of n])
qed

lemma decimal_plain: "c \<in> set (decimal n) \<Longrightarrow> 48 \<le> (of_char c :: nat) \<and> (of_char c :: nat) < 58"
  by (auto dest!: decimal_digits)

lemma decimal_no_NUL: "NUL \<notin> set (decimal n)"
  using decimal_plain [of NUL n] by auto

lemma decimal_length: "n < 10 ^ k \<Longrightarrow> 0 < k \<Longrightarrow> length (decimal n) \<le> k"
proof (induction n arbitrary: k rule: decimal.induct)
  case (1 n)
  show ?case
  proof (cases "n < 10")
    case True
    with 1 show ?thesis by (simp add: decimal.simps [of n])
  next
    case False
    with "1.prems" obtain j where j: "k = Suc j" "0 < j"
      by (cases k; cases "k - 1") auto
    then have "n div 10 < 10 ^ j" using "1.prems"(1) by auto
    with "1.IH" False j show ?thesis by (simp add: decimal.simps [of n])
  qed
qed

lemma decimal_nonempty [simp]: "decimal n \<noteq> []"
  by (subst decimal.simps) simp

text \<open>\<open>strtol\<close> with base 10: white space, a sign, digits, the rest ignored; saturating.\<close>

definition strtol :: "string \<Rightarrow> int" where
  "strtol s =
     (let t = dropWhile (\<lambda>c. c = CHR '' '' \<or> 9 \<le> (of_char c :: nat) \<and> (of_char c :: nat) \<le> 13) (c_str s);
          u = (if t \<noteq> [] \<and> (hd t = CHR ''-'' \<or> hd t = CHR ''+'') then tl t else t);
          n = int (undecimal (takeWhile (\<lambda>c. 48 \<le> (of_char c :: nat) \<and> (of_char c :: nat) \<le> 57) u)) in
      max (- (2 ^ 63)) (min (2 ^ 63 - 1) (if t \<noteq> [] \<and> hd t = CHR ''-'' then - n else n)))"

lemma strtol_decimal: "int n < 2 ^ 63 \<Longrightarrow> strtol (decimal n) = int n"
proof -
  assume n: "int n < 2 ^ 63"
  obtain c cs where d: "decimal n = c # cs" by (cases "decimal n") auto
  have all: "\<And>x. x \<in> set (decimal n) \<Longrightarrow> 48 \<le> (of_char x :: nat) \<and> (of_char x :: nat) < 58" by (rule decimal_plain)
  have "48 \<le> (of_char c :: nat)" using all [of c] d by simp
  then have c: "c \<noteq> CHR '' ''" "c \<noteq> CHR ''-''" "c \<noteq> CHR ''+''" "\<not> (of_char c :: nat) \<le> 13" by auto
  have "takeWhile (\<lambda>c. 48 \<le> (of_char c :: nat) \<and> (of_char c :: nat) \<le> 57) (decimal n) = decimal n"
    using all by (intro takeWhile_eq_all_conv [THEN iffD2]) force
  with c n show ?thesis
    using decimal_no_NUL [of n] undecimal_decimal [of n] by (simp add: strtol_def d Let_def)
qed

text \<open>\<open>%wd\<close> pads with spaces, \<open>%0wd\<close> with zeros behind the sign.\<close>

definition pad :: "char \<Rightarrow> nat \<Rightarrow> string \<Rightarrow> string" where
  "pad c w s = replicate (w - length s) c @ s"

definition fmt_d :: "nat \<Rightarrow> int \<Rightarrow> string" where
  "fmt_d w i = pad (CHR '' '') w (decimal_int i)"

definition fmt_0d :: "nat \<Rightarrow> int \<Rightarrow> string" where
  "fmt_0d w i =
     (if i < 0 then ''-'' @ pad (CHR ''0'') (w - 1) (decimal (nat (- i))) else pad (CHR ''0'') w (decimal (nat i)))"

section \<open>Signed integers\<close>

text \<open>
  The result of an operation on \<open>int\<close> (32 bits) and on \<open>int64_t\<close>, \<open>time_t\<close>: overflow is
  undefined. Division of the language rounds towards zero (\<open>sdiv\<close>, \<open>smod\<close>).
\<close>

definition i32 :: "int \<Rightarrow> int option" where
  "i32 x = (if - (2 ^ 31) \<le> x \<and> x < 2 ^ 31 then Some x else None)"

definition i64 :: "int \<Rightarrow> int option" where
  "i64 x = (if - (2 ^ 63) \<le> x \<and> x < 2 ^ 63 then Some x else None)"

text \<open>\<open>static_cast\<close> to \<open>int\<close> of a wider integer keeps the low 32 bits.\<close>

definition to_int32 :: "int \<Rightarrow> int" where
  "to_int32 x = (x + 2 ^ 31) mod 2 ^ 32 - 2 ^ 31"

lemma to_int32_id: "- 2147483648 \<le> x \<Longrightarrow> x \<le> 2147483647 \<Longrightarrow> to_int32 x = x"
  by (simp add: to_int32_def)

lemma i32_Some: "- 2147483648 \<le> x \<Longrightarrow> x \<le> 2147483647 \<Longrightarrow> i32 x = Some x"
  by (simp add: i32_def)

lemma i64_Some: "- 9223372036854775808 \<le> x \<Longrightarrow> x \<le> 9223372036854775807 \<Longrightarrow> i64 x = Some x"
  by (simp add: i64_def)

lemma sdiv_pos [simp]: "0 \<le> x \<Longrightarrow> 0 < k \<Longrightarrow> x sdiv k = x div k" for x k :: int
  by (cases "x = 0") (simp_all add: signed_divide_int_def)

lemma smod_pos [simp]: "0 \<le> x \<Longrightarrow> 0 < k \<Longrightarrow> x smod k = x mod k" for x k :: int
  by (cases "x = 0") (simp_all add: signed_modulo_int_def)

lemma div_bounds: "0 < k \<Longrightarrow> k * (x div k) \<le> x \<and> x < k * (x div k) + k" for x k :: int
  using pos_mod_bound [of k x] pos_mod_sign [of k x] mult_div_mod_eq [of k x] by linarith

lemma div_eqI: "k * q \<le> x \<Longrightarrow> x < k * q + k \<Longrightarrow> x div k = q" for x k q :: int
  by (rule int_div_pos_eq [of x k q "x - k * q"]) auto

end
