(* ===== verification/Byte_Buffer.thy ===== *)
theory Byte_Buffer
  imports Prelude
begin

text \<open>
  The template parameter \<open>BufferType\<close> of \<open>HTTPContext::parseRequest\<close>,
  \<open>TCPConnection<BufferType>\<close> and \<open>HTTPServer<BufferType>\<close>: the operations a client
  instantiates it with, as a record of functions, the algorithms of the standard library
  on the iterators of such a buffer, and the two contracts the clients rely on, as
  locales: an input buffer (filled from a descriptor, scanned and consumed through
  iterators) and an output buffer (appended to and drained to a descriptor).
\<close>

section \<open>The operations of a buffer class\<close>

record ('b, 'i) buffer_type =
  bt_new :: 'b
  bt_readerIter :: "'b \<Rightarrow> 'i"
  bt_end :: "'b \<Rightarrow> 'i"
  bt_deref :: "'b \<Rightarrow> 'i \<Rightarrow> char option"
  bt_inc :: "'b \<Rightarrow> 'i \<Rightarrow> 'i option"
  bt_dec :: "'b \<Rightarrow> 'i \<Rightarrow> 'i option"
  bt_plus :: "'b \<Rightarrow> 'i \<Rightarrow> int \<Rightarrow> 'i option"
  bt_readUntil :: "'i \<Rightarrow> 'b \<Rightarrow> (bool \<times> 'b) option"
  bt_readAll :: "'b \<Rightarrow> bool \<times> 'b"
  bt_readableSize :: "'b \<Rightarrow> nat option"
  bt_append :: "string \<Rightarrow> 'b \<Rightarrow> 'b option"
  bt_writeFromFD :: "sys_readv \<Rightarrow> 'b \<Rightarrow> (int \<times> 'b) option"
  bt_readToFD :: "sys_writev \<Rightarrow> 'b \<Rightarrow> (int \<times> 'b) option"

section \<open>Standard algorithms on iterator ranges\<close>

text \<open>
  The iterators of \<open>[i, stop)\<close> with the characters they point at. The standard gives a
  meaning to an algorithm on \<open>[i, stop)\<close> only if \<open>stop\<close> is reached from \<open>i\<close> by increments;
  otherwise the range, and every algorithm on it, is \<open>None\<close>.
\<close>

partial_function (option) it_range ::
  "('b, 'i) buffer_type \<Rightarrow> 'b \<Rightarrow> 'i \<Rightarrow> 'i \<Rightarrow> ('i \<times> char) list option" where
  "it_range C b i stop =
     (if i = stop then Some []
      else do {
        x \<leftarrow> bt_deref C b i;
        j \<leftarrow> bt_inc C b i;
        rest \<leftarrow> it_range C b j stop;
        Some ((i, x) # rest)
      })"

fun first_match :: "(('i \<times> char) list \<Rightarrow> bool) \<Rightarrow> ('i \<times> char) list \<Rightarrow> 'i \<Rightarrow> 'i" where
  "first_match P [] stop = stop"
| "first_match P ((i, x) # rng) stop = (if P ((i, x) # rng) then i else first_match P rng stop)"

text \<open>\<open>std::find\<close>, \<open>std::search\<close> and the range constructor of \<open>std::string\<close>.\<close>

definition std_find :: "('b, 'i) buffer_type \<Rightarrow> 'b \<Rightarrow> 'i \<Rightarrow> 'i \<Rightarrow> char \<Rightarrow> 'i option" where
  "std_find C b first stop c =
     map_option (\<lambda>rng. first_match (\<lambda>r. snd (hd r) = c) rng stop) (it_range C b first stop)"

definition std_search :: "('b, 'i) buffer_type \<Rightarrow> 'b \<Rightarrow> 'i \<Rightarrow> 'i \<Rightarrow> string \<Rightarrow> 'i option" where
  "std_search C b first stop pat =
     map_option (\<lambda>rng. first_match (\<lambda>r. prefix pat (map snd r)) rng stop) (it_range C b first stop)"

definition std_string :: "('b, 'i) buffer_type \<Rightarrow> 'b \<Rightarrow> 'i \<Rightarrow> 'i \<Rightarrow> string option" where
  "std_string C b first stop = map_option (map snd) (it_range C b first stop)"

section \<open>The same algorithms on lists\<close>

fun first_index :: "(string \<Rightarrow> bool) \<Rightarrow> string \<Rightarrow> nat" where
  "first_index P [] = 0"
| "first_index P (x # xs) = (if P (x # xs) then 0 else Suc (first_index P xs))"

definition find_index :: "char \<Rightarrow> string \<Rightarrow> nat" where
  "find_index c = first_index (\<lambda>s. hd s = c)"

definition search_index :: "string \<Rightarrow> string \<Rightarrow> nat" where
  "search_index pat = first_index (prefix pat)"

definition segment :: "nat \<Rightarrow> nat \<Rightarrow> 'a list \<Rightarrow> 'a list" where
  "segment k m xs = take (m - k) (drop k xs)"

lemma first_index_le: "first_index P xs \<le> length xs"
  by (induction xs) auto

lemma first_index_holds: "first_index P xs < length xs \<Longrightarrow> P (drop (first_index P xs) xs)"
  by (induction xs) (auto split: if_splits)

lemma first_index_least: "j < first_index P xs \<Longrightarrow> \<not> P (drop j xs)"
proof (induction xs arbitrary: j)
  case (Cons x xs)
  then show ?case by (cases j) (auto split: if_splits)
qed simp

lemma first_indexI:
  assumes "i \<le> length xs" and "i < length xs \<Longrightarrow> P (drop i xs)"
    and "\<And>j. j < i \<Longrightarrow> \<not> P (drop j xs)"
  shows "first_index P xs = i"
  using assms
proof (induction xs arbitrary: i)
  case (Cons x xs)
  show ?case
  proof (cases i)
    case 0
    with Cons.prems(2) show ?thesis by simp
  next
    case (Suc i')
    have "first_index P xs = i'"
      using Cons.prems Suc by (intro Cons.IH) force+
    moreover have "\<not> P (x # xs)"
      using Cons.prems(3) [of 0] Suc by simp
    ultimately show ?thesis using Suc by simp
  qed
qed simp

lemma find_index_le [simp]: "find_index c xs \<le> length xs"
  by (simp add: find_index_def first_index_le)

lemma search_index_le [simp]: "search_index pat xs \<le> length xs"
  by (simp add: search_index_def first_index_le)

lemma find_index_takeWhile: "find_index c xs = length (takeWhile (\<lambda>x. x \<noteq> c) xs)"
  by (induction xs) (auto simp: find_index_def)

lemma find_index_eq_length [simp]: "find_index c xs = length xs \<longleftrightarrow> c \<notin> set xs"
proof (induction xs)
  case (Cons x xs)
  then show ?case by (auto simp: find_index_takeWhile)
qed (simp add: find_index_takeWhile)

lemma take_find_index: "take (find_index c xs) xs = takeWhile (\<lambda>x. x \<noteq> c) xs"
  unfolding find_index_takeWhile by (rule takeWhile_eq_take [symmetric])

lemma find_index_append [simp]: "c \<notin> set xs \<Longrightarrow> find_index c (xs @ c # ys) = length xs"
  by (induction xs) (auto simp: find_index_def)

lemma find_index_notin [simp]: "c \<notin> set xs \<Longrightarrow> find_index c xs = length xs"
  by simp

lemma search_index_prefix:
  "search_index pat xs < length xs \<Longrightarrow> \<exists>ys. drop (search_index pat xs) xs = pat @ ys"
  unfolding search_index_def by (drule first_index_holds) (auto simp: prefix_def)

lemma search_index_fits:
  assumes "search_index pat xs < length xs"
  shows "search_index pat xs + length pat \<le> length xs"
proof -
  obtain ys where "drop (search_index pat xs) xs = pat @ ys"
    using search_index_prefix [OF assms] by blast
  then have "length xs - search_index pat xs = length pat + length ys"
    by (metis length_append length_drop)
  with assms show ?thesis by linarith
qed

lemma length_segment [simp]: "m \<le> length xs \<Longrightarrow> length (segment k m xs) = m - k"
  by (simp add: segment_def)

lemma segment_Cons: "k < m \<Longrightarrow> m \<le> length xs \<Longrightarrow> segment k m xs = xs ! k # segment (Suc k) m xs"
  by (simp add: segment_def Cons_nth_drop_Suc [symmetric] Suc_diff_Suc [symmetric] del: Suc_diff_Suc)

lemma segment_empty [simp]: "m \<le> k \<Longrightarrow> segment k m xs = []"
  by (simp add: segment_def)

lemma drop_segment: "k + j \<le> m \<Longrightarrow> drop j (segment k m xs) = segment (k + j) m xs"
  by (simp add: segment_def drop_take add.commute)

lemma segment_suffix:
  assumes "k \<le> m" and "j \<le> m - k"
  shows "drop (m - k - j) (segment k m xs) = segment (m - j) m xs"
proof -
  have "k + (m - k - j) = m - j" using assms by arith
  then show ?thesis using assms by (subst drop_segment) simp_all
qed

section \<open>The contract of an input buffer\<close>

text \<open>
  \<open>ready b\<close>: the iterators of the buffer can be used; \<open>inv b\<close>: it can be filled.
  \<open>iter_at b k\<close> is the iterator \<open>k\<close> bytes after \<open>readerIter()\<close>. To fill it a buffer offers the
  kernel 64 KiB or more.
\<close>

definition kReadSize :: nat where
  "kReadSize = 65536"

locale in_buffer =
  fixes C :: "('b, 'i) buffer_type"
    and inv :: "'b \<Rightarrow> bool" and ready :: "'b \<Rightarrow> bool"
    and content :: "'b \<Rightarrow> string" and iter_at :: "'b \<Rightarrow> nat \<Rightarrow> 'i"
  assumes inv_new: "inv (bt_new C)"
    and content_new: "content (bt_new C) = []"
    and ready_inv: "ready b \<Longrightarrow> inv b"
    and readerIter_at: "ready b \<Longrightarrow> bt_readerIter C b = iter_at b 0"
    and end_at: "ready b \<Longrightarrow> bt_end C b = iter_at b (length (content b))"
    and iter_at_inj: "ready b \<Longrightarrow> k \<le> length (content b) \<Longrightarrow> m \<le> length (content b) \<Longrightarrow>
       iter_at b k = iter_at b m \<Longrightarrow> k = m"
    and deref_at: "ready b \<Longrightarrow> k < length (content b) \<Longrightarrow>
       bt_deref C b (iter_at b k) = Some (content b ! k)"
    and inc_at: "ready b \<Longrightarrow> k < length (content b) \<Longrightarrow>
       bt_inc C b (iter_at b k) = Some (iter_at b (Suc k))"
    and plus_at: "ready b \<Longrightarrow> k < length (content b) \<Longrightarrow> k + n \<le> length (content b) \<Longrightarrow>
       bt_plus C b (iter_at b k) (int n) = Some (iter_at b (k + n))"
    and no_backward_range: "ready b \<Longrightarrow> m < k \<Longrightarrow> k \<le> length (content b) \<Longrightarrow>
       it_range C b (iter_at b k) (iter_at b m) = None"
    and readUntil_at: "ready b \<Longrightarrow> k \<le> length (content b) \<Longrightarrow>
       \<exists>b'. bt_readUntil C (iter_at b k) b = Some (True, b') \<and> ready b' \<and>
            content b' = drop k (content b)"
    and readAll_spec: "inv b \<Longrightarrow> inv (snd (bt_readAll C b)) \<and> content (snd (bt_readAll C b)) = []"
    and writeFromFD_spec: "inv b \<Longrightarrow> readv_contract rd \<Longrightarrow>
       \<exists>lens. kReadSize \<le> sum_list lens \<and>
         (case rd lens of
            SysErr \<Rightarrow> bt_writeFromFD C rd b = Some (- 1, b)
          | SysBytes bs \<Rightarrow> \<exists>b'. bt_writeFromFD C rd b = Some (int (length bs), b') \<and>
              (if bs = [] then inv b' \<and> content b' = content b
               else ready b' \<and> content b' = content b @ bs))"
begin

lemma range_at [range_simps]:
  assumes "ready b" and "k \<le> m" and "m \<le> length (content b)"
  shows "it_range C b (iter_at b k) (iter_at b m) =
    Some (map (\<lambda>j. (iter_at b j, content b ! j)) [k..<m])"
  using assms(2)
proof (induction "m - k" arbitrary: k)
  case 0
  then show ?case by (simp add: it_range.simps [of C b "iter_at b k"])
next
  case (Suc d)
  then have "k < m" by simp
  moreover from this have "iter_at b k \<noteq> iter_at b m"
    using iter_at_inj [OF assms(1), of k m] assms(3) by auto
  ultimately show ?case
    using Suc assms(1,3)
    by (simp add: it_range.simps [of C b "iter_at b k"] deref_at inc_at upt_conv_Cons)
qed

lemma first_match_at:
  assumes "ready b" and "k \<le> m" and "m \<le> length (content b)"
  shows "first_match (\<lambda>r. P (map snd r)) (map (\<lambda>j. (iter_at b j, content b ! j)) [k..<m]) (iter_at b m)
    = iter_at b (k + first_index P (segment k m (content b)))"
  using assms(2)
proof (induction "m - k" arbitrary: k)
  case 0
  then show ?case by simp
next
  case (Suc d)
  then have lt: "k < m" by simp
  have nth: "map (\<lambda>j. content b ! j) [Suc k..<m] = segment (Suc k) m (content b)"
    using assms(3) by (auto simp: list_eq_iff_nth_eq segment_def)
  have "first_match (\<lambda>r. P (map snd r)) (map (\<lambda>j. (iter_at b j, content b ! j)) [Suc k..<m])
      (iter_at b m) = iter_at b (Suc k + first_index P (segment (Suc k) m (content b)))"
    using Suc lt by (intro Suc.hyps(1)) auto
  then show ?case
    using lt assms(3) by (simp add: upt_conv_Cons segment_Cons nth comp_def)
qed

lemma std_search_at [range_simps]:
  assumes "ready b" and "k \<le> m" and "m \<le> length (content b)"
  shows "std_search C b (iter_at b k) (iter_at b m) pat =
    Some (iter_at b (k + search_index pat (segment k m (content b))))"
  using assms first_match_at [OF assms, of "prefix pat"]
  by (simp add: std_search_def range_at search_index_def)

lemma first_match_hd: "first_match (\<lambda>r. snd (hd r) = c) rng l = first_match (\<lambda>r. hd (map snd r) = c) rng l"
  by (induction rng) auto

lemma std_find_at [range_simps]:
  assumes "ready b" and "k \<le> m" and "m \<le> length (content b)"
  shows "std_find C b (iter_at b k) (iter_at b m) c =
    Some (iter_at b (k + find_index c (segment k m (content b))))"
  using assms first_match_at [OF assms, of "\<lambda>s. hd s = c"]
  by (simp add: std_find_def range_at find_index_def first_match_hd)

lemma std_string_at [range_simps]:
  assumes "ready b" and "k \<le> m" and "m \<le> length (content b)"
  shows "std_string C b (iter_at b k) (iter_at b m) = Some (segment k m (content b))"
proof -
  have "map (\<lambda>j. content b ! j) [k..<m] = segment k m (content b)"
    using assms(3) by (auto simp: list_eq_iff_nth_eq segment_def)
  with assms show ?thesis by (simp add: std_string_def range_at comp_def)
qed

lemma iter_at_eq [simp]:
  "ready b \<Longrightarrow> k \<le> length (content b) \<Longrightarrow> m \<le> length (content b) \<Longrightarrow>
   iter_at b k = iter_at b m \<longleftrightarrow> k = m"
  using iter_at_inj by blast

end

section \<open>The contract of an output buffer\<close>

text \<open>
  Every byte appended comes out once, in order: draining hands the kernel exactly the
  content and drops what the kernel took.
\<close>

locale out_buffer =
  fixes C :: "('b, 'i) buffer_type"
    and oinv :: "'b \<Rightarrow> bool" and ocontent :: "'b \<Rightarrow> string"
  assumes oinv_new: "oinv (bt_new C)"
    and ocontent_new: "ocontent (bt_new C) = []"
    and append_spec: "oinv b \<Longrightarrow>
       \<exists>b'. bt_append C xs b = Some b' \<and> oinv b' \<and> ocontent b' = ocontent b @ xs"
    and readToFD_spec: "oinv b \<Longrightarrow> ocontent b \<noteq> [] \<Longrightarrow> writev_contract wr \<Longrightarrow>
       \<exists>vs b'. concat vs = ocontent b \<and> bt_readToFD C wr b = Some (wr vs, b') \<and>
         oinv b' \<and> ocontent b' = drop (nat (wr vs)) (ocontent b) \<and>
         bt_readableSize C b' = Some (length (ocontent b'))"

text \<open>
  A use of an output buffer is a sequence of appends and drains. The kernel of a drain takes up to \<open>n\<close>
  bytes, or fails when \<open>n\<close> is negative. The same use of a queue of bytes gives the results of the drains, the bytes
  that came out and those that are left; a queue is drained only when it is not empty.
\<close>

datatype buffer_op = OpAppend string | OpDrain int

definition takes_up_to :: "int \<Rightarrow> sys_writev" where
  "takes_up_to n vs = min n (int (length (concat vs)))"

fun buffer_run :: "('b, 'i) buffer_type \<Rightarrow> buffer_op list \<Rightarrow> 'b \<Rightarrow> (int list \<times> 'b) option" where
  "buffer_run C [] b = Some ([], b)"
| "buffer_run C (OpAppend xs # ops) b = bt_append C xs b \<bind> buffer_run C ops"
| "buffer_run C (OpDrain n # ops) b =
     do { (r, b) \<leftarrow> bt_readToFD C (takes_up_to n) b; (rs, b) \<leftarrow> buffer_run C ops b; Some (r # rs, b) }"

fun queue_run :: "buffer_op list \<Rightarrow> string \<Rightarrow> (int list \<times> string \<times> string) option" where
  "queue_run [] q = Some ([], [], q)"
| "queue_run (OpAppend xs # ops) q = queue_run ops (q @ xs)"
| "queue_run (OpDrain n # ops) q =
     (if q = [] then None
      else do { (rs, out, left) \<leftarrow> queue_run ops (drop (nat n) q);
                Some (min n (int (length q)) # rs, take (nat n) q @ out, left) })"

fun appended :: "buffer_op list \<Rightarrow> string" where
  "appended [] = []"
| "appended (OpAppend xs # ops) = xs @ appended ops"
| "appended (OpDrain n # ops) = appended ops"

lemma queue_run_fifo: "queue_run ops q = Some (rs, out, left) \<Longrightarrow> q @ appended ops = out @ left"
proof (induction ops q arbitrary: rs out left rule: queue_run.induct)
  case (3 n ops q)
  then obtain rs' out' where "queue_run ops (drop (nat n) q) = Some (rs', out', left)" "out = take (nat n) q @ out'" "q \<noteq> []"
    by (auto simp: bind_eq_Some_conv split: if_splits)
  with "3.IH" [of rs' out' left] show ?case by (metis append.assoc append_take_drop_id appended.simps(3))
qed simp_all

lemma takes_up_to_ok: "writev_contract (takes_up_to n)"
  by (simp add: writev_contract_def takes_up_to_def)

lemma drop_up_to: "drop (nat (min n (int (length q)))) q = drop (nat n) q"
  by (cases "n \<le> int (length q)") (auto simp: min_def)

context out_buffer
begin

lemma buffer_run_queue:
  "oinv b \<Longrightarrow> queue_run ops (ocontent b) = Some (rs, out, left) \<Longrightarrow>
   \<exists>b'. buffer_run C ops b = Some (rs, b') \<and> oinv b' \<and> ocontent b' = left"
proof (induction ops arbitrary: b rs out left)
  case (Cons op ops)
  show ?case
  proof (cases op)
    case (OpAppend xs)
    with append_spec [OF Cons.prems(1), of xs] Cons.IH Cons.prems(2) show ?thesis by fastforce
  next
    case (OpDrain n)
    with Cons.prems(2) obtain rs' out' where q: "queue_run ops (drop (nat n) (ocontent b)) = Some (rs', out', left)"
      "rs = min n (int (length (ocontent b))) # rs'" "ocontent b \<noteq> []"
      by (auto simp: bind_eq_Some_conv split: if_splits)
    from readToFD_spec [OF Cons.prems(1) q(3) takes_up_to_ok] obtain vs b1 where
      vs: "concat vs = ocontent b" and b1: "bt_readToFD C (takes_up_to n) b = Some (takes_up_to n vs, b1)" "oinv b1"
      "ocontent b1 = drop (nat (takes_up_to n vs)) (ocontent b)" by blast
    have n: "takes_up_to n vs = min n (int (length (ocontent b)))" by (simp add: takes_up_to_def vs)
    from b1(3) n have "ocontent b1 = drop (nat n) (ocontent b)" by (simp only: drop_up_to)
    with Cons.IH [OF b1(2)] q(1) obtain b' where "buffer_run C ops b1 = Some (rs', b')" "oinv b'" "ocontent b' = left" by auto
    with OpDrain b1(1) n q(2) show ?thesis by simp
  qed
qed simp

end

end
