(* ===== verification/Channel.thy ===== *)
theory Channel
  imports Prelude
begin

unbundle bit_operations_syntax

text \<open>
  \<open>net::Channel\<close> (\<open>srcs/net/channel/channel.h\<close>, \<open>channel.cc\<close>): the events a file
  descriptor is registered for, the events the poller reported, and the dispatch of the
  reported events to the four callbacks.

  \<open>size_t\<close> bit masks are \<open>64 word\<close>s with the values of \<open><poll.h>\<close>. A callback acts on the
  state of the program, of type \<open>'s\<close>; an empty \<open>std::function\<close> is \<open>None\<close>. The dispatcher
  reads \<open>revents_type_\<close> again after every callback, as the code does, so it is given the
  way to find the channel in the state.
\<close>

section \<open>Event masks\<close>

type_synonym events = "64 word"

definition POLLIN :: events where [cpp_consts]: "POLLIN = 0x001"
definition POLLPRI :: events where [cpp_consts]: "POLLPRI = 0x002"
definition POLLOUT :: events where [cpp_consts]: "POLLOUT = 0x004"
definition POLLERR :: events where [cpp_consts]: "POLLERR = 0x008"
definition POLLHUP :: events where [cpp_consts]: "POLLHUP = 0x010"
definition POLLNVAL :: events where [cpp_consts]: "POLLNVAL = 0x020"
definition POLLRDHUP :: events where [cpp_consts]: "POLLRDHUP = 0x2000"

definition kReadEvent :: events where
  "kReadEvent = POLLIN OR POLLPRI"

definition kWriteEvent :: events where
  "kWriteEvent = POLLOUT"

definition kNoneEvent :: events where
  "kNoneEvent = 0"

section \<open>The channel\<close>

record channel =
  ch_fd :: int
  events_type :: events
  revents_type :: events

definition Channel_new :: "int \<Rightarrow> channel" where
  "Channel_new fd = \<lparr>ch_fd = fd, events_type = kNoneEvent, revents_type = kNoneEvent\<rparr>"

definition enableReading :: "channel \<Rightarrow> channel" where
  "enableReading ch = ch\<lparr>events_type := events_type ch OR kReadEvent\<rparr>"

definition disableReading :: "channel \<Rightarrow> channel" where
  "disableReading ch = ch\<lparr>events_type := events_type ch AND NOT kReadEvent\<rparr>"

definition enableWriting :: "channel \<Rightarrow> channel" where
  "enableWriting ch = ch\<lparr>events_type := events_type ch OR kWriteEvent\<rparr>"

definition disableWriting :: "channel \<Rightarrow> channel" where
  "disableWriting ch = ch\<lparr>events_type := events_type ch AND NOT kWriteEvent\<rparr>"

definition disableAll :: "channel \<Rightarrow> channel" where
  "disableAll ch = ch\<lparr>events_type := kNoneEvent\<rparr>"

definition isWriting :: "channel \<Rightarrow> bool" where
  "isWriting ch \<longleftrightarrow> events_type ch AND kWriteEvent \<noteq> 0"

definition isReading :: "channel \<Rightarrow> bool" where
  "isReading ch \<longleftrightarrow> events_type ch AND kReadEvent \<noteq> 0"

definition set_revents_type :: "events \<Rightarrow> channel \<Rightarrow> channel" where
  "set_revents_type r ch = ch\<lparr>revents_type := r\<rparr>"

section \<open>Dispatch\<close>

record 's channel_callbacks =
  readCallback :: "('s \<Rightarrow> 's option) option"
  writeCallback :: "('s \<Rightarrow> 's option) option"
  closeCallback :: "('s \<Rightarrow> 's option) option"
  errorCallback :: "('s \<Rightarrow> 's option) option"

definition no_callbacks :: "'s channel_callbacks" where
  [simp]: "no_callbacks = \<lparr>readCallback = None, writeCallback = None, closeCallback = None, errorCallback = None\<rparr>"

definition setReadCallback :: "('s \<Rightarrow> 's option) \<Rightarrow> 's channel_callbacks \<Rightarrow> 's channel_callbacks" where
  [simp]: "setReadCallback cb cbs = cbs\<lparr>readCallback := Some cb\<rparr>"

definition setWriteCallback :: "('s \<Rightarrow> 's option) \<Rightarrow> 's channel_callbacks \<Rightarrow> 's channel_callbacks" where
  [simp]: "setWriteCallback cb cbs = cbs\<lparr>writeCallback := Some cb\<rparr>"

definition setCloseCallback :: "('s \<Rightarrow> 's option) \<Rightarrow> 's channel_callbacks \<Rightarrow> 's channel_callbacks" where
  [simp]: "setCloseCallback cb cbs = cbs\<lparr>closeCallback := Some cb\<rparr>"

definition setErrorCallback :: "('s \<Rightarrow> 's option) \<Rightarrow> 's channel_callbacks \<Rightarrow> 's channel_callbacks" where
  [simp]: "setErrorCallback cb cbs = cbs\<lparr>errorCallback := Some cb\<rparr>"

definition call_if :: "bool \<Rightarrow> ('s \<Rightarrow> 's option) option \<Rightarrow> 's \<Rightarrow> 's option" where
  "call_if c cb s = (if c then (case cb of None \<Rightarrow> Some s | Some f \<Rightarrow> f s) else Some s)"

definition Channel_handleEvent :: "('s \<Rightarrow> channel) \<Rightarrow> 's channel_callbacks \<Rightarrow> 's \<Rightarrow> 's option" where
  "Channel_handleEvent ch cbs s0 =
     do {
       s1 \<leftarrow> call_if (revents_type (ch s0) AND POLLHUP \<noteq> 0 \<and> \<not> revents_type (ch s0) AND POLLIN \<noteq> 0)
               (closeCallback cbs) s0;
       s2 \<leftarrow> call_if (revents_type (ch s1) AND (POLLERR OR POLLNVAL) \<noteq> 0) (errorCallback cbs) s1;
       s3 \<leftarrow> call_if (revents_type (ch s2) AND (POLLIN OR POLLRDHUP OR POLLPRI) \<noteq> 0) (readCallback cbs) s2;
       call_if (revents_type (ch s3) AND POLLOUT \<noteq> 0) (writeCallback cbs) s3
     }"

section \<open>The write bit\<close>

lemma isWriting_bit: "isWriting ch \<longleftrightarrow> bit (events_type ch) 2"
  by (simp add: isWriting_def kWriteEvent_def POLLOUT_def bit_iff_and_push_bit_not_eq_0)

lemma POLLOUT_bit: "bit POLLOUT n \<longleftrightarrow> n = 2"
proof -
  have "bit (2 ^ 2 :: events) n \<longleftrightarrow> n = 2"
    by (simp only: bit_exp_iff) auto
  then show ?thesis by (simp add: POLLOUT_def)
qed

lemma kReadEvent_eq: "kReadEvent = 3"
  by (simp add: kReadEvent_def POLLIN_def POLLPRI_def)

lemma isWriting_simps [simp]:
  "\<not> isWriting (Channel_new fd)"
  "isWriting (enableReading ch) = isWriting ch"
  "isWriting (disableReading ch) = isWriting ch"
  "isWriting (enableWriting ch)"
  "\<not> isWriting (disableWriting ch)"
  "\<not> isWriting (disableAll ch)"
  "isWriting (set_revents_type r ch) = isWriting ch"
  by (simp_all add: isWriting_bit Channel_new_def kNoneEvent_def enableReading_def kReadEvent_eq
      disableReading_def enableWriting_def disableWriting_def disableAll_def set_revents_type_def
      bit_or_iff bit_and_iff bit_not_iff kWriteEvent_def POLLOUT_def)

lemma bit_three: "bit (3 :: events) n \<longleftrightarrow> n = 0 \<or> n = 1"
proof -
  have "(3 :: events) = mask 2" by (simp add: mask_eq_exp_minus_1)
  then show ?thesis by (simp only: bit_mask_iff) auto
qed

lemma isReading_bit: "isReading ch \<longleftrightarrow> bit (events_type ch) 0 \<or> bit (events_type ch) 1"
  unfolding isReading_def kReadEvent_eq
proof
  assume "events_type ch AND 3 \<noteq> 0"
  then obtain n where "bit (events_type ch AND 3) n"
    using bit_eqI [of "events_type ch AND 3" 0] by auto
  then show "bit (events_type ch) 0 \<or> bit (events_type ch) 1"
    by (auto simp only: bit_and_iff bit_three)
next
  assume "bit (events_type ch) 0 \<or> bit (events_type ch) 1"
  then have "bit (events_type ch AND 3) 0 \<or> bit (events_type ch AND 3) 1"
    by (simp only: bit_and_iff bit_three) auto
  then show "events_type ch AND 3 \<noteq> 0"
    by (metis bit_0_eq bot_apply bot_bool_def)
qed

lemma isReading_simps [simp]:
  "isReading (enableReading ch)"
  "\<not> isReading (disableReading ch)"
  "isReading (enableWriting ch) = isReading ch"
  "isReading (disableWriting ch) = isReading ch"
  "isReading (set_revents_type r ch) = isReading ch"
  by (simp_all add: isReading_bit enableReading_def kReadEvent_eq disableReading_def enableWriting_def
      disableWriting_def set_revents_type_def bit_or_iff bit_and_iff bit_not_iff kWriteEvent_def POLLOUT_bit bit_three)

lemma channel_frame [simp]:
  "revents_type (enableReading ch) = revents_type ch" "revents_type (disableWriting ch) = revents_type ch"
  "revents_type (enableWriting ch) = revents_type ch" "revents_type (disableReading ch) = revents_type ch"
  "ch_fd (enableReading ch) = ch_fd ch" "ch_fd (disableWriting ch) = ch_fd ch" "ch_fd (enableWriting ch) = ch_fd ch"
  by (simp_all add: enableReading_def disableWriting_def enableWriting_def disableReading_def)

end
