(* ===== verification/Buffer.thy ===== *)
theory Buffer
  imports Byte_Buffer
begin

text \<open>
  \<open>net::Buffer\<close> (\<open>srcs/net/connection/buffer/buffer.h\<close>, \<open>buffer.cc\<close>): one byte vector with
  a prepend area of \<open>kPrependSize\<close> bytes and two indices; the bytes between them are
  the content. A pointer into the vector is the offset from \<open>begin()\<close>.
\<close>

section \<open>State\<close>

record buffer =
  buffer_vec :: string
  reader_index :: nat
  writer_index :: nat

definition kPrependSize :: nat where
  [cpp_consts]: "kPrependSize = 8"

definition kInitialSize :: nat where
  [cpp_consts]: "kInitialSize = 1024"

definition kTmpBuffSize :: nat where
  [cpp_consts]: "kTmpBuffSize = 65536"

text \<open>The constructor takes a size and allocates \<open>kInitialSize\<close> bytes whatever it is.\<close>

definition Buffer_new :: "nat \<Rightarrow> buffer" where
  "Buffer_new initial_size =
     \<lparr>buffer_vec = replicate (kPrependSize + kInitialSize) NUL,
      reader_index = kPrependSize, writer_index = kPrependSize\<rparr>"

section \<open>Iterators and sizes\<close>

definition Buffer_end :: "buffer \<Rightarrow> nat" where
  "Buffer_end b = writer_index b"

definition Buffer_readerIter :: "buffer \<Rightarrow> nat" where
  "Buffer_readerIter b = reader_index b"

definition Buffer_prependIter :: "buffer \<Rightarrow> nat" where
  "Buffer_prependIter b = kPrependSize"

definition Buffer_readableSize :: "buffer \<Rightarrow> nat" where
  "Buffer_readableSize b = size_sub (writer_index b) (reader_index b)"

definition Buffer_writableSize :: "buffer \<Rightarrow> nat" where
  "Buffer_writableSize b = size_sub (length (buffer_vec b)) (writer_index b)"

section \<open>Operations\<close>

definition Buffer_readAll :: "buffer \<Rightarrow> bool \<times> buffer" where
  "Buffer_readAll b = (True, b\<lparr>reader_index := kPrependSize, writer_index := kPrependSize\<rparr>)"

definition Buffer_read :: "nat \<Rightarrow> buffer \<Rightarrow> bool \<times> buffer" where
  "Buffer_read len b =
     (let readable_sz = Buffer_readableSize b in
      if readable_sz < len then (False, b)
      else if readable_sz = len then Buffer_readAll b
      else (True, b\<lparr>reader_index := reader_index b + len\<rparr>))"

definition Buffer_readUntil :: "nat \<Rightarrow> buffer \<Rightarrow> bool \<times> buffer" where
  "Buffer_readUntil iter b =
     (if iter \<ge> Buffer_readerIter b \<and> iter \<le> Buffer_end b
      then Buffer_read (iter - Buffer_readerIter b) b
      else (False, b))"

definition Buffer_append :: "string \<Rightarrow> buffer \<Rightarrow> buffer option" where
  "Buffer_append tmp_buf b =
     (let len = length tmp_buf; reuseable_sz = size_sub (reader_index b) kPrependSize in
      do {
        b1 \<leftarrow> (if reuseable_sz \<ge> len
              then do {
                bytes \<leftarrow> mem_read (Buffer_readerIter b) (Buffer_end b) (buffer_vec b);
                buf \<leftarrow> mem_write (Buffer_prependIter b) bytes (buffer_vec b);
                Some (b\<lparr>buffer_vec := buf,
                        writer_index := kPrependSize + Buffer_readableSize b,
                        reader_index := kPrependSize\<rparr>)
              }
              else Some (b\<lparr>buffer_vec := vec_resize (writer_index b + len) (buffer_vec b)\<rparr>));
        buf \<leftarrow> mem_write (Buffer_end b1) tmp_buf (buffer_vec b1);
        Some (b1\<lparr>buffer_vec := buf, writer_index := writer_index b1 + len\<rparr>)
      })"

text \<open>
  \<open>readv\<close> gets the writable part of the vector and then the stack array \<open>tmp_buf\<close>; the
  bytes beyond the writable part are in \<open>tmp_buf\<close> when it returns.
\<close>

definition Buffer_writeFromFD :: "sys_readv \<Rightarrow> buffer \<Rightarrow> (int \<times> buffer) option" where
  "Buffer_writeFromFD rd b =
     (let writable_sz = Buffer_writableSize b in
      case rd [writable_sz, kTmpBuffSize] of
        SysErr \<Rightarrow> Some (- 1, b)
      | SysBytes bytes \<Rightarrow>
          let n_p = length bytes; tmp_buf = drop writable_sz bytes in
          do {
            buf \<leftarrow> mem_write (Buffer_end b) (take writable_sz bytes) (buffer_vec b);
            (if length tmp_buf \<le> kTmpBuffSize then Some () else None);
            let b1 = b\<lparr>buffer_vec := buf\<rparr>;
            if n_p = 0 then Some (0, b1)
            else if n_p \<le> writable_sz
            then Some (int n_p, b1\<lparr>writer_index := writer_index b1 + n_p\<rparr>)
            else do {
              b2 \<leftarrow> Buffer_append tmp_buf (b1\<lparr>writer_index := writer_index b1 + writable_sz\<rparr>);
              Some (int n_p, b2)
            }
          })"

definition Buffer_readToFD :: "sys_writev \<Rightarrow> buffer \<Rightarrow> (int \<times> buffer) option" where
  "Buffer_readToFD wr b =
     do {
       bytes \<leftarrow> mem_read (Buffer_readerIter b) (Buffer_readerIter b + Buffer_readableSize b) (buffer_vec b);
       let n = wr [bytes];
       Some (if n < 0 then (n, b) else (n, b\<lparr>reader_index := reader_index b + nat n\<rparr>))
     }"

section \<open>Pointers into the vector, and the class as a template argument\<close>

definition Buffer_deref :: "buffer \<Rightarrow> nat \<Rightarrow> char option" where
  "Buffer_deref b i = (if i < length (buffer_vec b) then Some (buffer_vec b ! i) else None)"

definition Buffer_ptr_plus :: "buffer \<Rightarrow> nat \<Rightarrow> int \<Rightarrow> nat option" where
  "Buffer_ptr_plus b i n =
     (if 0 \<le> int i + n \<and> int i + n \<le> int (length (buffer_vec b)) then Some (nat (int i + n)) else None)"

definition Buffer_type :: "(buffer, nat) buffer_type" where
  "Buffer_type =
     \<lparr>bt_new = Buffer_new kInitialSize,
      bt_readerIter = Buffer_readerIter, bt_end = Buffer_end,
      bt_deref = Buffer_deref,
      bt_inc = (\<lambda>b i. Buffer_ptr_plus b i 1), bt_dec = (\<lambda>b i. Buffer_ptr_plus b i (- 1)),
      bt_plus = Buffer_ptr_plus,
      bt_readUntil = (\<lambda>i b. Some (Buffer_readUntil i b)),
      bt_readAll = Buffer_readAll,
      bt_readableSize = (\<lambda>b. Some (Buffer_readableSize b)),
      bt_append = Buffer_append, bt_writeFromFD = Buffer_writeFromFD,
      bt_readToFD = Buffer_readToFD\<rparr>"

section \<open>Invariant and content\<close>

definition Buffer_inv :: "buffer \<Rightarrow> bool" where
  "Buffer_inv b \<longleftrightarrow>
     kPrependSize \<le> reader_index b \<and> reader_index b \<le> writer_index b \<and>
     writer_index b \<le> length (buffer_vec b)"

definition Buffer_content :: "buffer \<Rightarrow> string" where
  "Buffer_content b = take (writer_index b - reader_index b) (drop (reader_index b) (buffer_vec b))"

text \<open>The state \<open>append\<close> is in after it has moved the content to the front.\<close>

definition Buffer_compact :: "buffer \<Rightarrow> buffer" where
  "Buffer_compact b =
     b\<lparr>buffer_vec := take kPrependSize (buffer_vec b) @ Buffer_content b @
          drop (kPrependSize + length (Buffer_content b)) (buffer_vec b),
       writer_index := kPrependSize + Buffer_readableSize b,
       reader_index := kPrependSize\<rparr>"

lemmas Buffer_defs =
  Buffer_end_def Buffer_readerIter_def Buffer_prependIter_def Buffer_readableSize_def
  Buffer_writableSize_def Buffer_readAll_def Buffer_inv_def Buffer_content_def

lemma Buffer_inv_le: "Buffer_inv b \<Longrightarrow> reader_index b \<le> writer_index b"
  by (simp add: Buffer_inv_def)

lemma Buffer_new_inv: "Buffer_inv (Buffer_new n)"
  by (simp add: Buffer_inv_def Buffer_new_def)

lemma Buffer_new_content: "Buffer_content (Buffer_new n) = []"
  by (simp add: Buffer_content_def Buffer_new_def)

lemma length_Buffer_content [simp]:
  "Buffer_inv b \<Longrightarrow> length (Buffer_content b) = writer_index b - reader_index b"
  by (auto simp: Buffer_defs)

lemma Buffer_readableSize_content:
  "Buffer_inv b \<Longrightarrow> Buffer_readableSize b = length (Buffer_content b)"
  by (simp add: Buffer_readableSize_def) (simp add: Buffer_inv_def)

lemma Buffer_readAll_correct:
  "fst (Buffer_readAll b)"
  "Buffer_inv b \<Longrightarrow> Buffer_inv (snd (Buffer_readAll b))"
  "Buffer_content (snd (Buffer_readAll b)) = []"
  by (simp_all add: Buffer_defs)

lemma Buffer_read_correct:
  assumes "Buffer_inv b" and "n \<le> length (Buffer_content b)"
  shows "\<exists>b'. Buffer_read n b = (True, b') \<and> Buffer_inv b' \<and>
              Buffer_content b' = drop n (Buffer_content b)"
  using assms by (auto simp: Buffer_read_def Buffer_defs drop_take add.commute)

lemma Buffer_read_too_much:
  "Buffer_inv b \<Longrightarrow> length (Buffer_content b) < n \<Longrightarrow> Buffer_read n b = (False, b)"
  by (simp add: Buffer_read_def Buffer_readableSize_content)

lemma Buffer_readUntil_correct:
  assumes "Buffer_inv b" and "k \<le> length (Buffer_content b)"
  shows "\<exists>b'. Buffer_readUntil (reader_index b + k) b = (True, b') \<and> Buffer_inv b' \<and>
              Buffer_content b' = drop k (Buffer_content b)"
  using Buffer_read_correct [OF assms] assms
  by (auto simp: Buffer_readUntil_def Buffer_readerIter_def Buffer_end_def Buffer_inv_def)

text \<open>
  The store at \<open>end()\<close> extends the content; both ways \<open>append\<close> makes room keep the
  content and leave enough space behind it.
\<close>

lemma Buffer_store_end:
  assumes "Buffer_inv b" and "writer_index b + length xs \<le> length (buffer_vec b)"
  shows "\<exists>v. mem_write (writer_index b) xs (buffer_vec b) = Some v \<and>
     Buffer_inv (b\<lparr>buffer_vec := v, writer_index := writer_index b + length xs\<rparr>) \<and>
     Buffer_content (b\<lparr>buffer_vec := v, writer_index := writer_index b + length xs\<rparr>)
       = Buffer_content b @ xs"
proof -
  obtain v where v: "mem_write (writer_index b) xs (buffer_vec b) = Some v"
    using assms(2) by (simp add: mem_write_def)
  have le: "reader_index b \<le> writer_index b"
    using assms(1) by (rule Buffer_inv_le)
  show ?thesis
    using v mem_write_length [OF v] mem_write_at_end [OF le v] assms
    by (auto simp: Buffer_inv_def Buffer_content_def)
qed

lemma Buffer_compact_correct:
  assumes "Buffer_inv b"
  shows "Buffer_inv (Buffer_compact b)" "Buffer_content (Buffer_compact b) = Buffer_content b"
    "length (buffer_vec (Buffer_compact b)) = length (buffer_vec b)"
    "writer_index (Buffer_compact b) = kPrependSize + length (Buffer_content b)"
  using assms Buffer_readableSize_content [OF assms]
  by (auto simp: Buffer_compact_def Buffer_inv_def Buffer_content_def)

lemma Buffer_append_reuse:
  assumes inv: "Buffer_inv b" and fits: "length xs \<le> reader_index b - kPrependSize"
  shows "\<exists>b'. Buffer_append xs b = Some b' \<and> Buffer_inv b' \<and>
              Buffer_content b' = Buffer_content b @ xs"
proof -
  let ?c = "Buffer_content b"
  have rd: "mem_read (Buffer_readerIter b) (Buffer_end b) (buffer_vec b) = Some ?c"
    using inv by (simp add: Buffer_defs mem_simps)
  have wr: "mem_write (Buffer_prependIter b) ?c (buffer_vec b)
      = Some (buffer_vec (Buffer_compact b))"
    unfolding Buffer_prependIter_def Buffer_compact_def using inv
    by (simp, intro mem_write_Some [THEN trans]) (auto simp: Buffer_inv_def)
  have room: "writer_index (Buffer_compact b) + length xs \<le> length (buffer_vec (Buffer_compact b))"
    using inv fits by (auto simp: Buffer_compact_correct Buffer_inv_def)
  have "reader_index b \<ge> kPrependSize"
    using inv by (simp add: Buffer_inv_def)
  then have "Buffer_append xs b = do {
      v \<leftarrow> mem_write (writer_index (Buffer_compact b)) xs (buffer_vec (Buffer_compact b));
      Some ((Buffer_compact b)\<lparr>buffer_vec := v,
        writer_index := writer_index (Buffer_compact b) + length xs\<rparr>)}"
    using fits rd wr
    by (simp add: Buffer_append_def Buffer_end_def Buffer_compact_def)
  with Buffer_store_end [OF Buffer_compact_correct(1) [OF inv] room] inv show ?thesis
    by (auto simp: Buffer_compact_correct)
qed

lemma Buffer_append_resize:
  assumes inv: "Buffer_inv b" and big: "reader_index b - kPrependSize < length xs"
  shows "\<exists>b'. Buffer_append xs b = Some b' \<and> Buffer_inv b' \<and>
              Buffer_content b' = Buffer_content b @ xs"
proof -
  let ?b = "b\<lparr>buffer_vec := vec_resize (writer_index b + length xs) (buffer_vec b)\<rparr>"
  have b: "Buffer_inv ?b" "Buffer_content ?b = Buffer_content b"
    using inv by (auto simp: Buffer_inv_def Buffer_content_def take_drop take_vec_resize)
  have ge: "kPrependSize \<le> reader_index b"
    using inv by (simp add: Buffer_inv_def)
  have room: "writer_index ?b + length xs \<le> length (buffer_vec ?b)"
    by simp
  from Buffer_store_end [OF b(1) room] b(2) big ge show ?thesis
    by (auto simp: Buffer_append_def Buffer_end_def)
qed

lemma Buffer_append_correct:
  "Buffer_inv b \<Longrightarrow>
   \<exists>b'. Buffer_append xs b = Some b' \<and> Buffer_inv b' \<and> Buffer_content b' = Buffer_content b @ xs"
  by (cases "length xs \<le> reader_index b - kPrependSize")
    (simp_all add: Buffer_append_reuse Buffer_append_resize)

lemma Buffer_readToFD_correct:
  assumes "Buffer_inv b" and "writev_contract wr" and "wr [Buffer_content b] = n"
  shows "\<exists>b'. Buffer_readToFD wr b = Some (n, b') \<and> Buffer_inv b' \<and>
              Buffer_content b' = drop (nat n) (Buffer_content b)"
proof -
  have rd: "mem_read (Buffer_readerIter b) (Buffer_readerIter b + Buffer_readableSize b)
              (buffer_vec b) = Some (Buffer_content b)"
    using assms(1) by (simp add: Buffer_defs mem_simps)
  have "nat n \<le> length (Buffer_content b)"
    using writev_contractD [OF assms(2), of "[Buffer_content b]"] assms(3) by simp
  then have "Buffer_inv (b\<lparr>reader_index := reader_index b + nat n\<rparr>)"
    "Buffer_content (b\<lparr>reader_index := reader_index b + nat n\<rparr>) = drop (nat n) (Buffer_content b)"
    using assms(1) by (auto simp: Buffer_inv_def Buffer_content_def drop_take add.commute)
  then show ?thesis
    using assms(1,3) by (cases "n < 0") (auto simp: Buffer_readToFD_def rd)
qed

lemma Buffer_writeFromFD_correct:
  assumes inv: "Buffer_inv b" and rd: "readv_contract rd"
    and bs: "rd [Buffer_writableSize b, kTmpBuffSize] = SysBytes bytes"
  shows "\<exists>b'. Buffer_writeFromFD rd b = Some (int (length bytes), b') \<and> Buffer_inv b' \<and>
              Buffer_content b' = Buffer_content b @ bytes"
proof -
  let ?w = "Buffer_writableSize b"
  have w: "?w = length (buffer_vec b) - writer_index b"
    using inv by (simp add: Buffer_defs)
  have tmp: "length (drop ?w bytes) \<le> kTmpBuffSize"
    using readv_contractD [OF rd bs] by simp
  have fit: "writer_index b + length (take ?w bytes) \<le> length (buffer_vec b)"
    using inv w by (auto simp: Buffer_inv_def)
  define v where "v = take (writer_index b) (buffer_vec b) @ take ?w bytes @
    drop (writer_index b + length (take ?w bytes)) (buffer_vec b)"
  have store: "mem_write (Buffer_end b) (take ?w bytes) (buffer_vec b) = Some v"
    unfolding v_def Buffer_end_def using fit by (rule mem_write_Some)
  have lenv: "length v = length (buffer_vec b)"
    using mem_write_length [OF store] .
  define b1 where "b1 = b\<lparr>buffer_vec := v, writer_index := writer_index b + min ?w (length bytes)\<rparr>"
  have b1: "Buffer_inv b1" "Buffer_content b1 = Buffer_content b @ take ?w bytes"
    using Buffer_store_end [OF inv fit] store by (auto simp: b1_def Buffer_end_def min.commute)
  show ?thesis
  proof (cases "length bytes \<le> ?w")
    case True
    then have "min ?w (length bytes) = length bytes" by simp
    then show ?thesis
      using b1 tmp store True bs
      by (cases b) (auto simp: Buffer_writeFromFD_def b1_def Let_def)
  next
    case False
    moreover obtain b2 where "Buffer_append (drop ?w bytes) b1 = Some b2" "Buffer_inv b2"
      "Buffer_content b2 = Buffer_content b @ bytes"
      using Buffer_append_correct [OF b1(1), of "drop ?w bytes"] b1(2) by auto
    ultimately show ?thesis
      using tmp store by (auto simp: Buffer_writeFromFD_def bs b1_def Let_def min_def)
  qed
qed


section \<open>The buffer meets both contracts\<close>

lemma Buffer_type_simps [simp]:
  "bt_new Buffer_type = Buffer_new kInitialSize"
  "bt_readerIter Buffer_type = Buffer_readerIter"
  "bt_end Buffer_type = Buffer_end"
  "bt_deref Buffer_type = Buffer_deref"
  "bt_inc Buffer_type b i = Buffer_ptr_plus b i 1"
  "bt_dec Buffer_type b i = Buffer_ptr_plus b i (- 1)"
  "bt_plus Buffer_type = Buffer_ptr_plus"
  "bt_readUntil Buffer_type i b = Some (Buffer_readUntil i b)"
  "bt_readAll Buffer_type = Buffer_readAll"
  "bt_readableSize Buffer_type b = Some (Buffer_readableSize b)"
  "bt_append Buffer_type = Buffer_append"
  "bt_writeFromFD Buffer_type = Buffer_writeFromFD"
  "bt_readToFD Buffer_type = Buffer_readToFD"
  by (simp_all add: Buffer_type_def)

definition Buffer_iter_at :: "buffer \<Rightarrow> nat \<Rightarrow> nat" where
  "Buffer_iter_at b k = reader_index b + k"

lemma Buffer_no_backward_range: "m < k \<Longrightarrow> it_range Buffer_type b k m = None"
proof (induction "length (buffer_vec b) - k" arbitrary: k)
  case 0
  then show ?case by (simp add: it_range.simps [of _ b k] Buffer_deref_def)
next
  case (Suc d)
  then have "it_range Buffer_type b (Suc k) m = None" by simp
  with Suc.prems show ?case
    by (simp add: it_range.simps [of _ b k] Buffer_deref_def Buffer_ptr_plus_def nat_add_distrib)
qed

lemma Buffer_writeFromFD_spec:
  assumes "Buffer_inv b" and "readv_contract rd"
  shows "\<exists>lens. kReadSize \<le> sum_list lens \<and>
    (case rd lens of
       SysErr \<Rightarrow> Buffer_writeFromFD rd b = Some (- 1, b)
     | SysBytes bs \<Rightarrow> \<exists>b'. Buffer_writeFromFD rd b = Some (int (length bs), b') \<and>
         (if bs = [] then Buffer_inv b' \<and> Buffer_content b' = Buffer_content b
          else Buffer_inv b' \<and> Buffer_content b' = Buffer_content b @ bs))"
proof (rule exI [of _ "[Buffer_writableSize b, kTmpBuffSize]"], intro conjI)
  show "case rd [Buffer_writableSize b, kTmpBuffSize] of
       SysErr \<Rightarrow> Buffer_writeFromFD rd b = Some (- 1, b)
     | SysBytes bs \<Rightarrow> \<exists>b'. Buffer_writeFromFD rd b = Some (int (length bs), b') \<and>
         (if bs = [] then Buffer_inv b' \<and> Buffer_content b' = Buffer_content b
          else Buffer_inv b' \<and> Buffer_content b' = Buffer_content b @ bs)"
    using Buffer_writeFromFD_correct [OF assms]
    by (cases "rd [Buffer_writableSize b, kTmpBuffSize]") (auto simp: Buffer_writeFromFD_def)
qed (simp add: kTmpBuffSize_def kReadSize_def)

lemma Buffer_content_nth:
  "Buffer_inv b \<Longrightarrow> k < length (Buffer_content b) \<Longrightarrow>
   Buffer_content b ! k = buffer_vec b ! (reader_index b + k)"
  by (auto simp: Buffer_content_def Buffer_inv_def)

interpretation buf_in: in_buffer Buffer_type Buffer_inv Buffer_inv Buffer_content Buffer_iter_at
proof unfold_locales
  fix b k n
  assume b: "Buffer_inv b" and k: "k < length (Buffer_content b)"
    and kn: "k + n \<le> length (Buffer_content b)"
  show "bt_plus Buffer_type b (Buffer_iter_at b k) (int n) = Some (Buffer_iter_at b (k + n))"
    using b kn by (auto simp: Buffer_iter_at_def Buffer_ptr_plus_def Buffer_inv_def nat_add_distrib)
next
  fix b k
  assume "Buffer_inv b" "k < length (Buffer_content b)"
  then show "bt_deref Buffer_type b (Buffer_iter_at b k) = Some (Buffer_content b ! k)"
    by (auto simp: Buffer_iter_at_def Buffer_deref_def Buffer_content_nth Buffer_inv_def)
next
  fix b k
  assume "Buffer_inv b" "k < length (Buffer_content b)"
  then show "bt_inc Buffer_type b (Buffer_iter_at b k) = Some (Buffer_iter_at b (Suc k))"
    by (auto simp: Buffer_iter_at_def Buffer_ptr_plus_def Buffer_inv_def nat_add_distrib)
next
  fix b rd
  assume "Buffer_inv b" "readv_contract rd"
  then show "\<exists>lens. kReadSize \<le> sum_list lens \<and>
    (case rd lens of
       SysErr \<Rightarrow> bt_writeFromFD Buffer_type rd b = Some (- 1, b)
     | SysBytes bs \<Rightarrow> \<exists>b'. bt_writeFromFD Buffer_type rd b = Some (int (length bs), b') \<and>
         (if bs = [] then Buffer_inv b' \<and> Buffer_content b' = Buffer_content b
          else Buffer_inv b' \<and> Buffer_content b' = Buffer_content b @ bs))"
    unfolding Buffer_type_simps by (rule Buffer_writeFromFD_spec)
qed (auto simp: Buffer_new_inv Buffer_new_content Buffer_iter_at_def Buffer_readerIter_def
    Buffer_end_def Buffer_no_backward_range Buffer_readUntil_correct Buffer_inv_le Buffer_readAll_correct)

interpretation buf_out: out_buffer Buffer_type Buffer_inv Buffer_content
proof unfold_locales
  fix b wr
  assume "Buffer_inv b" "writev_contract wr"
  then obtain b' where "Buffer_readToFD wr b = Some (wr [Buffer_content b], b')" "Buffer_inv b'"
      "Buffer_content b' = drop (nat (wr [Buffer_content b])) (Buffer_content b)"
    using Buffer_readToFD_correct [OF _ _ refl, of b wr] by blast
  then show "\<exists>vs b'. concat vs = Buffer_content b \<and> bt_readToFD Buffer_type wr b = Some (wr vs, b') \<and>
      Buffer_inv b' \<and> Buffer_content b' = drop (nat (wr vs)) (Buffer_content b) \<and>
      bt_readableSize Buffer_type b' = Some (length (Buffer_content b'))"
    by (intro exI [of _ "[Buffer_content b]"] exI [of _ b'])
      (simp add: Buffer_readableSize_content del: length_Buffer_content)
qed (simp_all add: Buffer_new_inv Buffer_new_content Buffer_append_correct)

section \<open>Properties\<close>

text \<open>
  \<open>append\<close> never leaves the vector and keeps the stream. On every buffer in its
  invariant the call is defined (both ways of making room leave space for the copy), it
  keeps the invariant and appends exactly the bytes given to the unread content.
\<close>

theorem Buffer_append_stream:
  assumes "Buffer_inv b"
  shows "\<exists>b'. Buffer_append xs b = Some b' \<and> Buffer_inv b' \<and> Buffer_content b' = Buffer_content b @ xs"
  using assms by (rule Buffer_append_correct)

text \<open>Room is made by moving the content here: five bytes have been read before.\<close>

definition wit_moved :: buffer where
  "wit_moved = snd (Buffer_read 5 (the (Buffer_append ''hello world'' (Buffer_new 0))))"

lemma wit_moved_ok: "Buffer_inv wit_moved" "Buffer_content wit_moved = '' world''"
  by (simp_all add: wit_moved_def Buffer_append_def Buffer_new_def kPrependSize_def kInitialSize_def
      mem_write_def vec_resize_def Buffer_read_def Buffer_defs)

theorem Buffer_append_stream_witness:
  "\<exists>b'. Buffer_append ''!!!!'' wit_moved = Some b' \<and> Buffer_inv b' \<and> Buffer_content b' = '' world!!!!''"
  using Buffer_append_stream [OF wit_moved_ok(1), of "''!!!!''"] by (simp add: wit_moved_ok)

text \<open>
  \<open>writeFromFD\<close> stores what the socket delivered, and nothing else. The two areas it
  offers the kernel always have room for at least one byte, a failed or empty read leaves
  the buffer as it was, and otherwise the unread content grows by exactly the bytes the
  kernel stored, also when they spill over into the area on the stack.
\<close>

theorem Buffer_writeFromFD_stream:
  assumes "Buffer_inv b" and "readv_contract rd"
  shows "0 < sum_list [Buffer_writableSize b, kTmpBuffSize] \<and>
    (case rd [Buffer_writableSize b, kTmpBuffSize] of
       SysErr \<Rightarrow> Buffer_writeFromFD rd b = Some (- 1, b)
     | SysBytes bs \<Rightarrow> \<exists>b'. Buffer_writeFromFD rd b = Some (int (length bs), b') \<and> Buffer_inv b' \<and>
         Buffer_content b' = Buffer_content b @ bs)"
  using Buffer_writeFromFD_correct [OF assms]
  by (cases "rd [Buffer_writableSize b, kTmpBuffSize]") (auto simp: Buffer_writeFromFD_def kTmpBuffSize_def)

text \<open>A kernel that delivers 1500 bytes to a new buffer: 476 of them spill over.\<close>

definition wit_readv :: sys_readv where
  "wit_readv lens = SysBytes (take (sum_list lens) (replicate 1500 (CHR ''x'')))"

theorem Buffer_writeFromFD_stream_witness:
  "\<exists>b'. Buffer_writeFromFD wit_readv (Buffer_new 0) = Some (1500, b') \<and>
     Buffer_content b' = replicate 1500 (CHR ''x'')"
proof -
  have "readv_contract wit_readv"
    by (simp add: readv_contract_def wit_readv_def)
  from Buffer_writeFromFD_stream [OF Buffer_new_inv this, of 0] show ?thesis
    by (auto simp: wit_readv_def kTmpBuffSize_def Buffer_new_content)
qed

text \<open>
  \<open>readToFD\<close> hands the kernel exactly the unread content and drops exactly the bytes
  the kernel took; after an error nothing is dropped.
\<close>

theorem Buffer_readToFD_stream:
  assumes "Buffer_inv b" and "writev_contract wr"
  shows "\<exists>b'. Buffer_readToFD wr b = Some (wr [Buffer_content b], b') \<and> Buffer_inv b' \<and>
    Buffer_content b' = drop (nat (wr [Buffer_content b])) (Buffer_content b)"
  using Buffer_readToFD_correct [OF assms refl] .

theorem Buffer_readToFD_stream_witness:
  "\<exists>b'. Buffer_readToFD (\<lambda>vs. min 4 (int (length (concat vs)))) wit_moved = Some (4, b') \<and>
     Buffer_content b' = ''ld''"
proof -
  have "writev_contract (\<lambda>vs. min 4 (int (length (concat vs))))"
    by (simp add: writev_contract_def)
  from Buffer_readToFD_stream [OF wit_moved_ok(1) this] show ?thesis
    by (auto simp: wit_moved_ok)
qed

end
