(* ===== verification/Linked_Buffer.thy ===== *)
theory Linked_Buffer
  imports Byte_Buffer
begin

text \<open>
  \<open>net::LinkedBuffer\<close> and \<open>net::LinkedBufferIter\<close>
  (\<open>srcs/net/connection/buffer/linked_buffer.h\<close>, \<open>linked_buffer.cc\<close>): a deque of
  character nodes, and iterators that walk over the characters of all nodes.

  A node keeps its number for life: the node at \<open>buffer_.begin()\<close> has number \<open>lb_first\<close>,
  and \<open>pop_front\<close> increments it. A \<open>NodeContainer::iterator\<close> is a node number, the one
  of \<open>buffer_.end()\<close> being \<open>lb_first\<close> plus the number of nodes; a
  \<open>CharContainer::iterator\<close> is an offset in the node. \<open>None\<close> is an iterator that points
  nowhere: a default-constructed one, or one its vector has left by reallocating.

  By the standard \<open>deque::push_back\<close> invalidates node iterators although it moves no
  node; \<open>append\<close> keeps using \<open>reader_iter_\<close> all the same. The model gives such an iterator
  the meaning the code relies on: it stays at its node.
\<close>

section \<open>State\<close>

record lb_node =
  node_chars :: string
  node_capacity :: nat

record lb_iter =
  node_iter :: "nat option"
  char_iter :: "nat option"

record linked_buffer =
  lb_nodes :: "lb_node list"
  lb_first :: nat
  reader_iter :: lb_iter

definition LinkedBuffer_kTmpBuffSize :: nat where
  [cpp_consts]: "LinkedBuffer_kTmpBuffSize = 65536"

definition kMinNodeSize :: nat where
  [cpp_consts]: "kMinNodeSize = 1024"

definition LinkedBufferIter_new :: lb_iter where
  "LinkedBufferIter_new = \<lparr>node_iter = None, char_iter = None\<rparr>"

definition LinkedBuffer_new :: linked_buffer where
  "LinkedBuffer_new = \<lparr>lb_nodes = [], lb_first = 0, reader_iter = LinkedBufferIter_new\<rparr>"

abbreviation node_size :: "lb_node \<Rightarrow> nat" where
  "node_size nd \<equiv> length (node_chars nd)"

text \<open>\<open>buffer_.end()\<close>, and \<open>*node_iter_\<close>.\<close>

definition lb_end_node :: "linked_buffer \<Rightarrow> nat" where
  "lb_end_node b = lb_first b + length (lb_nodes b)"

definition lb_node_at :: "linked_buffer \<Rightarrow> nat \<Rightarrow> lb_node option" where
  "lb_node_at b n =
     (if lb_first b \<le> n \<and> n < lb_end_node b then Some (lb_nodes b ! (n - lb_first b)) else None)"

section \<open>LinkedBufferIter\<close>

text \<open>
  The remaining constructors, assignment and \<open>swap\<close> (which returns both iterators). The
  pointer \<open>node_container_\<close> is the buffer every operation takes as its argument.
\<close>

definition LinkedBufferIter_of :: "nat option \<Rightarrow> nat option \<Rightarrow> lb_iter" where
  "LinkedBufferIter_of n c = \<lparr>node_iter = n, char_iter = c\<rparr>"

definition LinkedBufferIter_copy :: "lb_iter \<Rightarrow> lb_iter" where
  "LinkedBufferIter_copy rhs = LinkedBufferIter_of (node_iter rhs) (char_iter rhs)"

definition LinkedBufferIter_swap :: "lb_iter \<Rightarrow> lb_iter \<Rightarrow> lb_iter \<times> lb_iter" where
  "LinkedBufferIter_swap this rhs =
     (this\<lparr>node_iter := node_iter rhs, char_iter := char_iter rhs\<rparr>,
      rhs\<lparr>node_iter := node_iter this, char_iter := char_iter this\<rparr>)"

definition LinkedBufferIter_assign :: "lb_iter \<Rightarrow> lb_iter \<Rightarrow> lb_iter" where
  "LinkedBufferIter_assign this rhs = fst (LinkedBufferIter_swap this (LinkedBufferIter_copy rhs))"

definition LinkedBufferIter_set :: "nat option \<Rightarrow> nat option \<Rightarrow> lb_iter \<Rightarrow> lb_iter" where
  "LinkedBufferIter_set n c this = this\<lparr>node_iter := n, char_iter := c\<rparr>"

definition LinkedBufferIter_equal :: "lb_iter \<Rightarrow> lb_iter \<Rightarrow> bool" where
  "LinkedBufferIter_equal lhs rhs \<longleftrightarrow> node_iter lhs = node_iter rhs \<and> char_iter lhs = char_iter rhs"

definition LinkedBufferIter_not_equal :: "lb_iter \<Rightarrow> lb_iter \<Rightarrow> bool" where
  "LinkedBufferIter_not_equal lhs rhs \<longleftrightarrow> \<not> LinkedBufferIter_equal lhs rhs"

lemma LinkedBufferIter_equal_iff [simp]: "LinkedBufferIter_equal lhs rhs \<longleftrightarrow> lhs = rhs"
  by (cases lhs; cases rhs) (simp add: LinkedBufferIter_equal_def)

lemma LinkedBufferIter_assign_eq [simp]: "LinkedBufferIter_assign this rhs = rhs"
  by (simp add: LinkedBufferIter_assign_def LinkedBufferIter_swap_def LinkedBufferIter_copy_def LinkedBufferIter_of_def)

lemma LinkedBufferIter_swap_eq [simp]: "LinkedBufferIter_swap x y = (y, x)"
  by (simp add: LinkedBufferIter_swap_def)

definition toLastCharOfPrevNode :: "linked_buffer \<Rightarrow> lb_iter \<Rightarrow> lb_iter option" where
  "toLastCharOfPrevNode b it =
     do {
       n \<leftarrow> node_iter it;
       (if lb_first b < n \<and> n \<le> lb_end_node b then Some () else None);
       nd \<leftarrow> lb_node_at b (n - 1);
       (if node_size nd = 0 then None
        else Some \<lparr>node_iter = Some (n - 1), char_iter = Some (node_size nd - 1)\<rparr>)
     }"

definition toFirstCharOfNextNode :: "linked_buffer \<Rightarrow> lb_iter \<Rightarrow> lb_iter option" where
  "toFirstCharOfNextNode b it =
     do {
       n \<leftarrow> node_iter it;
       (if lb_first b \<le> n \<and> n < lb_end_node b then Some () else None);
       Some \<lparr>node_iter = Some (n + 1),
             char_iter = (if n + 1 \<noteq> lb_end_node b then Some 0 else None)\<rparr>
     }"

definition charDistanceToEndOfNode :: "linked_buffer \<Rightarrow> lb_iter \<Rightarrow> int option" where
  "charDistanceToEndOfNode b it =
     do { n \<leftarrow> node_iter it; nd \<leftarrow> lb_node_at b n; c \<leftarrow> char_iter it; Some (int (node_size nd) - int c) }"

definition charDistanceToStartOfNode :: "linked_buffer \<Rightarrow> lb_iter \<Rightarrow> int option" where
  "charDistanceToStartOfNode b it =
     do { n \<leftarrow> node_iter it; nd \<leftarrow> lb_node_at b n; c \<leftarrow> char_iter it; Some (int c + 1) }"

text \<open>\<open>std::advance(char_iter_, k)\<close>: defined up to one past the last character of the node.\<close>

definition lb_advance :: "linked_buffer \<Rightarrow> lb_iter \<Rightarrow> int \<Rightarrow> lb_iter option" where
  "lb_advance b it k =
     do {
       n \<leftarrow> node_iter it; nd \<leftarrow> lb_node_at b n; c \<leftarrow> char_iter it;
       (if 0 \<le> int c + k \<and> int c + k \<le> int (node_size nd)
        then Some (it\<lparr>char_iter := Some (nat (int c + k))\<rparr>) else None)
     }"

text \<open>The two loops of \<open>operator+=\<close>, each with its \<open>while (n > 0)\<close>.\<close>

partial_function (option) lb_forward :: "linked_buffer \<Rightarrow> lb_iter \<Rightarrow> int \<Rightarrow> lb_iter option" where
  "lb_forward b it n =
     do {
       curr_node_diff \<leftarrow> charDistanceToEndOfNode b it;
       if curr_node_diff > n then lb_advance b it n
       else do {
         it' \<leftarrow> toFirstCharOfNextNode b it;
         if n - curr_node_diff > 0 then lb_forward b it' (n - curr_node_diff) else Some it'
       }
     }"

partial_function (option) lb_backward :: "linked_buffer \<Rightarrow> lb_iter \<Rightarrow> int \<Rightarrow> lb_iter option" where
  "lb_backward b it n =
     do {
       curr_node_diff \<leftarrow> charDistanceToStartOfNode b it;
       if curr_node_diff > n then lb_advance b it (- n)
       else do {
         it' \<leftarrow> toLastCharOfPrevNode b it;
         if n - curr_node_diff > 0 then lb_backward b it' (n - curr_node_diff) else Some it'
       }
     }"

definition LinkedBufferIter_plus_eq :: "linked_buffer \<Rightarrow> lb_iter \<Rightarrow> int \<Rightarrow> lb_iter option" where
  "LinkedBufferIter_plus_eq b it n = (if n \<ge> 0 then lb_forward b it n else lb_backward b it n)"

definition LinkedBufferIter_minus_eq :: "linked_buffer \<Rightarrow> lb_iter \<Rightarrow> int \<Rightarrow> lb_iter option" where
  "LinkedBufferIter_minus_eq b it n = LinkedBufferIter_plus_eq b it (- n)"

definition LinkedBufferIter_inc :: "linked_buffer \<Rightarrow> lb_iter \<Rightarrow> lb_iter option" where
  "LinkedBufferIter_inc b it =
     do {
       it1 \<leftarrow> lb_advance b it 1;
       n \<leftarrow> node_iter it1; nd \<leftarrow> lb_node_at b n; c \<leftarrow> char_iter it1;
       if c = node_size nd then toFirstCharOfNextNode b it1 else Some it1
     }"

definition LinkedBufferIter_dec :: "linked_buffer \<Rightarrow> lb_iter \<Rightarrow> lb_iter option" where
  "LinkedBufferIter_dec b it =
     do {
       n \<leftarrow> node_iter it; nd \<leftarrow> lb_node_at b n; c \<leftarrow> char_iter it;
       if c \<noteq> 0 then lb_advance b it (- 1) else toLastCharOfPrevNode b it
     }"

definition LinkedBufferIter_deref :: "linked_buffer \<Rightarrow> lb_iter \<Rightarrow> char option" where
  "LinkedBufferIter_deref b it =
     do {
       n \<leftarrow> node_iter it; nd \<leftarrow> lb_node_at b n; c \<leftarrow> char_iter it;
       if c < node_size nd then Some (node_chars nd ! c) else None
     }"

text \<open>
  \<open>operator<\<close> and \<open>operator-\<close>. Two value-initialised character iterators (both sides at
  \<open>end()\<close>) compare equal and are at distance 0.
\<close>

definition char_iter_diff :: "nat option \<Rightarrow> nat option \<Rightarrow> int option" where
  "char_iter_diff x y =
     (case (x, y) of (Some c, Some d) \<Rightarrow> Some (int d - int c) | (None, None) \<Rightarrow> Some 0 | _ \<Rightarrow> None)"

definition LinkedBufferIter_less :: "lb_iter \<Rightarrow> lb_iter \<Rightarrow> bool option" where
  "LinkedBufferIter_less lhs rhs =
     do {
       n \<leftarrow> node_iter lhs; m \<leftarrow> node_iter rhs;
       if n = m then do { d \<leftarrow> char_iter_diff (char_iter lhs) (char_iter rhs); Some (d > 0) }
       else Some (n < m)
     }"

text \<open>The operators that are defined by others. Postfix ones give the old iterator and the new one.\<close>

definition LinkedBufferIter_plus :: "linked_buffer \<Rightarrow> lb_iter \<Rightarrow> int \<Rightarrow> lb_iter option" where
  "LinkedBufferIter_plus b it n = LinkedBufferIter_plus_eq b it n"

definition LinkedBufferIter_minus :: "linked_buffer \<Rightarrow> lb_iter \<Rightarrow> int \<Rightarrow> lb_iter option" where
  "LinkedBufferIter_minus b it n = LinkedBufferIter_minus_eq b it n"

definition LinkedBufferIter_post_inc :: "linked_buffer \<Rightarrow> lb_iter \<Rightarrow> (lb_iter \<times> lb_iter) option" where
  "LinkedBufferIter_post_inc b it = map_option (Pair it) (LinkedBufferIter_inc b it)"

definition LinkedBufferIter_post_dec :: "linked_buffer \<Rightarrow> lb_iter \<Rightarrow> (lb_iter \<times> lb_iter) option" where
  "LinkedBufferIter_post_dec b it = map_option (Pair it) (LinkedBufferIter_dec b it)"

definition LinkedBufferIter_greater :: "lb_iter \<Rightarrow> lb_iter \<Rightarrow> bool option" where
  "LinkedBufferIter_greater lhs rhs =
     do {
       n \<leftarrow> node_iter lhs; m \<leftarrow> node_iter rhs;
       if n = m then do { d \<leftarrow> char_iter_diff (char_iter lhs) (char_iter rhs); Some (d < 0) }
       else Some (n > m)
     }"

definition LinkedBufferIter_le :: "lb_iter \<Rightarrow> lb_iter \<Rightarrow> bool option" where
  "LinkedBufferIter_le lhs rhs =
     do { less \<leftarrow> LinkedBufferIter_less lhs rhs; Some (less \<or> LinkedBufferIter_equal lhs rhs) }"

definition LinkedBufferIter_ge :: "lb_iter \<Rightarrow> lb_iter \<Rightarrow> bool option" where
  "LinkedBufferIter_ge lhs rhs =
     do { greater \<leftarrow> LinkedBufferIter_greater lhs rhs; Some (greater \<or> LinkedBufferIter_equal lhs rhs) }"

partial_function (option) lb_sum_to ::
  "(linked_buffer \<Rightarrow> lb_iter \<Rightarrow> int option) \<Rightarrow> linked_buffer \<Rightarrow> lb_iter \<Rightarrow> lb_iter \<Rightarrow> int option" where
  "lb_sum_to dist b it stop =
     (if node_iter it = node_iter stop then char_iter_diff (char_iter it) (char_iter stop)
      else do {
        d \<leftarrow> dist b it;
        it' \<leftarrow> toFirstCharOfNextNode b it;
        r \<leftarrow> lb_sum_to dist b it' stop;
        Some (d + r)
      })"

definition LinkedBufferIter_diff :: "linked_buffer \<Rightarrow> lb_iter \<Rightarrow> lb_iter \<Rightarrow> int option" where
  "LinkedBufferIter_diff b lhs rhs =
     do {
       less \<leftarrow> LinkedBufferIter_less lhs rhs;
       if less then do { d \<leftarrow> lb_sum_to charDistanceToStartOfNode b lhs rhs; Some (- d) }
       else lb_sum_to charDistanceToEndOfNode b rhs lhs
     }"

section \<open>LinkedBuffer\<close>

definition LinkedBuffer_end :: "linked_buffer \<Rightarrow> lb_iter" where
  "LinkedBuffer_end b = \<lparr>node_iter = Some (lb_end_node b), char_iter = None\<rparr>"

definition LinkedBuffer_begin :: "linked_buffer \<Rightarrow> lb_iter option" where
  "LinkedBuffer_begin b =
     (if lb_nodes b = [] then None else Some \<lparr>node_iter = Some (lb_first b), char_iter = Some 0\<rparr>)"

definition LinkedBuffer_readAll :: "linked_buffer \<Rightarrow> bool \<times> linked_buffer" where
  "LinkedBuffer_readAll b = (True, b\<lparr>reader_iter := LinkedBufferIter_new, lb_nodes := []\<rparr>)"

definition addNewNode :: "string \<Rightarrow> linked_buffer \<Rightarrow> linked_buffer" where
  "addNewNode buf b =
     b\<lparr>lb_nodes := lb_nodes b @ [\<lparr>node_chars = buf, node_capacity = max kMinNodeSize (length buf)\<rparr>]\<rparr>"

text \<open>\<open>vector::insert\<close> at the end: beyond the capacity the vector moves to a larger block.\<close>

definition node_insert :: "string \<Rightarrow> lb_node \<Rightarrow> bool \<times> lb_node" where
  "node_insert buf nd =
     (let n = node_size nd + length buf in
      (node_capacity nd < n,
       nd\<lparr>node_chars := node_chars nd @ buf, node_capacity := max n (node_capacity nd)\<rparr>))"

definition LinkedBuffer_append :: "string \<Rightarrow> linked_buffer \<Rightarrow> linked_buffer option" where
  "LinkedBuffer_append buf b =
     (if lb_nodes b = [] then
        (let b1 = addNewNode buf b in
         do { it \<leftarrow> LinkedBuffer_begin b1; Some (b1\<lparr>reader_iter := it\<rparr>) })
      else
        (let last_node = last (lb_nodes b) in
         if node_size last_node + length buf < kMinNodeSize then
           (let (moved, nd) = node_insert buf last_node;
                b1 = b\<lparr>lb_nodes := butlast (lb_nodes b) @ [nd]\<rparr> in
            Some (if moved \<and> node_iter (reader_iter b) = Some (lb_end_node b - 1)
                  then b1\<lparr>reader_iter := (reader_iter b)\<lparr>char_iter := None\<rparr>\<rparr> else b1))
         else Some (addNewNode buf b)))"

fun pop_nodes :: "lb_node list \<Rightarrow> nat \<Rightarrow> nat \<Rightarrow> (lb_node list \<times> nat) option" where
  "pop_nodes nds first node =
     (if first = node then Some (nds, first)
      else (case nds of [] \<Rightarrow> None | _ # nds' \<Rightarrow> pop_nodes nds' (Suc first) node))"

declare pop_nodes.simps [simp del]

definition freeNodesBefore :: "nat \<Rightarrow> linked_buffer \<Rightarrow> linked_buffer option" where
  "freeNodesBefore node b =
     do {
       (nds, first) \<leftarrow> pop_nodes (lb_nodes b) (lb_first b) node;
       Some (b\<lparr>lb_nodes := nds, lb_first := first\<rparr>)
     }"

text \<open>
  The iterators visited by \<open>for (iter = reader_iter_; iter.getNodeIter() != buffer_.end();
  iter.toFirstCharOfNextNode())\<close>, the loop of \<open>readableSize\<close> and \<open>toIOVec\<close>.
\<close>

partial_function (option) lb_node_iters :: "linked_buffer \<Rightarrow> lb_iter \<Rightarrow> lb_iter list option" where
  "lb_node_iters b it =
     do {
       n \<leftarrow> node_iter it;
       if n = lb_end_node b then Some []
       else do {
         it' \<leftarrow> toFirstCharOfNextNode b it;
         its \<leftarrow> lb_node_iters b it';
         Some (it # its)
       }
     }"

fun all_some :: "'a option list \<Rightarrow> 'a list option" where
  "all_some [] = Some []"
| "all_some (x # xs) = do { y \<leftarrow> x; ys \<leftarrow> all_some xs; Some (y # ys) }"

definition LinkedBuffer_readableSize :: "linked_buffer \<Rightarrow> nat option" where
  "LinkedBuffer_readableSize b =
     do {
       its \<leftarrow> lb_node_iters b (reader_iter b);
       ds \<leftarrow> all_some (map (charDistanceToEndOfNode b) its);
       Some (nat (sum_list ds))
     }"

definition numReadableNodes :: "linked_buffer \<Rightarrow> nat option" where
  "numReadableNodes b =
     do { n \<leftarrow> node_iter (reader_iter b); Some (size_sub (lb_end_node b) n) }"

definition iovec_at :: "linked_buffer \<Rightarrow> lb_iter \<Rightarrow> string option" where
  "iovec_at b it =
     do { n \<leftarrow> node_iter it; nd \<leftarrow> lb_node_at b n; c \<leftarrow> char_iter it; Some (drop c (node_chars nd)) }"

definition toIOVec :: "nat \<Rightarrow> linked_buffer \<Rightarrow> string list option" where
  "toIOVec num b =
     do {
       its \<leftarrow> lb_node_iters b (reader_iter b);
       (if length its \<le> num then Some () else None);
       all_some (map (iovec_at b) its)
     }"

definition LinkedBuffer_read :: "nat \<Rightarrow> linked_buffer \<Rightarrow> (bool \<times> linked_buffer) option" where
  "LinkedBuffer_read n b =
     do {
       sz \<leftarrow> LinkedBuffer_readableSize b;
       if sz < n then Some (False, b)
       else do {
         it \<leftarrow> LinkedBufferIter_plus_eq b (reader_iter b) (int n);
         node \<leftarrow> node_iter it;
         b1 \<leftarrow> freeNodesBefore node (b\<lparr>reader_iter := it\<rparr>);
         Some (True, b1)
       }
     }"

definition LinkedBuffer_readUntil :: "lb_iter \<Rightarrow> linked_buffer \<Rightarrow> (bool \<times> linked_buffer) option" where
  "LinkedBuffer_readUntil it b =
     do {
       less \<leftarrow> LinkedBufferIter_less it (reader_iter b);
       if less then Some (False, b)
       else do {
         node \<leftarrow> node_iter it;
         b1 \<leftarrow> freeNodesBefore node (b\<lparr>reader_iter := it\<rparr>);
         Some (True, b1)
       }
     }"

definition LinkedBuffer_writeFromFD :: "sys_readv \<Rightarrow> linked_buffer \<Rightarrow> (int \<times> linked_buffer) option" where
  "LinkedBuffer_writeFromFD rd b =
     (case rd [LinkedBuffer_kTmpBuffSize] of
        SysErr \<Rightarrow> Some (- 1, b)
      | SysBytes buf \<Rightarrow>
          if length buf > LinkedBuffer_kTmpBuffSize then None
          else if buf = [] then Some (0, b)
          else do { b1 \<leftarrow> LinkedBuffer_append buf b; Some (int (length buf), b1) })"

definition LinkedBuffer_readToFD :: "sys_writev \<Rightarrow> linked_buffer \<Rightarrow> (int \<times> linked_buffer) option" where
  "LinkedBuffer_readToFD wr b =
     do {
       node_d \<leftarrow> numReadableNodes b;
       vec \<leftarrow> toIOVec node_d b;
       let n = wr vec;
       if n < 0 then Some (n, b)
       else do { r \<leftarrow> LinkedBuffer_read (nat n) b; Some (n, snd r) }
     }"

definition LinkedBuffer_type :: "(linked_buffer, lb_iter) buffer_type" where
  "LinkedBuffer_type =
     \<lparr>bt_new = LinkedBuffer_new,
      bt_readerIter = reader_iter, bt_end = LinkedBuffer_end,
      bt_deref = LinkedBufferIter_deref,
      bt_inc = LinkedBufferIter_inc, bt_dec = LinkedBufferIter_dec,
      bt_plus = LinkedBufferIter_plus_eq,
      bt_readUntil = LinkedBuffer_readUntil,
      bt_readAll = LinkedBuffer_readAll,
      bt_readableSize = LinkedBuffer_readableSize,
      bt_append = LinkedBuffer_append, bt_writeFromFD = LinkedBuffer_writeFromFD,
      bt_readToFD = LinkedBuffer_readToFD\<rparr>"

section \<open>Positions\<close>

text \<open>
  \<open>lb_suffix b n nds\<close>: the nodes from number \<open>n\<close> on are \<open>nds\<close>. \<open>lb_bytes c nds\<close> are the
  bytes from offset \<open>c\<close> of the first of them on, and \<open>lb_walk n c nds k\<close> is the iterator
  \<open>k\<close> bytes further.
\<close>

definition lb_suffix :: "linked_buffer \<Rightarrow> nat \<Rightarrow> lb_node list \<Rightarrow> bool" where
  "lb_suffix b n nds \<longleftrightarrow>
     lb_first b \<le> n \<and> n \<le> lb_end_node b \<and> drop (n - lb_first b) (lb_nodes b) = nds"

fun lb_bytes :: "nat \<Rightarrow> lb_node list \<Rightarrow> string" where
  "lb_bytes c [] = []"
| "lb_bytes c (nd # nds) = drop c (node_chars nd) @ concat (map node_chars nds)"

fun lb_walk :: "nat \<Rightarrow> nat \<Rightarrow> lb_node list \<Rightarrow> nat \<Rightarrow> lb_iter" where
  "lb_walk n c [] k = \<lparr>node_iter = Some n, char_iter = None\<rparr>"
| "lb_walk n c (nd # nds) k =
     (if c + k < node_size nd then \<lparr>node_iter = Some n, char_iter = Some (c + k)\<rparr>
      else lb_walk (Suc n) 0 nds (k - (node_size nd - c)))"

definition lb_start :: "nat \<Rightarrow> lb_node list \<Rightarrow> lb_iter" where
  "lb_start n nds = \<lparr>node_iter = Some n, char_iter = (if nds = [] then None else Some 0)\<rparr>"

abbreviation nonempty_nodes :: "lb_node list \<Rightarrow> bool" where
  "nonempty_nodes nds \<equiv> (\<forall>nd \<in> set nds. node_chars nd \<noteq> [])"

abbreviation lb_off_ok :: "nat \<Rightarrow> lb_node list \<Rightarrow> bool" where
  "lb_off_ok c nds \<equiv> (nds \<noteq> [] \<longrightarrow> c < node_size (hd nds))"

definition lb_content :: "linked_buffer \<Rightarrow> string" where
  "lb_content b =
     (case char_iter (reader_iter b) of None \<Rightarrow> [] | Some c \<Rightarrow> lb_bytes c (lb_nodes b))"

definition lb_iter_at :: "linked_buffer \<Rightarrow> nat \<Rightarrow> lb_iter" where
  "lb_iter_at b k =
     lb_walk (lb_first b) (case char_iter (reader_iter b) of None \<Rightarrow> 0 | Some c \<Rightarrow> c) (lb_nodes b) k"

definition lb_caps :: "lb_node list \<Rightarrow> bool" where
  "lb_caps nds \<longleftrightarrow> (\<forall>nd \<in> set nds. kMinNodeSize \<le> node_capacity nd \<and> node_size nd \<le> node_capacity nd)"

text \<open>
  The invariant: the reader is in the first node (every node before it has been freed),
  inside it or in an empty node; with no node left it is \<open>end()\<close> or has never been set.
  \<open>lb_ready\<close>: it can be dereferenced or is \<open>end()\<close>, and no node is empty.
\<close>

definition lb_fits :: "nat \<Rightarrow> lb_node list \<Rightarrow> lb_iter \<Rightarrow> bool" where
  "lb_fits n nds it \<longleftrightarrow>
     (case nds of
        [] \<Rightarrow> it = \<lparr>node_iter = Some n, char_iter = None\<rparr>
      | nd # _ \<Rightarrow> \<exists>c. it = \<lparr>node_iter = Some n, char_iter = Some c\<rparr> \<and>
          (c < node_size nd \<or> c = 0 \<and> node_size nd = 0))"

definition lb_inv :: "linked_buffer \<Rightarrow> bool" where
  "lb_inv b \<longleftrightarrow>
     lb_caps (lb_nodes b) \<and>
     (lb_fits (lb_first b) (lb_nodes b) (reader_iter b) \<or>
      lb_nodes b = [] \<and> reader_iter b = LinkedBufferIter_new)"

definition lb_in_inv :: "linked_buffer \<Rightarrow> bool" where
  "lb_in_inv b \<longleftrightarrow> lb_inv b \<and> nonempty_nodes (lb_nodes b)"

definition lb_ready :: "linked_buffer \<Rightarrow> bool" where
  "lb_ready b \<longleftrightarrow> lb_in_inv b \<and> lb_fits (lb_first b) (lb_nodes b) (reader_iter b)"

section \<open>Walking over the nodes\<close>

lemma lb_suffix_end: "lb_suffix b n [] \<longleftrightarrow> n = lb_end_node b"
  by (auto simp: lb_suffix_def lb_end_node_def)

lemma lb_suffix_ConsD:
  assumes "lb_suffix b n (nd # nds)"
  shows "lb_node_at b n = Some nd" "lb_suffix b (Suc n) nds" "lb_first b \<le> n" "n < lb_end_node b"
    "Suc n = lb_end_node b \<longleftrightarrow> nds = []"
proof -
  from assms have le: "lb_first b \<le> n" and d: "drop (n - lb_first b) (lb_nodes b) = nd # nds"
    by (auto simp: lb_suffix_def)
  from d have lt: "n - lb_first b < length (lb_nodes b)"
    by (metis drop_eq_Nil list.distinct(1) not_le)
  with le show l: "n < lb_end_node b" by (simp add: lb_end_node_def)
  have nth: "lb_nodes b ! (n - lb_first b) = nd"
    using d lt by (metis hd_drop_conv_nth list.sel(1))
  with le l show "lb_node_at b n = Some nd" by (simp add: lb_node_at_def)
  have "drop (Suc (n - lb_first b)) (lb_nodes b) = nds"
    using d by (metis drop_Suc list.sel(3) tl_drop)
  with le l show suf: "lb_suffix b (Suc n) nds"
    by (simp add: lb_suffix_def Suc_diff_le)
  show "lb_first b \<le> n" by (fact le)
  show "Suc n = lb_end_node b \<longleftrightarrow> nds = []"
    using suf by (auto simp: lb_suffix_def lb_end_node_def)
qed

lemma next_node: "lb_suffix b n (nd # nds) \<Longrightarrow>
   toFirstCharOfNextNode b \<lparr>node_iter = Some n, char_iter = c\<rparr> = Some (lb_start (Suc n) nds)"
  by (frule lb_suffix_ConsD(5)) (simp add: toFirstCharOfNextNode_def lb_start_def lb_suffix_ConsD)

lemma lb_start_walk: "nonempty_nodes nds \<Longrightarrow> lb_start n nds = lb_walk n 0 nds 0"
  by (cases nds) (auto simp: lb_start_def)

lemma lb_bytes_0: "lb_bytes 0 nds = concat (map node_chars nds)"
  by (cases nds) auto

text \<open>A walk is a position of its own, from which the rest of the walk starts.\<close>

lemma lb_walk_position:
  assumes "lb_suffix b n nds" and "lb_off_ok c nds" and "nonempty_nodes nds"
    and "k < length (lb_bytes c nds)"
  obtains n' c' nd' nds' where "lb_suffix b n' (nd' # nds')" "c' < node_size nd'"
    "nonempty_nodes (nd' # nds')" "lb_walk n c nds k = \<lparr>node_iter = Some n', char_iter = Some c'\<rparr>"
    "lb_bytes c' (nd' # nds') = drop k (lb_bytes c nds)"
    "\<And>m. lb_walk n' c' (nd' # nds') m = lb_walk n c nds (k + m)" "n \<le> n'"
    "n' = n \<Longrightarrow> c' = c + k"
  using assms
proof (induction nds arbitrary: n c k thesis)
  case Nil
  then show ?case by simp
next
  case (Cons nd nds)
  show ?case
  proof (cases "c + k < node_size nd")
    case True
    show ?thesis
      by (rule Cons.prems(1) [of n nd nds "c + k"])
        (use Cons.prems(2-5) True in \<open>auto simp: add.commute add.left_commute\<close>)
  next
    case False
    let ?k = "k - (node_size nd - c)"
    have suf: "lb_suffix b (Suc n) nds" using Cons.prems(2) by (rule lb_suffix_ConsD)
    have off: "lb_off_ok 0 nds" using Cons.prems(4) by (cases nds) auto
    have len: "?k < length (lb_bytes 0 nds)"
      using Cons.prems(3,5) False by (auto simp: lb_bytes_0)
    obtain n' c' nd' nds' where p: "lb_suffix b n' (nd' # nds')" "c' < node_size nd'"
      "nonempty_nodes (nd' # nds')" "lb_walk (Suc n) 0 nds ?k = \<lparr>node_iter = Some n', char_iter = Some c'\<rparr>"
      "lb_bytes c' (nd' # nds') = drop ?k (lb_bytes 0 nds)"
      "\<And>m. lb_walk n' c' (nd' # nds') m = lb_walk (Suc n) 0 nds (?k + m)" "Suc n \<le> n'"
      by (rule Cons.IH [OF _ suf off _ len]) (use Cons.prems(4) in auto)
    have k: "node_size nd - c \<le> k" using Cons.prems(3) False by auto
    show ?thesis
    proof (rule Cons.prems(1) [of n' nd' nds' c'])
      show "lb_bytes c' (nd' # nds') = drop k (lb_bytes c (nd # nds))"
        unfolding p(5) using Cons.prems(3) k by (simp add: lb_bytes_0)
      show "lb_walk n' c' (nd' # nds') m = lb_walk n c (nd # nds) (k + m)" for m
      proof -
        have e: "?k + m = k + m - (node_size nd - c)" using k by arith
        from False have "\<not> c + (k + m) < node_size nd" by simp
        then show ?thesis unfolding p(6) e by (simp only: lb_walk.simps if_False)
      qed
    qed (use p(1-4,7) False k in auto)
  qed
qed

lemma deref_position:
  "lb_suffix b n (nd # nds) \<Longrightarrow> c < node_size nd \<Longrightarrow>
   LinkedBufferIter_deref b \<lparr>node_iter = Some n, char_iter = Some c\<rparr> = Some (lb_bytes c (nd # nds) ! 0)"
  by (simp add: LinkedBufferIter_deref_def lb_suffix_ConsD nth_append)

lemma inc_position:
  assumes "lb_suffix b n (nd # nds)" and "c < node_size nd" and "nonempty_nodes (nd # nds)"
  shows "LinkedBufferIter_inc b \<lparr>node_iter = Some n, char_iter = Some c\<rparr> =
    Some (lb_walk n c (nd # nds) 1)"
  using assms next_node [OF assms(1)]
  by (auto simp: LinkedBufferIter_inc_def lb_advance_def lb_suffix_ConsD(1) nat_add_distrib
      lb_start_walk)

lemma forward_position:
  assumes "lb_suffix b n (nd # nds)" and "c < node_size nd" and "nonempty_nodes (nd # nds)"
    and "m \<le> length (lb_bytes c (nd # nds))"
  shows "lb_forward b \<lparr>node_iter = Some n, char_iter = Some c\<rparr> (int m) =
    Some (lb_walk n c (nd # nds) m)"
  using assms
proof (induction nds arbitrary: nd n c m)
  case Nil
  then show ?case
    using next_node [OF Nil.prems(1)]
    by (subst lb_forward.simps)
      (auto simp: charDistanceToEndOfNode_def lb_advance_def lb_suffix_ConsD(1) nat_add_distrib
        lb_start_def)
next
  case (Cons nd' nds)
  let ?r = "m - (node_size nd - c)"
  have suf: "lb_suffix b (Suc n) (nd' # nds)" using Cons.prems(1) by (rule lb_suffix_ConsD)
  have IH: "lb_forward b \<lparr>node_iter = Some (Suc n), char_iter = Some 0\<rparr> (int ?r) =
      Some (lb_walk (Suc n) 0 (nd' # nds) ?r)"
    using Cons.prems by (intro Cons.IH [OF suf]) auto
  show ?case
  proof (cases "m < node_size nd - c")
    case True
    then show ?thesis
      using Cons.prems(1,2)
      by (subst lb_forward.simps)
        (auto simp: charDistanceToEndOfNode_def lb_advance_def lb_suffix_ConsD(1) nat_add_distrib)
  next
    case False
    then have r: "int m - (int (node_size nd) - int c) = int ?r" "int (node_size nd) - int c \<le> int m"
      using Cons.prems(2) by auto
    have "lb_forward b \<lparr>node_iter = Some n, char_iter = Some c\<rparr> (int m) =
        (if 0 < int ?r then lb_forward b \<lparr>node_iter = Some (Suc n), char_iter = Some 0\<rparr> (int ?r)
         else Some \<lparr>node_iter = Some (Suc n), char_iter = Some 0\<rparr>)"
      using r next_node [OF Cons.prems(1)]
      by (subst lb_forward.simps)
        (simp add: charDistanceToEndOfNode_def lb_suffix_ConsD(1) [OF Cons.prems(1)] lb_start_def
          diff_diff_eq2)
    with IH False Cons.prems show ?thesis by auto
  qed
qed


lemma lb_walk_node: "\<exists>n' c'. lb_walk n c nds k = \<lparr>node_iter = Some n', char_iter = c'\<rparr> \<and> n \<le> n'"
  by (induction n c nds k rule: lb_walk.induct) (auto dest: Suc_leD)

lemma sum_position:
  assumes "lb_suffix b n (nd # nds)" and "c < node_size nd" and "nonempty_nodes (nd # nds)"
    and "m \<le> length (lb_bytes c (nd # nds))"
  shows "lb_sum_to charDistanceToEndOfNode b \<lparr>node_iter = Some n, char_iter = Some c\<rparr>
    (lb_walk n c (nd # nds) m) = Some (int m)"
  using assms
proof (induction nds arbitrary: nd n c m)
  case Nil
  show ?case
    using Nil.prems next_node [OF Nil.prems(1)]
      lb_sum_to.simps [of charDistanceToEndOfNode b "lb_start (Suc n) []" "lb_start (Suc n) []"]
    by (subst lb_sum_to.simps)
      (auto simp: charDistanceToEndOfNode_def lb_suffix_ConsD(1) char_iter_diff_def lb_start_def)
next
  case (Cons nd' nds)
  show ?case
  proof (cases "c + m < node_size nd")
    case True
    then show ?thesis by (subst lb_sum_to.simps) (simp add: char_iter_diff_def)
  next
    case False
    let ?r = "m - (node_size nd - c)"
    have suf: "lb_suffix b (Suc n) (nd' # nds)" using Cons.prems(1) by (rule lb_suffix_ConsD)
    have IH: "lb_sum_to charDistanceToEndOfNode b \<lparr>node_iter = Some (Suc n), char_iter = Some 0\<rparr>
        (lb_walk (Suc n) 0 (nd' # nds) ?r) = Some (int ?r)"
      using Cons.prems by (intro Cons.IH [OF suf]) auto
    obtain n' c' where w: "lb_walk (Suc n) 0 (nd' # nds) ?r = \<lparr>node_iter = Some n', char_iter = c'\<rparr>" "Suc n \<le> n'"
      using lb_walk_node [of "Suc n" 0 "nd' # nds" ?r] by auto
    have "lb_walk n c (nd # nd' # nds) m = \<lparr>node_iter = Some n', char_iter = c'\<rparr>"
      using False w(1) by (simp only: lb_walk.simps(2) [of n c nd] if_False)
    then show ?thesis
      using False w IH next_node [OF Cons.prems(1), of "Some c"] Cons.prems(2)
      by (subst lb_sum_to.simps)
        (simp add: charDistanceToEndOfNode_def lb_suffix_ConsD(1) [OF Cons.prems(1)] lb_start_def del: lb_walk.simps(2))
  qed
qed

lemma lb_walk_inj:
  "c \<le> (case nds of [] \<Rightarrow> c | nd # _ \<Rightarrow> node_size nd) \<Longrightarrow> k \<le> length (lb_bytes c nds) \<Longrightarrow>
   m \<le> length (lb_bytes c nds) \<Longrightarrow> lb_walk n c nds k = lb_walk n c nds m \<Longrightarrow> k = m"
proof (induction nds arbitrary: n c k m)
  case (Cons nd nds)
  let ?d = "node_size nd - c"
  consider "c + k < node_size nd" "c + m < node_size nd" | "c + k < node_size nd" "\<not> c + m < node_size nd"
    | "\<not> c + k < node_size nd" "c + m < node_size nd" | "\<not> c + k < node_size nd" "\<not> c + m < node_size nd"
    by blast
  then show ?case
  proof cases
    case 4
    then have "k - ?d = m - ?d"
      using Cons.prems by (intro Cons.IH [of 0 _ _ "Suc n"]) (auto simp: lb_bytes_0 split: list.splits)
    with 4 Cons.prems(1) show ?thesis by simp
  qed (use Cons.prems lb_walk_node [of "Suc n" 0 nds "m - ?d"] lb_walk_node [of "Suc n" 0 nds "k - ?d"] in auto)
qed simp

lemma lb_walk_end:
  "c \<le> (case nds of [] \<Rightarrow> c | nd # _ \<Rightarrow> node_size nd) \<Longrightarrow>
   lb_walk n c nds (length (lb_bytes c nds)) = \<lparr>node_iter = Some (n + length nds), char_iter = None\<rparr>"
proof (induction nds arbitrary: n c)
  case (Cons nd nds)
  have "lb_walk (Suc n) 0 nds (length (lb_bytes 0 nds)) =
      \<lparr>node_iter = Some (Suc n + length nds), char_iter = None\<rparr>"
    by (rule Cons.IH) (simp split: list.splits)
  with Cons.prems show ?case by (simp add: lb_bytes_0)
qed simp

lemma deref_end_node: "LinkedBufferIter_deref b \<lparr>node_iter = Some (lb_end_node b), char_iter = c\<rparr> = None"
  by (simp add: LinkedBufferIter_deref_def lb_node_at_def)

lemma pop_nodes_drop:
  "first \<le> n \<Longrightarrow> n \<le> first + length nds \<Longrightarrow> pop_nodes nds first n = Some (drop (n - first) nds, n)"
proof (induction nds arbitrary: first)
  case Nil
  then show ?case by (simp add: pop_nodes.simps)
next
  case (Cons nd nds)
  show ?case
  proof (cases "first = n")
    case False
    with Cons.prems have "pop_nodes nds (Suc first) n = Some (drop (n - Suc first) nds, n)"
      by (intro Cons.IH) auto
    with False Cons.prems show ?thesis
      by (subst pop_nodes.simps) (auto simp: drop_Cons' Suc_diff_Suc)
  qed (simp add: pop_nodes.simps)
qed

lemma freeNodesBefore_suffix:
  assumes "lb_suffix b n nds"
  shows "freeNodesBefore n (b\<lparr>reader_iter := it\<rparr>) =
    Some (b\<lparr>reader_iter := it, lb_nodes := nds, lb_first := n\<rparr>)"
  using assms pop_nodes_drop [of "lb_first b" n "lb_nodes b"]
  by (simp add: freeNodesBefore_def lb_suffix_def lb_end_node_def)

lemma lb_content_update [simp]:
  "lb_content (b\<lparr>reader_iter := it, lb_nodes := nds, lb_first := n\<rparr>) =
   (case char_iter it of None \<Rightarrow> [] | Some d \<Rightarrow> lb_bytes d nds)"
  by (simp add: lb_content_def split: option.split)

lemma lb_suffix_caps: "lb_suffix b n nds \<Longrightarrow> lb_caps (lb_nodes b) \<Longrightarrow> lb_caps nds"
  by (auto simp: lb_suffix_def lb_caps_def dest: in_set_dropD)

lemma lb_suffix_nonempty: "lb_suffix b n nds \<Longrightarrow> nonempty_nodes (lb_nodes b) \<Longrightarrow> nonempty_nodes nds"
  by (auto simp: lb_suffix_def dest: in_set_dropD)

lemma lb_suffix_all: "lb_suffix b (lb_first b) (lb_nodes b)"
  by (simp add: lb_suffix_def lb_end_node_def)


section \<open>Reading and draining\<close>

text \<open>What the two loops over the readable nodes compute.\<close>

lemma lb_node_iters_suffix:
  assumes "lb_suffix b n (nd # nds)" and "c \<le> node_size nd"
  shows "\<exists>its ds vs. lb_node_iters b \<lparr>node_iter = Some n, char_iter = Some c\<rparr> = Some its \<and>
    length its = Suc (length nds) \<and>
    all_some (map (charDistanceToEndOfNode b) its) = Some ds \<and>
    sum_list ds = int (length (lb_bytes c (nd # nds))) \<and>
    all_some (map (iovec_at b) its) = Some vs \<and> concat vs = lb_bytes c (nd # nds)"
  using assms
proof (induction nds arbitrary: nd n c)
  case Nil
  have "lb_node_iters b \<lparr>node_iter = Some (Suc n), char_iter = None\<rparr> = Some []"
    using lb_suffix_ConsD(2) [OF Nil.prems(1)] by (subst lb_node_iters.simps) (simp add: lb_suffix_end)
  then show ?case
    using Nil.prems next_node [OF Nil.prems(1)] lb_suffix_ConsD(4) [OF Nil.prems(1)]
    by (subst lb_node_iters.simps)
      (auto simp: lb_start_def charDistanceToEndOfNode_def iovec_at_def lb_suffix_ConsD(1))
next
  case (Cons nd' nds)
  obtain its ds vs where r: "lb_node_iters b \<lparr>node_iter = Some (Suc n), char_iter = Some 0\<rparr> = Some its"
    "length its = Suc (length nds)" "all_some (map (charDistanceToEndOfNode b) its) = Some ds"
    "sum_list ds = int (length (lb_bytes 0 (nd' # nds)))"
    "all_some (map (iovec_at b) its) = Some vs" "concat vs = lb_bytes 0 (nd' # nds)"
    using Cons.IH [OF lb_suffix_ConsD(2) [OF Cons.prems(1)], of 0] by auto
  show ?case
    using Cons.prems next_node [OF Cons.prems(1)] lb_suffix_ConsD(4) [OF Cons.prems(1)] r
    by (subst lb_node_iters.simps)
      (auto simp: lb_start_def charDistanceToEndOfNode_def iovec_at_def lb_suffix_ConsD(1))
qed

lemma forward_general:
  assumes "lb_suffix b n (nd # nds)" and "c \<le> node_size nd" and "m \<le> length (lb_bytes c (nd # nds))"
  shows "\<exists>n' nds' it. lb_forward b \<lparr>node_iter = Some n, char_iter = Some c\<rparr> (int m) = Some it \<and>
    lb_suffix b n' nds' \<and> lb_fits n' nds' it \<and>
    (case char_iter it of None \<Rightarrow> [] | Some d \<Rightarrow> lb_bytes d nds') = drop m (lb_bytes c (nd # nds))"
  using assms
proof (induction nds arbitrary: nd n c m)
  case Nil
  show ?case
  proof (cases "m < node_size nd - c")
    case True
    with Nil.prems show ?thesis
      by (intro exI [of _ n] exI [of _ "[nd]"], subst lb_forward.simps)
        (auto simp: charDistanceToEndOfNode_def lb_advance_def lb_suffix_ConsD(1) nat_add_distrib
          lb_fits_def add.commute)
  next
    case False
    with Nil.prems have m: "m = node_size nd - c" by simp
    with Nil.prems next_node [OF Nil.prems(1)] lb_suffix_ConsD(2) [OF Nil.prems(1)] show ?thesis
      by (intro exI [of _ "Suc n"] exI [of _ "[]"], subst lb_forward.simps)
        (auto simp: charDistanceToEndOfNode_def lb_suffix_ConsD(1) lb_fits_def lb_start_def)
  qed
next
  case (Cons nd' nds)
  have suf: "lb_suffix b (Suc n) (nd' # nds)" using Cons.prems(1) by (rule lb_suffix_ConsD)
  have st: "lb_start (Suc n) (nd' # nds) = \<lparr>node_iter = Some (Suc n), char_iter = Some 0\<rparr>"
    by (simp add: lb_start_def)
  show ?case
  proof (cases "m < node_size nd - c")
    case True
    with Cons.prems show ?thesis
      by (intro exI [of _ n] exI [of _ "nd # nd' # nds"], subst lb_forward.simps)
        (auto simp: charDistanceToEndOfNode_def lb_advance_def lb_suffix_ConsD(1) nat_add_distrib
          lb_fits_def add.commute)
  next
    case False
    define r where "r = m - (node_size nd - c)"
    have r: "int m - (int (node_size nd) - int c) = int r" "int (node_size nd) - int c \<le> int m"
      using Cons.prems(2) False by (auto simp: r_def)
    have fwd: "lb_forward b \<lparr>node_iter = Some n, char_iter = Some c\<rparr> (int m) =
        (if 0 < int r then lb_forward b \<lparr>node_iter = Some (Suc n), char_iter = Some 0\<rparr> (int r)
         else Some \<lparr>node_iter = Some (Suc n), char_iter = Some 0\<rparr>)"
      using r next_node [OF Cons.prems(1)]
      by (subst lb_forward.simps)
        (simp add: charDistanceToEndOfNode_def lb_suffix_ConsD(1) [OF Cons.prems(1)] st)
    have bytes: "drop m (lb_bytes c (nd # nd' # nds)) = drop r (lb_bytes 0 (nd' # nds))"
      using Cons.prems(2) False by (simp add: r_def)
    show ?thesis
    proof (cases "r = 0")
      case True
      with fwd bytes suf show ?thesis
        by (intro exI [of _ "Suc n"] exI [of _ "nd' # nds"]) (auto simp: lb_fits_def)
    next
      case False
      have "r \<le> length (lb_bytes 0 (nd' # nds))"
        using Cons.prems(2,3) by (auto simp: r_def)
      from Cons.IH [OF suf _ this] fwd bytes False show ?thesis by simp
    qed
  qed
qed

lemma lb_content_nodes: "lb_inv b \<Longrightarrow> lb_content b \<noteq> [] \<Longrightarrow> lb_nodes b \<noteq> []"
  by (auto simp: lb_content_def split: option.splits)

lemma lb_inv_cases:
  assumes "lb_inv b" and "lb_nodes b \<noteq> []"
  obtains nd nds c where "lb_nodes b = nd # nds" "c \<le> node_size nd"
    "reader_iter b = \<lparr>node_iter = Some (lb_first b), char_iter = Some c\<rparr>"
    "lb_suffix b (lb_first b) (nd # nds)" "lb_content b = lb_bytes c (nd # nds)"
proof (cases "lb_nodes b")
  case (Cons nd nds)
  with assms that lb_suffix_all [of b] show ?thesis
    by (fastforce simp: lb_inv_def lb_fits_def lb_content_def)
qed (use assms in simp)

lemma LinkedBuffer_readableSize_correct:
  assumes "lb_inv b" and "node_iter (reader_iter b) \<noteq> None"
  shows "LinkedBuffer_readableSize b = Some (length (lb_content b))"
proof (cases "lb_nodes b")
  case Nil
  with assms have "reader_iter b = \<lparr>node_iter = Some (lb_end_node b), char_iter = None\<rparr>"
    by (auto simp: lb_inv_def lb_fits_def LinkedBufferIter_new_def lb_end_node_def)
  then show ?thesis
    by (simp add: LinkedBuffer_readableSize_def lb_node_iters.simps lb_content_def)
next
  case (Cons nd nds)
  with assms obtain c where c: "reader_iter b = \<lparr>node_iter = Some (lb_first b), char_iter = Some c\<rparr>"
    "c \<le> node_size nd" by (fastforce simp: lb_inv_def lb_fits_def)
  have "lb_suffix b (lb_first b) (nd # nds)"
    using lb_suffix_all [of b] Cons by simp
  from lb_node_iters_suffix [OF this c(2)] c(1) Cons show ?thesis
    by (auto simp: LinkedBuffer_readableSize_def lb_content_def)
qed

lemma LinkedBuffer_read_correct:
  assumes "lb_inv b" and "lb_nodes b \<noteq> []" and "m \<le> length (lb_content b)"
  shows "\<exists>b'. LinkedBuffer_read m b = Some (True, b') \<and> lb_inv b' \<and>
    node_iter (reader_iter b') \<noteq> None \<and> lb_content b' = drop m (lb_content b)"
proof -
  obtain nd nds c where b: "lb_nodes b = nd # nds" "c \<le> node_size nd"
    "reader_iter b = \<lparr>node_iter = Some (lb_first b), char_iter = Some c\<rparr>"
    "lb_suffix b (lb_first b) (nd # nds)" "lb_content b = lb_bytes c (nd # nds)"
    using lb_inv_cases [OF assms(1,2)] .
  have sz: "LinkedBuffer_readableSize b = Some (length (lb_content b))"
    using assms(1) b(3) by (intro LinkedBuffer_readableSize_correct) simp_all
  obtain n' nds' it where f: "lb_forward b (reader_iter b) (int m) = Some it" "lb_suffix b n' nds'"
    "lb_fits n' nds' it"
    "(case char_iter it of None \<Rightarrow> [] | Some d \<Rightarrow> lb_bytes d nds') = drop m (lb_content b)"
    using forward_general [OF b(4,2)] assms(3) unfolding b(3,5) by blast
  from f(3) have it: "node_iter it = Some n'"
    by (auto simp: lb_fits_def split: list.splits)
  have "lb_caps nds'"
    using lb_suffix_caps [OF f(2)] assms(1) by (simp add: lb_inv_def)
  with f it sz assms(3) show ?thesis
    by (auto simp: LinkedBuffer_read_def LinkedBufferIter_plus_eq_def freeNodesBefore_suffix
        lb_inv_def)
qed

lemma LinkedBuffer_readToFD_correct:
  assumes "lb_inv b" and "lb_nodes b \<noteq> []" and "writev_contract wr"
  shows "\<exists>vs b'. concat vs = lb_content b \<and> LinkedBuffer_readToFD wr b = Some (wr vs, b') \<and>
    lb_inv b' \<and> lb_content b' = drop (nat (wr vs)) (lb_content b) \<and>
    LinkedBuffer_readableSize b' = Some (length (lb_content b'))"
proof -
  obtain nd nds c where b: "lb_nodes b = nd # nds" "c \<le> node_size nd"
    "reader_iter b = \<lparr>node_iter = Some (lb_first b), char_iter = Some c\<rparr>"
    "lb_suffix b (lb_first b) (nd # nds)" "lb_content b = lb_bytes c (nd # nds)"
    using lb_inv_cases [OF assms(1,2)] .
  obtain its vs where v: "lb_node_iters b (reader_iter b) = Some its" "length its = Suc (length nds)"
    "all_some (map (iovec_at b) its) = Some vs" "concat vs = lb_content b"
    using lb_node_iters_suffix [OF b(4,2)] unfolding b(3,5) by blast
  have io: "numReadableNodes b = Some (Suc (length nds))" "toIOVec (Suc (length nds)) b = Some vs"
    using b(1,3) v by (simp_all add: numReadableNodes_def toIOVec_def lb_end_node_def)
  have "nat (wr vs) \<le> length (lb_content b)"
    using writev_contractD [OF assms(3), of vs] v(4) by simp
  then obtain b' where r: "LinkedBuffer_read (nat (wr vs)) b = Some (True, b')" "lb_inv b'"
    "node_iter (reader_iter b') \<noteq> None" "lb_content b' = drop (nat (wr vs)) (lb_content b)"
    using LinkedBuffer_read_correct [OF assms(1,2)] by blast
  have nn: "node_iter (reader_iter b) \<noteq> None" by (simp add: b(3))
  show ?thesis
  proof (cases "wr vs < 0")
    case True
    then show ?thesis
      using io v(4) assms(1) LinkedBuffer_readableSize_correct [OF assms(1) nn]
      by (intro exI [of _ vs] exI [of _ b]) (simp add: LinkedBuffer_readToFD_def)
  next
    case False
    then show ?thesis
      using io v(4) r LinkedBuffer_readableSize_correct [OF r(2,3)]
      by (intro exI [of _ vs] exI [of _ b']) (simp add: LinkedBuffer_readToFD_def)
  qed
qed


section \<open>Appending\<close>

lemma lb_bytes_append:
  "nds \<noteq> [] \<Longrightarrow> c \<le> node_size (hd nds) \<Longrightarrow>
   lb_bytes c (nds @ nds') = lb_bytes c nds @ concat (map node_chars nds')"
  by (cases nds) auto

lemma lb_bytes_last:
  assumes "nds \<noteq> []" and "c \<le> node_size (hd nds)" and "node_chars nd = node_chars (last nds) @ xs"
  shows "lb_bytes c (butlast nds @ [nd]) = lb_bytes c nds @ xs"
proof (cases "butlast nds")
  case Nil
  with assms show ?thesis by (cases nds) (auto split: if_splits)
next
  case (Cons a as)
  then have nds: "nds = a # as @ [last nds]"
    using append_butlast_last_id [OF assms(1)] by simp
  have "lb_bytes c nds = lb_bytes c (a # as @ [last nds])" by (subst nds) simp
  with Cons assms(2,3) show ?thesis by simp
qed

lemma hd_butlast_size:
  "nds \<noteq> [] \<Longrightarrow> node_chars nd = node_chars (last nds) @ xs \<Longrightarrow>
   node_size (hd nds) \<le> node_size (hd (butlast nds @ [nd]))"
  by (cases nds) auto

text \<open>
  The node \<open>append\<close> inserts into has capacity for \<open>kMinNodeSize\<close> bytes and stays below it,
  so the insertion never moves the vector and \<open>reader_iter_\<close> stays valid.
\<close>

lemma insert_never_moves:
  assumes "lb_caps nds" and "nds \<noteq> []" and "node_size (last nds) + length xs < kMinNodeSize"
  shows "\<not> fst (node_insert xs (last nds))"
    "snd (node_insert xs (last nds)) = (last nds)\<lparr>node_chars := node_chars (last nds) @ xs\<rparr>"
proof -
  have "kMinNodeSize \<le> node_capacity (last nds)"
    using assms(1,2) by (simp add: lb_caps_def)
  with assms(3) show "\<not> fst (node_insert xs (last nds))"
    "snd (node_insert xs (last nds)) = (last nds)\<lparr>node_chars := node_chars (last nds) @ xs\<rparr>"
    by (simp_all add: node_insert_def Let_def)
qed

lemma lb_fits_grow:
  assumes "lb_fits n nds it" and "nds \<noteq> []" and "node_size (hd nds) \<le> node_size (hd nds')"
    and "nds' \<noteq> []"
  shows "lb_fits n nds' it"
  using assms by (cases nds; cases nds') (auto simp: lb_fits_def)

lemma LinkedBuffer_append_correct:
  assumes "lb_inv b"
  shows "\<exists>b'. LinkedBuffer_append xs b = Some b' \<and> lb_inv b' \<and>
    lb_content b' = lb_content b @ xs \<and> lb_fits (lb_first b') (lb_nodes b') (reader_iter b') \<and>
    (xs \<noteq> [] \<longrightarrow> nonempty_nodes (lb_nodes b) \<longrightarrow> nonempty_nodes (lb_nodes b'))"
proof (cases "lb_nodes b = []")
  case True
  with assms have "lb_content b = []"
    by (auto simp: lb_content_def split: option.splits)
  with True show ?thesis
    by (auto simp: LinkedBuffer_append_def Let_def addNewNode_def LinkedBuffer_begin_def lb_inv_def
        lb_fits_def lb_content_def lb_caps_def)
next
  case False
  let ?l = "last (lb_nodes b)"
  have caps: "lb_caps (lb_nodes b)" and fits: "lb_fits (lb_first b) (lb_nodes b) (reader_iter b)"
    using assms False by (auto simp: lb_inv_def)
  then obtain c where c: "reader_iter b = \<lparr>node_iter = Some (lb_first b), char_iter = Some c\<rparr>"
    "c \<le> node_size (hd (lb_nodes b))"
    using False by (cases "lb_nodes b") (auto simp: lb_fits_def)
  show ?thesis
  proof (cases "node_size ?l + length xs < kMinNodeSize")
    case True
    let ?nd = "?l\<lparr>node_chars := node_chars ?l @ xs\<rparr>"
    let ?nds = "butlast (lb_nodes b) @ [?nd]"
    have "LinkedBuffer_append xs b = Some (b\<lparr>lb_nodes := ?nds\<rparr>)"
      using False True insert_never_moves [OF caps False True]
      by (simp add: LinkedBuffer_append_def Let_def split_beta)
    moreover have "lb_bytes c ?nds = lb_bytes c (lb_nodes b) @ xs"
      using False c(2) by (intro lb_bytes_last) simp_all
    moreover have "lb_fits (lb_first b) ?nds (reader_iter b)"
      by (rule lb_fits_grow [OF fits False]) (simp_all add: hd_butlast_size [OF False])
    moreover have "lb_caps ?nds"
    proof -
      have "kMinNodeSize \<le> node_capacity ?l"
        using caps False by (simp add: lb_caps_def)
      with caps True show ?thesis by (auto simp: lb_caps_def dest: in_set_butlastD)
    qed
    moreover have "xs \<noteq> [] \<Longrightarrow> nonempty_nodes (lb_nodes b) \<Longrightarrow> nonempty_nodes ?nds"
      by (auto dest: in_set_butlastD)
    ultimately show ?thesis
      using c(1) by (simp add: lb_inv_def lb_content_def)
  next
    case False2: False
    let ?nd = "\<lparr>node_chars = xs, node_capacity = max kMinNodeSize (length xs)\<rparr>"
    have "LinkedBuffer_append xs b = Some (b\<lparr>lb_nodes := lb_nodes b @ [?nd]\<rparr>)"
      using False False2 by (simp add: LinkedBuffer_append_def addNewNode_def Let_def)
    moreover have "lb_fits (lb_first b) (lb_nodes b @ [?nd]) (reader_iter b)"
      using fits False by (cases "lb_nodes b") (auto simp: lb_fits_def)
    moreover have "lb_caps (lb_nodes b @ [?nd])"
      using caps by (auto simp: lb_caps_def)
    ultimately show ?thesis
      using c False by (auto simp: lb_inv_def lb_content_def lb_bytes_append)
  qed
qed


section \<open>The linked buffer meets both contracts\<close>

lemma LinkedBuffer_type_simps [simp]:
  "bt_new LinkedBuffer_type = LinkedBuffer_new"
  "bt_readerIter LinkedBuffer_type = reader_iter"
  "bt_end LinkedBuffer_type = LinkedBuffer_end"
  "bt_deref LinkedBuffer_type = LinkedBufferIter_deref"
  "bt_inc LinkedBuffer_type = LinkedBufferIter_inc"
  "bt_dec LinkedBuffer_type = LinkedBufferIter_dec"
  "bt_plus LinkedBuffer_type = LinkedBufferIter_plus_eq"
  "bt_readUntil LinkedBuffer_type = LinkedBuffer_readUntil"
  "bt_readAll LinkedBuffer_type = LinkedBuffer_readAll"
  "bt_readableSize LinkedBuffer_type = LinkedBuffer_readableSize"
  "bt_append LinkedBuffer_type = LinkedBuffer_append"
  "bt_writeFromFD LinkedBuffer_type = LinkedBuffer_writeFromFD"
  "bt_readToFD LinkedBuffer_type = LinkedBuffer_readToFD"
  by (simp_all add: LinkedBuffer_type_def)

lemma LinkedBuffer_readAll_correct:
  "lb_inv (snd (LinkedBuffer_readAll b))" "lb_nodes (snd (LinkedBuffer_readAll b)) = []"
  "lb_content (snd (LinkedBuffer_readAll b)) = []"
  by (simp_all add: LinkedBuffer_readAll_def lb_inv_def lb_caps_def lb_content_def LinkedBufferIter_new_def)

lemma lb_inv_new: "lb_inv LinkedBuffer_new" "lb_content LinkedBuffer_new = []"
  by (simp_all add: lb_inv_def LinkedBuffer_new_def lb_caps_def lb_content_def LinkedBufferIter_new_def)

text \<open>A ready buffer: the walk that starts at the reader.\<close>

lemma lb_ready_start:
  assumes "lb_ready b"
  obtains c where "lb_suffix b (lb_first b) (lb_nodes b)" "lb_off_ok c (lb_nodes b)"
    "nonempty_nodes (lb_nodes b)" "lb_content b = lb_bytes c (lb_nodes b)"
    "\<And>k. lb_iter_at b k = lb_walk (lb_first b) c (lb_nodes b) k"
    "c \<le> (case lb_nodes b of [] \<Rightarrow> c | nd # _ \<Rightarrow> node_size nd)"
    "reader_iter b = lb_walk (lb_first b) c (lb_nodes b) 0"
proof (cases "lb_nodes b")
  case Nil
  with assms that [of 0] lb_suffix_all [of b] show ?thesis
    by (simp add: lb_ready_def lb_in_inv_def lb_fits_def lb_content_def lb_iter_at_def)
next
  case (Cons nd nds)
  with assms obtain c where c: "reader_iter b = \<lparr>node_iter = Some (lb_first b), char_iter = Some c\<rparr>"
    "c < node_size nd" by (auto simp: lb_ready_def lb_in_inv_def lb_fits_def)
  with assms Cons that [of c] lb_suffix_all [of b] show ?thesis
    by (simp add: lb_ready_def lb_in_inv_def lb_content_def lb_iter_at_def)
qed

lemma lb_position_at:
  assumes "lb_ready b" and "k < length (lb_content b)"
  obtains n' c' nd' nds' where "lb_suffix b n' (nd' # nds')" "c' < node_size nd'"
    "nonempty_nodes (nd' # nds')" "lb_iter_at b k = \<lparr>node_iter = Some n', char_iter = Some c'\<rparr>"
    "lb_bytes c' (nd' # nds') = drop k (lb_content b)"
    "\<And>m. lb_walk n' c' (nd' # nds') m = lb_iter_at b (k + m)" "lb_first b \<le> n'"
proof -
  obtain c where c: "lb_suffix b (lb_first b) (lb_nodes b)" "lb_off_ok c (lb_nodes b)"
    "nonempty_nodes (lb_nodes b)" "lb_content b = lb_bytes c (lb_nodes b)"
    "\<And>k. lb_iter_at b k = lb_walk (lb_first b) c (lb_nodes b) k"
    using lb_ready_start [OF assms(1)] by metis
  show ?thesis
    by (rule lb_walk_position [OF c(1-3), of k]) (use assms(2) that in \<open>simp_all only: c(4,5)\<close>)
qed

lemma lb_iter_at_end:
  assumes "lb_ready b"
  shows "lb_iter_at b (length (lb_content b)) = LinkedBuffer_end b"
proof (rule lb_ready_start [OF assms])
  fix c
  assume "lb_content b = lb_bytes c (lb_nodes b)" "\<And>k. lb_iter_at b k = lb_walk (lb_first b) c (lb_nodes b) k"
    "c \<le> (case lb_nodes b of [] \<Rightarrow> c | nd # _ \<Rightarrow> node_size nd)"
  then show ?thesis
    using lb_walk_end by (simp add: LinkedBuffer_end_def lb_end_node_def)
qed

lemma lb_iter_at_inj:
  assumes "lb_ready b" "k \<le> length (lb_content b)" "m \<le> length (lb_content b)"
    "lb_iter_at b k = lb_iter_at b m"
  shows "k = m"
  by (rule lb_ready_start [OF assms(1)], rule lb_walk_inj) (use assms(2-4) in \<open>simp_all only:\<close>)

lemma lb_deref_at:
  "lb_ready b \<Longrightarrow> k < length (lb_content b) \<Longrightarrow>
   LinkedBufferIter_deref b (lb_iter_at b k) = Some (lb_content b ! k)"
  by (erule (1) lb_position_at) (simp only: deref_position, simp)

lemma lb_inc_at:
  "lb_ready b \<Longrightarrow> k < length (lb_content b) \<Longrightarrow>
   LinkedBufferIter_inc b (lb_iter_at b k) = Some (lb_iter_at b (Suc k))"
  by (erule (1) lb_position_at) (simp only: inc_position, simp)

lemma lb_plus_at:
  assumes "lb_ready b" "k < length (lb_content b)" "k + n \<le> length (lb_content b)"
  shows "LinkedBufferIter_plus_eq b (lb_iter_at b k) (int n) = Some (lb_iter_at b (k + n))"
proof (rule lb_position_at [OF assms(1,2)])
  fix n' c' nd' nds'
  assume p: "lb_suffix b n' (nd' # nds')" "c' < node_size nd'" "nonempty_nodes (nd' # nds')"
    "lb_iter_at b k = \<lparr>node_iter = Some n', char_iter = Some c'\<rparr>"
    "lb_bytes c' (nd' # nds') = drop k (lb_content b)"
    "\<And>m. lb_walk n' c' (nd' # nds') m = lb_iter_at b (k + m)"
  have "n \<le> length (lb_bytes c' (nd' # nds'))"
    unfolding p(5) using assms(3) by simp
  from forward_position [OF p(1-3) this] show ?thesis
    unfolding LinkedBufferIter_plus_eq_def p(4) p(6) by simp
qed

lemma lb_no_backward_range:
  assumes "lb_ready b" and "m < k" and "k \<le> length (lb_content b)"
  shows "it_range LinkedBuffer_type b (lb_iter_at b k) (lb_iter_at b m) = None"
  using assms(2,3)
proof (induction "length (lb_content b) - k" arbitrary: k)
  case 0
  then have k: "lb_iter_at b k = LinkedBuffer_end b"
    using lb_iter_at_end [OF assms(1)] by simp
  have "lb_iter_at b k \<noteq> lb_iter_at b m"
    using lb_iter_at_inj [OF assms(1), of k m] 0 by auto
  then show ?case
    unfolding k by (subst it_range.simps) (simp add: LinkedBuffer_end_def deref_end_node)
next
  case (Suc d)
  then have lt: "k < length (lb_content b)" by simp
  have "lb_iter_at b k \<noteq> lb_iter_at b m"
    using lb_iter_at_inj [OF assms(1), of k m] Suc by auto
  moreover have "it_range LinkedBuffer_type b (lb_iter_at b (Suc k)) (lb_iter_at b m) = None"
    using Suc by simp
  ultimately show ?case
    using lb_deref_at [OF assms(1) lt] lb_inc_at [OF assms(1) lt]
    by (simp add: it_range.simps [of _ b "lb_iter_at b k"])
qed


lemma lb_walk_not_before:
  assumes "lb_off_ok c nds"
  shows "LinkedBufferIter_less (lb_walk n c nds k) (lb_walk n c nds 0) = Some False"
proof (cases nds)
  case Nil
  then show ?thesis by (simp add: LinkedBufferIter_less_def char_iter_diff_def)
next
  case (Cons nd nds')
  obtain n' c' where "lb_walk (Suc n) 0 nds' (k - (node_size nd - c)) = \<lparr>node_iter = Some n', char_iter = c'\<rparr>"
    "Suc n \<le> n'" using lb_walk_node by blast
  with assms Cons show ?thesis
    by (auto simp: LinkedBufferIter_less_def char_iter_diff_def)
qed

lemma lb_readUntil_inv:
  assumes "lb_inv b" and "lb_suffix b n nds" and "lb_fits n nds it"
    and "LinkedBufferIter_less it (reader_iter b) = Some False"
  shows "\<exists>b'. LinkedBuffer_readUntil it b = Some (True, b') \<and> lb_inv b'"
proof -
  have "node_iter it = Some n" using assms(3) by (auto simp: lb_fits_def split: list.splits)
  moreover have "lb_caps nds" using assms(1) lb_suffix_caps [OF assms(2)] by (simp add: lb_inv_def)
  ultimately show ?thesis
    using assms(3,4) freeNodesBefore_suffix [OF assms(2)] by (simp add: LinkedBuffer_readUntil_def lb_inv_def)
qed

lemma lb_readUntil_suffix:
  assumes "lb_ready b" and "lb_suffix b n nds" and "lb_fits n nds it"
    and "LinkedBufferIter_less it (reader_iter b) = Some False"
  shows "\<exists>b'. LinkedBuffer_readUntil it b = Some (True, b') \<and> lb_ready b' \<and>
    lb_content b' = (case char_iter it of None \<Rightarrow> [] | Some d \<Rightarrow> lb_bytes d nds)"
proof -
  have "node_iter it = Some n"
    using assms(3) by (auto simp: lb_fits_def split: list.splits)
  moreover have "lb_caps nds" "nonempty_nodes nds"
    using assms(1) lb_suffix_caps [OF assms(2)] lb_suffix_nonempty [OF assms(2)]
    by (simp_all add: lb_ready_def lb_in_inv_def lb_inv_def)
  ultimately show ?thesis
    using assms(3,4) freeNodesBefore_suffix [OF assms(2)]
    by (simp add: LinkedBuffer_readUntil_def lb_ready_def lb_in_inv_def lb_inv_def)
qed

lemma lb_readUntil_at:
  assumes "lb_ready b" and "k \<le> length (lb_content b)"
  shows "\<exists>b'. LinkedBuffer_readUntil (lb_iter_at b k) b = Some (True, b') \<and> lb_ready b' \<and>
    lb_content b' = drop k (lb_content b)"
proof -
  have less: "LinkedBufferIter_less (lb_iter_at b k) (reader_iter b) = Some False"
    by (rule lb_ready_start [OF assms(1)]) (simp only: lb_walk_not_before)
  show ?thesis
  proof (cases "k < length (lb_content b)")
    case True
    obtain n' c' nd' nds' where p: "lb_suffix b n' (nd' # nds')" "c' < node_size nd'"
      "lb_iter_at b k = \<lparr>node_iter = Some n', char_iter = Some c'\<rparr>"
      "lb_bytes c' (nd' # nds') = drop k (lb_content b)"
      using lb_position_at [OF assms(1) True] by metis
    have "lb_fits n' (nd' # nds') (lb_iter_at b k)"
      using p(2,3) by (simp add: lb_fits_def)
    from lb_readUntil_suffix [OF assms(1) p(1) this less] show ?thesis
      by (simp add: p(3) p(4) [symmetric])
  next
    case False
    then have k: "lb_iter_at b k = \<lparr>node_iter = Some (lb_end_node b), char_iter = None\<rparr>"
      using assms lb_iter_at_end [OF assms(1)] by (simp add: LinkedBuffer_end_def)
    then have "lb_fits (lb_end_node b) [] (lb_iter_at b k)"
      by (simp add: lb_fits_def)
    from lb_readUntil_suffix [OF assms(1) _ this less] False show ?thesis
      by (simp add: lb_suffix_end k)
  qed
qed

lemma LinkedBuffer_writeFromFD_correct:
  assumes "lb_in_inv b" and "rd [LinkedBuffer_kTmpBuffSize] = SysBytes bs" and "length bs \<le> LinkedBuffer_kTmpBuffSize"
  shows "\<exists>b'. LinkedBuffer_writeFromFD rd b = Some (int (length bs), b') \<and>
    (if bs = [] then lb_in_inv b' \<and> lb_content b' = lb_content b
     else lb_ready b' \<and> lb_content b' = lb_content b @ bs)"
proof -
  obtain b' where "LinkedBuffer_append bs b = Some b'" "lb_inv b'"
    "lb_content b' = lb_content b @ bs" "lb_fits (lb_first b') (lb_nodes b') (reader_iter b')"
    "bs \<noteq> [] \<longrightarrow> nonempty_nodes (lb_nodes b) \<longrightarrow> nonempty_nodes (lb_nodes b')"
    using LinkedBuffer_append_correct [of b bs] assms(1) unfolding lb_in_inv_def by blast
  with assms show ?thesis
    by (auto simp: LinkedBuffer_writeFromFD_def lb_ready_def lb_in_inv_def)
qed

lemma LinkedBuffer_writeFromFD_spec:
  assumes "lb_in_inv b" and "readv_contract rd"
  shows "\<exists>lens. kReadSize \<le> sum_list lens \<and>
    (case rd lens of
       SysErr \<Rightarrow> LinkedBuffer_writeFromFD rd b = Some (- 1, b)
     | SysBytes bs \<Rightarrow> \<exists>b'. LinkedBuffer_writeFromFD rd b = Some (int (length bs), b') \<and>
         (if bs = [] then lb_in_inv b' \<and> lb_content b' = lb_content b
          else lb_ready b' \<and> lb_content b' = lb_content b @ bs))"
proof (rule exI [of _ "[LinkedBuffer_kTmpBuffSize]"], intro conjI)
  show "case rd [LinkedBuffer_kTmpBuffSize] of
       SysErr \<Rightarrow> LinkedBuffer_writeFromFD rd b = Some (- 1, b)
     | SysBytes bs \<Rightarrow> \<exists>b'. LinkedBuffer_writeFromFD rd b = Some (int (length bs), b') \<and>
         (if bs = [] then lb_in_inv b' \<and> lb_content b' = lb_content b
          else lb_ready b' \<and> lb_content b' = lb_content b @ bs)"
  proof (cases "rd [LinkedBuffer_kTmpBuffSize]")
    case (SysBytes bs)
    then have "length bs \<le> LinkedBuffer_kTmpBuffSize" using readv_contractD [OF assms(2) SysBytes] by simp
    with LinkedBuffer_writeFromFD_correct [where rd = rd, OF assms(1) SysBytes] SysBytes show ?thesis by simp
  qed (simp add: LinkedBuffer_writeFromFD_def)
qed (simp add: LinkedBuffer_kTmpBuffSize_def kReadSize_def)

interpretation linked_in: in_buffer LinkedBuffer_type lb_in_inv lb_ready lb_content lb_iter_at
proof unfold_locales
  fix b rd
  assume "lb_in_inv b" "readv_contract rd"
  then show "\<exists>lens. kReadSize \<le> sum_list lens \<and>
    (case rd lens of
       SysErr \<Rightarrow> bt_writeFromFD LinkedBuffer_type rd b = Some (- 1, b)
     | SysBytes bs \<Rightarrow> \<exists>b'. bt_writeFromFD LinkedBuffer_type rd b = Some (int (length bs), b') \<and>
         (if bs = [] then lb_in_inv b' \<and> lb_content b' = lb_content b
          else lb_ready b' \<and> lb_content b' = lb_content b @ bs))"
    unfolding LinkedBuffer_type_simps by (rule LinkedBuffer_writeFromFD_spec)
next
  fix b
  assume "lb_ready b"
  then show "bt_readerIter LinkedBuffer_type b = lb_iter_at b 0"
    by (rule lb_ready_start) simp
qed (simp_all add: lb_inv_new lb_in_inv_def LinkedBuffer_readAll_correct lb_iter_at_end lb_deref_at lb_inc_at lb_plus_at
    lb_no_backward_range lb_readUntil_at,
    simp_all add: LinkedBuffer_new_def lb_ready_def lb_in_inv_def lb_iter_at_inj)

interpretation linked_out: out_buffer LinkedBuffer_type lb_inv lb_content
proof unfold_locales
  fix b xs
  assume "lb_inv b"
  then show "\<exists>b'. bt_append LinkedBuffer_type xs b = Some b' \<and> lb_inv b' \<and>
      lb_content b' = lb_content b @ xs"
    unfolding LinkedBuffer_type_simps using LinkedBuffer_append_correct by blast
next
  fix b wr
  assume "lb_inv b" "lb_content b \<noteq> []" "writev_contract wr"
  then show "\<exists>vs b'. concat vs = lb_content b \<and> bt_readToFD LinkedBuffer_type wr b = Some (wr vs, b') \<and>
      lb_inv b' \<and> lb_content b' = drop (nat (wr vs)) (lb_content b) \<and>
      bt_readableSize LinkedBuffer_type b' = Some (length (lb_content b'))"
    unfolding LinkedBuffer_type_simps by (intro LinkedBuffer_readToFD_correct lb_content_nodes)
qed (simp_all add: lb_inv_new)

section \<open>Comparing and moving back\<close>

text \<open>
  The comparisons agree with positions in the byte stream, \<open>end()\<close> included. Moving back by one byte undoes moving
  forward by one, except from \<open>end()\<close>: there \<open>operator--\<close> looks at the node behind the last one.
\<close>

lemma lb_walk_less:
  "k < m \<Longrightarrow> m \<le> length (lb_bytes c nds) \<Longrightarrow> lb_off_ok c nds \<Longrightarrow> nonempty_nodes nds \<Longrightarrow>
   LinkedBufferIter_less (lb_walk n c nds k) (lb_walk n c nds m) = Some True \<and>
   LinkedBufferIter_less (lb_walk n c nds m) (lb_walk n c nds k) = Some False"
proof (induction nds arbitrary: n c k m)
  case (Cons nd nds)
  show ?case
  proof (cases "c + k < node_size nd")
    case True
    obtain n' c' where w: "lb_walk (Suc n) 0 nds (m - (node_size nd - c)) = \<lparr>node_iter = Some n', char_iter = c'\<rparr>" "Suc n \<le> n'"
      using lb_walk_node by blast
    with True Cons.prems(1) show ?thesis
      by (cases "c + m < node_size nd") (auto simp: LinkedBufferIter_less_def char_iter_diff_def)
  next
    case False
    then have lt: "k - (node_size nd - c) < m - (node_size nd - c)" using Cons.prems(1) by linarith
    moreover have "m - (node_size nd - c) \<le> length (lb_bytes 0 nds)"
      using Cons.prems(2) by (cases nds) auto
    moreover have "lb_off_ok 0 nds" using Cons.prems(4) by (cases nds) auto
    moreover have "\<not> c + m < node_size nd" using False Cons.prems(1) by linarith
    ultimately show ?thesis using Cons.IH [of _ _ 0 "Suc n"] Cons.prems(4) False by simp
  qed
qed simp

lemma LinkedBufferIter_less_refl: "LinkedBufferIter_less (lb_walk n c nds k) (lb_walk n c nds k) = Some False"
proof -
  obtain n' c' where "lb_walk n c nds k = \<lparr>node_iter = Some n', char_iter = c'\<rparr>" using lb_walk_node by blast
  then show ?thesis by (cases c') (simp_all add: LinkedBufferIter_less_def char_iter_diff_def)
qed

lemma LinkedBufferIter_greater_less: "LinkedBufferIter_greater lhs rhs = LinkedBufferIter_less rhs lhs"
  by (cases "node_iter lhs"; cases "node_iter rhs"; cases "char_iter lhs"; cases "char_iter rhs")
    (auto simp: LinkedBufferIter_greater_def LinkedBufferIter_less_def char_iter_diff_def)

lemma LinkedBufferIter_less_at:
  assumes "lb_ready b" and "k \<le> length (lb_content b)" and "m \<le> length (lb_content b)"
  shows "LinkedBufferIter_less (lb_iter_at b k) (lb_iter_at b m) = Some (k < m)"
proof (rule lb_ready_start [OF assms(1)])
  fix c
  assume "lb_off_ok c (lb_nodes b)" "nonempty_nodes (lb_nodes b)" "lb_content b = lb_bytes c (lb_nodes b)"
    "\<And>k. lb_iter_at b k = lb_walk (lb_first b) c (lb_nodes b) k"
  with lb_walk_less [of k m c "lb_nodes b"] lb_walk_less [of m k c "lb_nodes b"] LinkedBufferIter_less_refl assms(2,3)
  show ?thesis by (cases k m rule: linorder_cases) simp_all
qed

lemma LinkedBufferIter_order:
  assumes "lb_ready b" and "k \<le> length (lb_content b)" and "m \<le> length (lb_content b)"
  shows "LinkedBufferIter_le (lb_iter_at b k) (lb_iter_at b m) = Some (k \<le> m)"
    and "LinkedBufferIter_greater (lb_iter_at b k) (lb_iter_at b m) = Some (k > m)"
    and "LinkedBufferIter_ge (lb_iter_at b k) (lb_iter_at b m) = Some (k \<ge> m)"
  using LinkedBufferIter_less_at [OF assms] LinkedBufferIter_less_at [OF assms(1,3,2)]
    linked_in.iter_at_eq [OF assms]
  by (auto simp: LinkedBufferIter_le_def LinkedBufferIter_ge_def LinkedBufferIter_greater_less)

lemma LinkedBufferIter_dec_at:
  assumes "lb_ready b" and "Suc k < length (lb_content b)"
  shows "LinkedBufferIter_dec b (lb_iter_at b (Suc k)) = Some (lb_iter_at b k)"
proof -
  have k: "k < length (lb_content b)" using assms(2) by simp
  show ?thesis
  proof (rule lb_position_at [OF assms(1) k])
    fix n' c' nd' nds'
    assume p: "lb_suffix b n' (nd' # nds')" "c' < node_size nd'" "nonempty_nodes (nd' # nds')"
      "lb_iter_at b k = \<lparr>node_iter = Some n', char_iter = Some c'\<rparr>" "lb_bytes c' (nd' # nds') = drop k (lb_content b)"
      "\<And>m. lb_walk n' c' (nd' # nds') m = lb_iter_at b (k + m)"
    note sfx = lb_suffix_ConsD [OF p(1)]
    have at: "lb_iter_at b (Suc k) = lb_walk n' c' (nd' # nds') 1" using p(6) [of 1] by simp
    have len: "1 < length (lb_bytes c' (nd' # nds'))" using p(5) assms(2) by simp
    show ?thesis
    proof (cases "Suc c' < node_size nd'")
      case True
      with at sfx(1) p(4) show ?thesis by (simp add: LinkedBufferIter_dec_def lb_advance_def)
    next
      case False
      with p(2) len have "nds' \<noteq> []" by auto
      then obtain nd2 nds2 where n2: "nds' = nd2 # nds2" by (cases nds') auto
      have c: "c' = node_size nd' - 1" "0 < node_size nd2" "node_chars nd' \<noteq> []" using False p(2,3) n2 by auto
      have s2: "lb_node_at b (Suc n') = Some nd2" "Suc n' < lb_end_node b"
        using lb_suffix_ConsD [of b "Suc n'" nd2 nds2] sfx(2) n2 by simp_all
      have "lb_iter_at b (Suc k) = \<lparr>node_iter = Some (Suc n'), char_iter = Some 0\<rparr>"
        using at False p(2) n2 c by simp
      with s2 sfx p(2,4) c show ?thesis by (simp add: LinkedBufferIter_dec_def toLastCharOfPrevNode_def)
    qed
  qed
qed

lemma LinkedBufferIter_round_trip:
  assumes "lb_ready b" and "Suc k < length (lb_content b)"
  shows "LinkedBufferIter_post_inc b (lb_iter_at b k) = Some (lb_iter_at b k, lb_iter_at b (Suc k))"
    and "LinkedBufferIter_post_dec b (lb_iter_at b (Suc k)) = Some (lb_iter_at b (Suc k), lb_iter_at b k)"
  using assms by (simp_all add: LinkedBufferIter_post_inc_def LinkedBufferIter_post_dec_def lb_inc_at LinkedBufferIter_dec_at)

lemma LinkedBufferIter_dec_end: "LinkedBufferIter_dec b (LinkedBuffer_end b) = None"
  by (cases "lb_node_at b (lb_end_node b)") (simp_all add: LinkedBufferIter_dec_def LinkedBuffer_end_def)

section \<open>Properties\<close>

lemma append_keeps_reader:
  assumes "lb_caps (lb_nodes b)" and "lb_nodes b \<noteq> []" and "LinkedBuffer_append xs b = Some b'"
  shows "reader_iter b' = reader_iter b"
  using assms insert_never_moves [OF assms(1,2), of xs]
  by (auto simp: LinkedBuffer_append_def addNewNode_def Let_def split_beta split: if_splits)

text \<open>
  \<open>append\<close> keeps the stream and never moves the characters under the reader. The
  capacity reserved for a node is what makes this true: the vector \<open>append\<close> inserts into
  stays within \<open>kMinNodeSize\<close> bytes, so the reader iterator, which points into it, keeps
  pointing at the same unread byte.
\<close>

theorem LinkedBuffer_append_stream:
  assumes "lb_inv b"
  shows "\<exists>b'. LinkedBuffer_append xs b = Some b' \<and> lb_inv b' \<and> lb_content b' = lb_content b @ xs \<and>
    (lb_nodes b \<noteq> [] \<longrightarrow> reader_iter b' = reader_iter b)"
proof -
  have "lb_caps (lb_nodes b)" using assms by (simp add: lb_inv_def)
  with LinkedBuffer_append_correct [OF assms] append_keeps_reader show ?thesis by blast
qed

text \<open>A buffer of two nodes, with the reader in the middle of the first.\<close>

definition wit_two_nodes :: linked_buffer where
  "wit_two_nodes =
     \<lparr>lb_nodes = [\<lparr>node_chars = ''abcd'', node_capacity = 1024\<rparr>, \<lparr>node_chars = ''efg'', node_capacity = 1024\<rparr>],
      lb_first = 3, reader_iter = \<lparr>node_iter = Some 3, char_iter = Some 1\<rparr>\<rparr>"

lemma wit_two_nodes_ok:
  "lb_inv wit_two_nodes" "lb_ready wit_two_nodes" "lb_content wit_two_nodes = ''bcdefg''"
  by (simp_all add: wit_two_nodes_def lb_ready_def lb_in_inv_def lb_inv_def lb_caps_def kMinNodeSize_def
      lb_fits_def lb_content_def)

theorem LinkedBuffer_append_stream_witness:
  "\<exists>b'. LinkedBuffer_append ''hi'' wit_two_nodes = Some b' \<and> lb_content b' = ''bcdefghi'' \<and>
     reader_iter b' = reader_iter wit_two_nodes"
  using LinkedBuffer_append_stream [OF wit_two_nodes_ok(1), of "''hi''"]
  by (auto simp: wit_two_nodes_ok(3)) (simp add: wit_two_nodes_def)

text \<open>
  \<open>readToFD\<close> gathers the readable part of every node into one \<open>writev\<close>, in order,
  drops exactly the bytes the kernel took, across node boundaries, and leaves a buffer
  whose \<open>readableSize\<close> is what is left.
\<close>

theorem LinkedBuffer_readToFD_stream:
  assumes "lb_inv b" and "lb_content b \<noteq> []" and "writev_contract wr"
  shows "\<exists>vs b'. concat vs = lb_content b \<and> LinkedBuffer_readToFD wr b = Some (wr vs, b') \<and>
    lb_inv b' \<and> lb_content b' = drop (nat (wr vs)) (lb_content b) \<and>
    LinkedBuffer_readableSize b' = Some (length (lb_content b'))"
  using assms by (intro LinkedBuffer_readToFD_correct lb_content_nodes)

theorem LinkedBuffer_readToFD_stream_witness:
  "\<exists>b'. LinkedBuffer_readToFD (\<lambda>vs. min 5 (int (length (concat vs)))) wit_two_nodes = Some (5, b') \<and>
     lb_content b' = ''g''"
proof -
  have "writev_contract (\<lambda>vs. min 5 (int (length (concat vs))))"
    by (simp add: writev_contract_def)
  from LinkedBuffer_readToFD_stream [OF wit_two_nodes_ok(1) _ this] show ?thesis
    by (auto simp: wit_two_nodes_ok(3))
qed

text \<open>
  Moving an iterator forward and measuring a distance agree with positions in the
  byte stream. From any unread byte, \<open>+= n\<close> reaches the byte \<open>n\<close> positions further, node
  boundaries included, and subtracting the start from the place reached gives \<open>n\<close> back.
\<close>

theorem LinkedBufferIter_forward_distance:
  assumes "lb_ready b" and "k < length (lb_content b)" and "k + n \<le> length (lb_content b)"
  shows "\<exists>it. LinkedBufferIter_plus_eq b (lb_iter_at b k) (int n) = Some it \<and> it = lb_iter_at b (k + n) \<and>
    LinkedBufferIter_diff b it (lb_iter_at b k) = Some (int n) \<and>
    (k + n < length (lb_content b) \<longrightarrow> LinkedBufferIter_deref b it = Some (lb_content b ! (k + n)))"
proof -
  obtain n' c' nd' nds' where p: "lb_suffix b n' (nd' # nds')" "c' < node_size nd'" "nonempty_nodes (nd' # nds')"
    "lb_iter_at b k = \<lparr>node_iter = Some n', char_iter = Some c'\<rparr>"
    "lb_bytes c' (nd' # nds') = drop k (lb_content b)"
    "\<And>m. lb_walk n' c' (nd' # nds') m = lb_iter_at b (k + m)"
    using lb_position_at [OF assms(1,2)] by metis
  have "n \<le> length (lb_bytes c' (nd' # nds'))"
    unfolding p(5) using assms(3) by simp
  from sum_position [OF p(1-3) this]
  have sum: "lb_sum_to charDistanceToEndOfNode b (lb_iter_at b k) (lb_iter_at b (k + n)) = Some (int n)"
    by (simp only: p(4,6))
  have "LinkedBufferIter_less (lb_walk n' c' (nd' # nds') n) (lb_walk n' c' (nd' # nds') 0) = Some False"
    using p(2) by (intro lb_walk_not_before) simp
  then have "LinkedBufferIter_less (lb_iter_at b (k + n)) (lb_iter_at b k) = Some False"
    by (simp only: p(6) add_0_right)
  with sum lb_plus_at [OF assms] lb_deref_at [OF assms(1), of "k + n"] show ?thesis
    by (simp add: LinkedBufferIter_diff_def)
qed

theorem LinkedBufferIter_forward_distance_witness:
  "\<exists>it. LinkedBufferIter_plus_eq wit_two_nodes (lb_iter_at wit_two_nodes 1) 3 = Some it \<and>
    LinkedBufferIter_diff wit_two_nodes it (lb_iter_at wit_two_nodes 1) = Some 3 \<and>
    LinkedBufferIter_deref wit_two_nodes it = Some (CHR ''f'')"
  using LinkedBufferIter_forward_distance [OF wit_two_nodes_ok(2), of 1 3] by (simp add: wit_two_nodes_ok(3))

text \<open>
  Moving an iterator backward moves it forward. For \<open>n > 0\<close>, \<open>-= n\<close> reaches the
  backward loop of \<open>+=\<close> with a negative count, which every distance exceeds, and advances
  by \<open>n\<close> inside the node; past the end of the node it is undefined. No step is taken
  towards the start, and the previous node is never entered.
\<close>

theorem LinkedBufferIter_minus_moves_forward:
  assumes "0 < n" and "lb_node_at b i = Some nd" and "c < node_size nd"
  shows "LinkedBufferIter_minus_eq b \<lparr>node_iter = Some i, char_iter = Some c\<rparr> (int n) =
    (if c + n \<le> node_size nd then Some \<lparr>node_iter = Some i, char_iter = Some (c + n)\<rparr> else None)"
  using assms
  by (simp add: LinkedBufferIter_minus_eq_def LinkedBufferIter_plus_eq_def lb_backward.simps [of b _ "- int n"]
      charDistanceToStartOfNode_def lb_advance_def nat_add_distrib)

theorem LinkedBufferIter_minus_moves_forward_witness:
  "LinkedBufferIter_minus_eq wit_two_nodes \<lparr>node_iter = Some 3, char_iter = Some 1\<rparr> 1 =
     Some \<lparr>node_iter = Some 3, char_iter = Some 2\<rparr>"
  using LinkedBufferIter_minus_moves_forward [of 1 wit_two_nodes 3 "\<lparr>node_chars = ''abcd'', node_capacity = 1024\<rparr>" 1]
  by (simp add: wit_two_nodes_def lb_node_at_def lb_end_node_def)

text \<open>
  The distance to a later iterator counts, for every node it leaves, the characters before
  the position and not those behind it: from the second byte of the two-node buffer to its
  fifth the code gives 2 and not 3 as the absolute distance.
\<close>

lemma LinkedBufferIter_diff_backward_wrong:
  "LinkedBufferIter_diff wit_two_nodes (lb_iter_at wit_two_nodes 0) (lb_iter_at wit_two_nodes 3) = Some (- 2)"
  by (simp add: LinkedBufferIter_diff_def LinkedBufferIter_less_def lb_iter_at_def wit_two_nodes_def
      lb_sum_to.simps charDistanceToStartOfNode_def lb_node_at_def lb_end_node_def toFirstCharOfNextNode_def
      char_iter_diff_def)

end
