(* ===== verification/Tcp_Connection.thy ===== *)
theory Tcp_Connection
  imports Byte_Buffer Channel Buffer Linked_Buffer
begin

text \<open>
  \<open>net::TCPConnection\<close> (\<open>srcs/net/connection/tcp_connection.h\<close>, \<open>tcp_connection.cc\<close>),
  generic in the buffer type as the class template is: the status machine of a connection,
  its two buffers, and what its methods ask of the event loop and of the kernel.

  The calls the methods make of \<open>io_loop_\<close>, of \<open>sysw::shutdown\<close>, of \<open>closeCallback_\<close> and
  the results of the writes are recorded in \<open>conn_trace\<close>, in order; the code never reads
  it. The result of the kernel calls of one method is a parameter (\<open>io_env\<close>), together
  with the build mode and whether the method runs in its loop's thread. The context of
  the connection (\<open>boost::any\<close>) has the type \<open>'c\<close>, the state of the server that the read
  callback shares between connections the type \<open>'w\<close>. Log output is left out, as are the two
  socket addresses, which the methods only log.
\<close>

section \<open>State\<close>

datatype conn_status = kConnecting | kConnected | kDisconnecting | kDisconnected

datatype conn_action =
    PollAdd events | PollUpdate events | PollRemove
  | Written int | ShutdownWr | CloseCallback

record ('b, 'c) tcp_connection =
  conn_channel :: channel
  conn_name :: string
  conn_status :: conn_status
  conn_in :: 'b
  conn_out :: 'b
  conn_context :: "'c option"
  conn_trace :: "conn_action list"

record io_env =
  io_ndebug :: bool
  io_in_loop :: bool
  io_readv :: sys_readv
  io_writev :: sys_writev

type_synonym ('w, 'b, 'c) read_callback =
  "'w \<Rightarrow> ('b, 'c) tcp_connection \<Rightarrow> ('w \<times> ('b, 'c) tcp_connection) option"

definition emit :: "conn_action \<Rightarrow> ('b, 'c) tcp_connection \<Rightarrow> ('b, 'c) tcp_connection" where
  "emit act c = c\<lparr>conn_trace := conn_trace c @ [act]\<rparr>"

section \<open>Methods\<close>

definition TCPConnection_new :: "('b, 'i) buffer_type \<Rightarrow> int \<Rightarrow> string \<Rightarrow> ('b, 'c) tcp_connection" where
  "TCPConnection_new C fd name =
     \<lparr>conn_channel = Channel_new fd, conn_name = name, conn_status = kConnecting,
      conn_in = bt_new C, conn_out = bt_new C, conn_context = None, conn_trace = []\<rparr>"

definition setContext :: "'c \<Rightarrow> ('b, 'c) tcp_connection \<Rightarrow> ('b, 'c) tcp_connection" where
  "setContext ctx c = c\<lparr>conn_context := Some ctx\<rparr>"

definition handleCreate ::
  "io_env \<Rightarrow> (('b, 'c) tcp_connection \<Rightarrow> ('b, 'c) tcp_connection option) \<Rightarrow>
   ('b, 'c) tcp_connection \<Rightarrow> ('b, 'c) tcp_connection option" where
  "handleCreate e on_create c =
     do {
       cpp_assert (io_ndebug e) (conn_status c = kConnecting);
       let c1 = c\<lparr>conn_channel := enableReading (conn_channel c)\<rparr>;
       let c2 = emit (PollAdd (events_type (conn_channel c1))) c1;
       on_create (c2\<lparr>conn_status := kConnected\<rparr>)
     }"

definition handleClose :: "('b, 'c) tcp_connection \<Rightarrow> ('b, 'c) tcp_connection" where
  "handleClose c =
     (if conn_status c \<noteq> kDisconnected
      then emit CloseCallback ((emit PollRemove c)\<lparr>conn_status := kDisconnected\<rparr>)
      else c)"

definition handleError :: "('b, 'c) tcp_connection \<Rightarrow> ('b, 'c) tcp_connection" where
  "handleError c = handleClose c"

definition handleRead ::
  "('b, 'i) buffer_type \<Rightarrow> io_env \<Rightarrow> ('w, 'b, 'c) read_callback \<Rightarrow>
   'w \<Rightarrow> ('b, 'c) tcp_connection \<Rightarrow> ('w \<times> ('b, 'c) tcp_connection) option" where
  "handleRead C e on_read w c =
     (if conn_status c = kConnected \<or> conn_status c = kDisconnecting then do {
        (n, b) \<leftarrow> bt_writeFromFD C (io_readv e) (conn_in c);
        let c1 = c\<lparr>conn_in := b\<rparr>;
        if n > 0 then on_read w c1
        else if n = 0 then Some (w, handleClose c1)
        else Some (w, handleError c1)
      }
      else Some (w, c))"

definition shutdown :: "io_env \<Rightarrow> ('b, 'c) tcp_connection \<Rightarrow> ('b, 'c) tcp_connection option" where
  "shutdown e c =
     do {
       cpp_assert (io_ndebug e) (io_in_loop e);
       if conn_status c = kDisconnected then Some c
       else (let c1 = c\<lparr>conn_status := kDisconnecting\<rparr> in
             Some (if \<not> isWriting (conn_channel c1) then emit ShutdownWr c1 else c1))
     }"

definition handleWrite ::
  "('b, 'i) buffer_type \<Rightarrow> io_env \<Rightarrow> ('b, 'c) tcp_connection \<Rightarrow> ('b, 'c) tcp_connection option" where
  "handleWrite C e c =
     do {
       cpp_assert (io_ndebug e) (conn_status c = kConnected);
       (n, b) \<leftarrow> bt_readToFD C (io_writev e) (conn_out c);
       let c1 = emit (Written n) (c\<lparr>conn_out := b\<rparr>);
       if n < 0 then Some (handleError c1)
       else do {
         sz \<leftarrow> bt_readableSize C (conn_out c1);
         if sz = 0 then
           (let c2 = c1\<lparr>conn_channel := disableWriting (conn_channel c1)\<rparr>;
                c3 = emit (PollUpdate (events_type (conn_channel c2))) c2 in
            if conn_status c3 = kDisconnecting then shutdown e c3 else Some c3)
         else Some c1
       }
     }"

definition send ::
  "('b, 'i) buffer_type \<Rightarrow> io_env \<Rightarrow> ('b \<Rightarrow> 'b option) \<Rightarrow>
   ('b, 'c) tcp_connection \<Rightarrow> ('b, 'c) tcp_connection option" where
  "send C e cb c =
     do {
       cpp_assert (io_ndebug e) (io_in_loop e);
       b \<leftarrow> cb (conn_out c);
       let c1 = c\<lparr>conn_out := b\<rparr>;
       if \<not> isWriting (conn_channel c1) then do {
         (n, b') \<leftarrow> bt_readToFD C (io_writev e) (conn_out c1);
         let c2 = emit (Written n) (c1\<lparr>conn_out := b'\<rparr>);
         if n < 0 then Some (handleError c2)
         else do {
           sz \<leftarrow> bt_readableSize C (conn_out c2);
           if sz > 0 then
             (let c3 = c2\<lparr>conn_channel := enableWriting (conn_channel c2)\<rparr> in
              Some (emit (PollUpdate (events_type (conn_channel c3))) c3))
           else Some c2
         }
       }
       else Some c1
     }"

text \<open>
  The callbacks the constructor gives the channel, and an event on it: the poller stores
  the reported events and the loop calls \<open>handleEvent\<close>.
\<close>

definition conn_callbacks ::
  "('b, 'i) buffer_type \<Rightarrow> io_env \<Rightarrow> ('w, 'b, 'c) read_callback \<Rightarrow>
   ('w \<times> ('b, 'c) tcp_connection) channel_callbacks" where
  "conn_callbacks C e on_read =
     setWriteCallback (\<lambda>(w, c). map_option (Pair w) (handleWrite C e c))
       (setReadCallback (\<lambda>(w, c). handleRead C e on_read w c)
         (setErrorCallback (\<lambda>(w, c). Some (w, handleError c))
           (setCloseCallback (\<lambda>(w, c). Some (w, handleClose c)) no_callbacks)))"

definition conn_event ::
  "('b, 'i) buffer_type \<Rightarrow> io_env \<Rightarrow> ('w, 'b, 'c) read_callback \<Rightarrow> events \<Rightarrow>
   'w \<times> ('b, 'c) tcp_connection \<Rightarrow> ('w \<times> ('b, 'c) tcp_connection) option" where
  "conn_event C e on_read revents s =
     Channel_handleEvent (\<lambda>s. conn_channel (snd s)) (conn_callbacks C e on_read)
       (map_prod id (\<lambda>c. c\<lparr>conn_channel := set_revents_type revents (conn_channel c)\<rparr>) s)"

text \<open>The callbacks a \<open>TCPServer\<close> installs when it is given none.\<close>

definition defaultCreateCallback :: "('b, 'c) tcp_connection \<Rightarrow> ('b, 'c) tcp_connection option" where
  "defaultCreateCallback c = Some c"

definition defaultReadCallback :: "('b, 'i) buffer_type \<Rightarrow> ('w, 'b, 'c) read_callback" where
  "defaultReadCallback C w c = Some (w, c\<lparr>conn_in := snd (bt_readAll C (conn_in c))\<rparr>)"

section \<open>The abstract connection\<close>

text \<open>
  What a connection promises, without buffers and masks. \<open>a_accepted\<close> is the stream of all
  bytes handed to \<open>send\<close>, \<open>a_sent\<close> the stream the kernel took, \<open>a_pending\<close> what is kept
  for later. \<open>a_fin\<close> is the stream accepted when the write side of the socket was first
  shut down, \<open>a_closes\<close> how often the close callback ran.
\<close>

record conn_abs =
  a_status :: conn_status
  a_writing :: bool
  a_pending :: string
  a_accepted :: string
  a_sent :: string
  a_fin :: "string option"
  a_closes :: nat

definition abs_new :: conn_abs where
  "abs_new = \<lparr>a_status = kConnecting, a_writing = False, a_pending = [], a_accepted = [], a_sent = [],
     a_fin = None, a_closes = 0\<rparr>"

definition abs_close :: "conn_abs \<Rightarrow> conn_abs" where
  "abs_close a = (if a_status a = kDisconnected then a
     else a\<lparr>a_status := kDisconnected, a_closes := Suc (a_closes a)\<rparr>)"

definition abs_shutdown :: "conn_abs \<Rightarrow> conn_abs" where
  "abs_shutdown a =
     (if a_status a = kDisconnected then a
      else if a_writing a then a\<lparr>a_status := kDisconnecting\<rparr>
      else a\<lparr>a_status := kDisconnecting,
             a_fin := (case a_fin a of None \<Rightarrow> Some (a_accepted a) | Some s \<Rightarrow> Some s)\<rparr>)"

definition abs_taken :: "int \<Rightarrow> conn_abs \<Rightarrow> conn_abs" where
  "abs_taken n a = a\<lparr>a_sent := a_sent a @ take (nat n) (a_pending a), a_pending := drop (nat n) (a_pending a)\<rparr>"

definition abs_send :: "string \<Rightarrow> int \<Rightarrow> conn_abs \<Rightarrow> conn_abs" where
  "abs_send s n a =
     (let a1 = a\<lparr>a_pending := a_pending a @ s, a_accepted := a_accepted a @ s\<rparr> in
      if a_writing a then a1
      else if n < 0 then abs_close a1
      else (abs_taken n a1)\<lparr>a_writing := a_pending (abs_taken n a1) \<noteq> []\<rparr>)"

definition abs_write :: "int \<Rightarrow> conn_abs \<Rightarrow> conn_abs" where
  "abs_write n a =
     (if n < 0 then abs_close a
      else if a_pending (abs_taken n a) = [] then
        (let a1 = (abs_taken n a)\<lparr>a_writing := False\<rparr> in
         if a_status a = kDisconnecting then abs_shutdown a1 else a1)
      else abs_taken n a)"

inductive abs_step :: "conn_abs \<Rightarrow> conn_abs \<Rightarrow> bool" where
  abs_step_create: "a_status a = kConnecting \<Longrightarrow> abs_step a (a\<lparr>a_status := kConnected\<rparr>)"
| abs_step_close: "abs_step a (abs_close a)"
| abs_step_shutdown: "a_status a \<noteq> kConnecting \<Longrightarrow> abs_step a (abs_shutdown a)"
| abs_step_send: "a_status a \<noteq> kConnecting \<Longrightarrow> s \<noteq> [] \<Longrightarrow> n \<le> int (length (a_pending a @ s)) \<Longrightarrow>
    abs_step a (abs_send s n a)"
| abs_step_write: "a_writing a \<Longrightarrow> n \<le> int (length (a_pending a)) \<Longrightarrow> abs_step a (abs_write n a)"

definition abs_reach :: "conn_abs \<Rightarrow> bool" where
  "abs_reach = abs_step\<^sup>*\<^sup>* abs_new"

text \<open>The invariant of the abstract connection.\<close>

definition abs_inv :: "conn_abs \<Rightarrow> bool" where
  "abs_inv a \<longleftrightarrow>
     a_sent a @ a_pending a = a_accepted a \<and>
     (a_writing a \<longrightarrow> a_pending a \<noteq> []) \<and>
     (a_status a \<noteq> kDisconnected \<longrightarrow> a_pending a \<noteq> [] \<longrightarrow> a_writing a) \<and>
     (\<forall>s. a_fin a = Some s \<longrightarrow> prefix s (a_sent a)) \<and>
     (a_status a = kDisconnecting \<longrightarrow> \<not> a_writing a \<longrightarrow> a_fin a \<noteq> None) \<and>
     a_closes a = (if a_status a = kDisconnected then 1 else 0)"

lemma abs_taken_none [simp]: "n \<le> 0 \<Longrightarrow> abs_taken n a = a"
  by (cases a) (simp add: abs_taken_def)

lemma abs_inv_close: "abs_inv a \<Longrightarrow> abs_inv (abs_close a)"
  by (auto simp: abs_inv_def abs_close_def)

lemma abs_inv_shutdown: "abs_inv a \<Longrightarrow> abs_inv (abs_shutdown a)"
  by (auto simp: abs_inv_def abs_shutdown_def split: option.splits)

lemma abs_inv_send: "abs_inv a \<Longrightarrow> abs_inv (abs_send s n a)"
  by (auto simp: abs_inv_def abs_send_def abs_taken_def abs_close_def Let_def
      simp del: take_append drop_append intro: prefix_order.trans)

lemma prefix_extend: "prefix s t \<Longrightarrow> t @ u = v \<Longrightarrow> prefix s v"
  by (auto simp: prefix_def)

lemma abs_inv_taken:
  "abs_inv a \<Longrightarrow> a_writing a \<Longrightarrow> a_pending (abs_taken n a) \<noteq> [] \<Longrightarrow> abs_inv (abs_taken n a)"
  "abs_inv a \<Longrightarrow> a_status a \<noteq> kDisconnecting \<Longrightarrow> a_pending (abs_taken n a) = [] \<Longrightarrow>
   abs_inv ((abs_taken n a)\<lparr>a_writing := False\<rparr>)"
  by (auto simp: abs_inv_def abs_taken_def intro: prefix_extend)

lemma abs_inv_drained:
  assumes "abs_inv a" and "a_status a = kDisconnecting" and "a_pending (abs_taken n a) = []"
  shows "abs_inv (abs_shutdown ((abs_taken n a)\<lparr>a_writing := False\<rparr>))"
proof -
  have "a_sent (abs_taken n a) = a_accepted a"
    using assms(1,3) by (simp add: abs_inv_def abs_taken_def)
  with assms show ?thesis
    by (auto simp: abs_inv_def abs_shutdown_def abs_taken_def intro: prefix_extend split: option.splits)
qed

lemma abs_inv_write: "abs_inv a \<Longrightarrow> a_writing a \<Longrightarrow> abs_inv (abs_write n a)"
  by (simp add: abs_write_def Let_def abs_inv_close abs_inv_taken abs_inv_drained)

lemma abs_inv_step: "abs_step a a' \<Longrightarrow> abs_inv a \<Longrightarrow> abs_inv a'"
  by (induction rule: abs_step.induct)
    (simp_all add: abs_inv_close abs_inv_shutdown abs_inv_send abs_inv_write, simp add: abs_inv_def)

lemma abs_reach_inv: "abs_reach a \<Longrightarrow> abs_inv a"
  unfolding abs_reach_def
proof (induction rule: rtranclp_induct)
  case base
  show ?case by (simp add: abs_inv_def abs_new_def)
qed (rule abs_inv_step)

lemma abs_reach_step: "abs_reach a \<Longrightarrow> abs_step a a' \<Longrightarrow> abs_reach a'"
  by (simp add: abs_reach_def)

section \<open>Refinement\<close>

text \<open>
  What the poller knows of the channel after a trace, how often the close callback ran,
  and how many bytes the kernel took.
\<close>

fun poll_view :: "conn_action list \<Rightarrow> events option \<Rightarrow> events option" where
  "poll_view [] r = r"
| "poll_view (PollAdd ev # t) r = poll_view t (Some ev)"
| "poll_view (PollUpdate ev # t) r = poll_view t (map_option (\<lambda>_. ev) r)"
| "poll_view (PollRemove # t) r = poll_view t None"
| "poll_view (_ # t) r = poll_view t r"

fun trace_taken :: "conn_action list \<Rightarrow> nat" where
  "trace_taken [] = 0"
| "trace_taken (Written n # t) = nat n + trace_taken t"
| "trace_taken (_ # t) = trace_taken t"

text \<open>
  A connection stands for an abstract one. The buffers meet their invariants \<open>iinv\<close> and
  \<open>oinv\<close>, the content of the output buffer is what is pending, and the trace agrees: the
  poller knows exactly the events of the channel as long as the connection is open, the
  write side has been shut down when \<open>a_fin\<close> says so, the close callback ran \<open>a_closes\<close>
  times and the kernel took as many bytes as \<open>a_sent\<close> has.
\<close>

definition conn_rel ::
  "('b \<Rightarrow> bool) \<Rightarrow> ('b \<Rightarrow> bool) \<Rightarrow> ('b \<Rightarrow> string) \<Rightarrow> ('b, 'c) tcp_connection \<Rightarrow> conn_abs \<Rightarrow> bool" where
  "conn_rel iinv oinv ocontent c a \<longleftrightarrow>
     iinv (conn_in c) \<and> oinv (conn_out c) \<and> ocontent (conn_out c) = a_pending a \<and>
     conn_status c = a_status a \<and> isWriting (conn_channel c) = a_writing a \<and>
     poll_view (conn_trace c) None =
       (if a_status a = kConnected \<or> a_status a = kDisconnecting
        then Some (events_type (conn_channel c)) else None) \<and>
     (ShutdownWr \<in> set (conn_trace c) \<longleftrightarrow> a_fin a \<noteq> None) \<and>
     count_list (conn_trace c) CloseCallback = a_closes a \<and>
     trace_taken (conn_trace c) = length (a_sent a)"

lemma poll_view_append [simp]: "poll_view (t @ u) r = poll_view u (poll_view t r)"
  by (induction t r rule: poll_view.induct) simp_all

lemma trace_taken_append [simp]: "trace_taken (t @ u) = trace_taken t + trace_taken u"
  by (induction t rule: trace_taken.induct) simp_all

lemma emit_simps [simp]:
  "conn_channel (emit x c) = conn_channel c" "conn_status (emit x c) = conn_status c"
  "conn_in (emit x c) = conn_in c" "conn_out (emit x c) = conn_out c"
  "conn_context (emit x c) = conn_context c" "conn_trace (emit x c) = conn_trace c @ [x]"
  by (simp_all add: emit_def)

lemma rel_close: "conn_rel iinv oinv oc c a \<Longrightarrow> conn_rel iinv oinv oc (handleClose c) (abs_close a)"
  by (auto simp: conn_rel_def handleClose_def abs_close_def)

lemma rel_shutdown:
  assumes "conn_rel iinv oinv oc c a" and "a_status a \<noteq> kConnecting" and "shutdown e c = Some c'"
  shows "conn_rel iinv oinv oc c' (abs_shutdown a)"
  using assms by (cases "a_status a")
    (auto simp: conn_rel_def shutdown_def abs_shutdown_def Let_def bind_eq_Some_conv split: if_splits option.splits)

lemma rel_written:
  assumes "conn_rel iinv oinv oc c a" and "oinv b" and "oc b = drop (nat n) (a_pending a)"
    and "n \<le> int (length (a_pending a))"
  shows "conn_rel iinv oinv oc (emit (Written n) (c\<lparr>conn_out := b\<rparr>)) (abs_taken n a)"
proof -
  have "nat n \<le> length (a_pending a)" using assms(4) by simp
  with assms(1-3) show ?thesis by (simp add: conn_rel_def abs_taken_def min_absorb2)
qed

lemma rel_update:
  "conn_rel iinv oinv oc c a \<Longrightarrow>
   conn_rel iinv oinv oc (emit (PollUpdate (events_type ch)) (c\<lparr>conn_channel := ch\<rparr>))
     (a\<lparr>a_writing := isWriting ch\<rparr>)"
  by (simp add: conn_rel_def)

text \<open>The part of a connection that the operations on its output leave alone.\<close>

definition conn_frame :: "('b, 'c) tcp_connection \<Rightarrow> ('b, 'c) tcp_connection \<Rightarrow> bool" where
  "conn_frame c c' \<longleftrightarrow> conn_in c' = conn_in c \<and> conn_context c' = conn_context c \<and>
     revents_type (conn_channel c') = revents_type (conn_channel c)"

text \<open>
  \<open>conn_sim\<close>: a connection that stood for \<open>a\<close> has become \<open>c'\<close>, by steps of the abstract
  connection that did not stop it from writing. A read callback is acceptable when every
  run of it on a connection with new input is such steps: it may consume input, change
  the context, send and shut down.
\<close>

definition conn_sim ::
  "('b \<Rightarrow> bool) \<Rightarrow> ('b \<Rightarrow> bool) \<Rightarrow> ('b \<Rightarrow> string) \<Rightarrow> ('b, 'c) tcp_connection \<Rightarrow> conn_abs \<Rightarrow>
   ('b, 'c) tcp_connection \<Rightarrow> bool" where
  "conn_sim iinv oinv ocontent c a c' \<longleftrightarrow>
     (\<exists>a'. abs_step\<^sup>*\<^sup>* a a' \<and> conn_rel iinv oinv ocontent c' a' \<and> (a_writing a \<longrightarrow> a_writing a') \<and>
       revents_type (conn_channel c') = revents_type (conn_channel c))"

definition env_ok :: "io_env \<Rightarrow> bool" where
  "env_ok e \<longleftrightarrow> readv_contract (io_readv e) \<and> writev_contract (io_writev e)"

definition read_callback_ok ::
  "('b \<Rightarrow> bool) \<Rightarrow> ('b \<Rightarrow> bool) \<Rightarrow> ('b \<Rightarrow> bool) \<Rightarrow> ('b \<Rightarrow> string) \<Rightarrow>
   (io_env \<Rightarrow> ('w, 'b, 'c) read_callback) \<Rightarrow> bool" where
  "read_callback_ok iinv ready oinv ocontent f \<longleftrightarrow>
     (\<forall>e w c a w' c'. env_ok e \<longrightarrow> ready (conn_in c) \<longrightarrow> conn_rel iinv oinv ocontent c a \<longrightarrow>
        a_status a = kConnected \<or> a_status a = kDisconnecting \<longrightarrow> f e w c = Some (w', c') \<longrightarrow>
        conn_sim iinv oinv ocontent c a c')"

definition create_callback_ok ::
  "('b \<Rightarrow> bool) \<Rightarrow> ('b \<Rightarrow> bool) \<Rightarrow> ('b \<Rightarrow> string) \<Rightarrow>
   (('b, 'c) tcp_connection \<Rightarrow> ('b, 'c) tcp_connection option) \<Rightarrow> bool" where
  "create_callback_ok iinv oinv ocontent f \<longleftrightarrow>
     (\<forall>c a c'. conn_rel iinv oinv ocontent c a \<longrightarrow> f c = Some c' \<longrightarrow> conn_rel iinv oinv ocontent c' a)"

text \<open>
  The states a connection goes through: constructed, created once in its loop, then any
  sequence of events. An event comes from a poller that knows the channel, and reports
  \<open>POLLOUT\<close> only when it was asked for it.
\<close>

inductive conn_reach ::
  "('b, 'i) buffer_type \<Rightarrow> (('b, 'c) tcp_connection \<Rightarrow> ('b, 'c) tcp_connection option) \<Rightarrow>
   (io_env \<Rightarrow> ('w, 'b, 'c) read_callback) \<Rightarrow> ('b, 'c) tcp_connection \<Rightarrow> bool"
  for C on_create on_read where
  conn_new: "conn_reach C on_create on_read (TCPConnection_new C fd name)"
| conn_create: "conn_reach C on_create on_read c \<Longrightarrow> conn_status c = kConnecting \<Longrightarrow>
    handleCreate e on_create c = Some c' \<Longrightarrow> conn_reach C on_create on_read c'"
| conn_event: "conn_reach C on_create on_read c \<Longrightarrow> env_ok e \<Longrightarrow>
    poll_view (conn_trace c) None = Some registered \<Longrightarrow>
    (revents AND POLLOUT \<noteq> 0 \<longrightarrow> registered AND POLLOUT \<noteq> 0) \<Longrightarrow>
    conn_event C e (on_read e) revents (w, c) = Some (w', c') \<Longrightarrow> conn_reach C on_create on_read c'"

lemma conn_sim_refl: "conn_rel iinv oinv oc c a \<Longrightarrow> conn_sim iinv oinv oc c a c"
  unfolding conn_sim_def by blast

lemma conn_sim_step:
  "abs_step a a' \<Longrightarrow> conn_rel iinv oinv oc c' a' \<Longrightarrow> (a_writing a \<longrightarrow> a_writing a') \<Longrightarrow>
   revents_type (conn_channel c') = revents_type (conn_channel c) \<Longrightarrow> conn_sim iinv oinv oc c a c'"
  unfolding conn_sim_def by blast

lemma read_callback_okD:
  "read_callback_ok iinv ready oinv oc f \<Longrightarrow> env_ok e \<Longrightarrow> ready (conn_in c) \<Longrightarrow> conn_rel iinv oinv oc c a \<Longrightarrow>
   a_status a = kConnected \<or> a_status a = kDisconnecting \<Longrightarrow> f e w c = Some (w', c') \<Longrightarrow>
   conn_sim iinv oinv oc c a c'"
  unfolding read_callback_ok_def by blast

lemma handleClose_sim:
  assumes "conn_rel iinv oinv oc c a"
  shows "conn_sim iinv oinv oc c a (handleClose c)"
  by (rule conn_sim_step [OF abs_step_close rel_close [OF assms]])
    (simp_all add: abs_close_def handleClose_def)

lemma shutdown_sim:
  assumes "conn_rel iinv oinv oc c a" and "a_status a \<noteq> kConnecting" and "shutdown e c = Some c'"
  shows "conn_sim iinv oinv oc c a c'"
  by (rule conn_sim_step [OF abs_step_shutdown rel_shutdown [OF assms]])
    (use assms in \<open>auto simp: abs_shutdown_def shutdown_def Let_def bind_eq_Some_conv split: if_splits\<close>)

lemma shutdown_defined:
  "io_ndebug e \<or> io_in_loop e \<Longrightarrow> \<exists>c'. shutdown e c = Some c' \<and> conn_frame c c'"
  by (simp add: shutdown_def cpp_assert_def Let_def conn_frame_def)

lemma conn_sim_trans:
  assumes "conn_sim iinv oinv oc c a c'"
    and "\<And>a'. abs_step\<^sup>*\<^sup>* a a' \<Longrightarrow> conn_rel iinv oinv oc c' a' \<Longrightarrow> (a_writing a \<Longrightarrow> a_writing a') \<Longrightarrow>
      conn_sim iinv oinv oc c' a' c''"
  shows "conn_sim iinv oinv oc c a c''"
proof -
  obtain a' where a': "abs_step\<^sup>*\<^sup>* a a'" "conn_rel iinv oinv oc c' a'" "a_writing a \<longrightarrow> a_writing a'"
    "revents_type (conn_channel c') = revents_type (conn_channel c)"
    using assms(1) by (auto simp: conn_sim_def)
  with assms(2) [OF a'(1,2)] show ?thesis
    unfolding conn_sim_def by (metis rtranclp_trans)
qed

lemma abs_inv_steps: "abs_step\<^sup>*\<^sup>* a a' \<Longrightarrow> abs_inv a \<Longrightarrow> abs_inv a'"
  by (induction rule: rtranclp_induct) (auto intro: abs_inv_step)

lemma abs_step_status: "abs_step a a' \<Longrightarrow> a_status a \<noteq> kConnecting \<Longrightarrow> a_status a' \<noteq> kConnecting"
  by (induction rule: abs_step.induct)
    (auto simp: abs_close_def abs_shutdown_def abs_send_def abs_write_def abs_taken_def Let_def)

lemma abs_steps_status: "abs_step\<^sup>*\<^sup>* a a' \<Longrightarrow> a_status a \<noteq> kConnecting \<Longrightarrow> a_status a' \<noteq> kConnecting"
  by (induction rule: rtranclp_induct) (auto dest: abs_step_status)

locale conn_buffers = in_buffer C iinv ready content iter_at + out_buffer C oinv ocontent
  for C :: "('b, 'i) buffer_type" and iinv ready content iter_at oinv ocontent
begin

abbreviation rel :: "('b, 'c) tcp_connection \<Rightarrow> conn_abs \<Rightarrow> bool" where
  "rel \<equiv> conn_rel iinv oinv ocontent"

lemma drain:
  assumes "rel c a" and "a_pending a \<noteq> []" and "writev_contract wr"
  obtains n b where "bt_readToFD C wr (conn_out c) = Some (n, b)" "n \<le> int (length (a_pending a))"
    "rel (emit (Written n) (c\<lparr>conn_out := b\<rparr>)) (abs_taken n a)"
    "bt_readableSize C b = Some (length (a_pending (abs_taken n a)))"
proof -
  from assms have o: "oinv (conn_out c)" "ocontent (conn_out c) = a_pending a"
    by (simp_all add: conn_rel_def)
  with readToFD_spec [OF o(1) _ assms(3)] assms(2) obtain vs b where b: "concat vs = a_pending a"
    "bt_readToFD C wr (conn_out c) = Some (wr vs, b)" "oinv b"
    "ocontent b = drop (nat (wr vs)) (a_pending a)" "bt_readableSize C b = Some (length (ocontent b))"
    by auto
  have "wr vs \<le> int (length (a_pending a))"
    using writev_contractD [OF assms(3), of vs] b(1) by simp
  with b assms(1) that show ?thesis
    using rel_written [OF assms(1) b(3,4)] by (simp add: abs_taken_def)
qed

lemma send_refines:
  assumes "rel c a" and "cb (conn_out c) = Some b" and "oinv b" and "ocontent b = a_pending a @ s"
    and "s \<noteq> []" and "writev_contract (io_writev e)" and "io_ndebug e \<or> io_in_loop e"
  shows "\<exists>n c'. send C e cb c = Some c' \<and> n \<le> int (length (a_pending a @ s)) \<and>
    rel c' (abs_send s n a) \<and> conn_frame c c'"
proof -
  let ?a = "a\<lparr>a_pending := a_pending a @ s, a_accepted := a_accepted a @ s\<rparr>"
  have r: "rel (c\<lparr>conn_out := b\<rparr>) ?a" and w: "isWriting (conn_channel c) = a_writing a"
    using assms(1,3,4) by (simp_all add: conn_rel_def)
  obtain n b' where n: "bt_readToFD C (io_writev e) b = Some (n, b')" "n \<le> int (length (a_pending a @ s))"
    "rel (emit (Written n) (c\<lparr>conn_out := b'\<rparr>)) (abs_taken n ?a)"
    "bt_readableSize C b' = Some (length (a_pending (abs_taken n ?a)))"
    using drain [OF r _ assms(6)] assms(5) by auto
  let ?c = "emit (Written n) (c\<lparr>conn_out := b'\<rparr>)"
  have err: "n < 0 \<Longrightarrow> rel (handleError ?c) (abs_close ?a)"
    using rel_close [OF n(3)] by (simp add: handleError_def)
  have more: "rel (emit (PollUpdate (events_type (enableWriting (conn_channel ?c))))
      (?c\<lparr>conn_channel := enableWriting (conn_channel ?c)\<rparr>)) ((abs_taken n ?a)\<lparr>a_writing := True\<rparr>)"
    using rel_update [OF n(3), of "enableWriting (conn_channel ?c)"] by simp
  have all: "\<not> a_writing a \<Longrightarrow> (abs_taken n ?a)\<lparr>a_writing := False\<rparr> = abs_taken n ?a"
    by (simp add: abs_taken_def)
  show ?thesis
    using assms(2,7) r w n err more all
    by (intro exI [of _ n]) (auto simp: send_def abs_send_def cpp_assert_def conn_frame_def Let_def
        handleError_def handleClose_def)
qed

lemma handleWrite_refines:
  assumes "rel c a" and "a_pending a \<noteq> []" and "writev_contract (io_writev e)"
    and "io_ndebug e \<or> conn_status c = kConnected"
  shows "\<exists>n c'. handleWrite C e c = Some c' \<and> n \<le> int (length (a_pending a)) \<and>
    rel c' (abs_write n a) \<and> conn_frame c c'"
proof -
  obtain n b where n: "bt_readToFD C (io_writev e) (conn_out c) = Some (n, b)" "n \<le> int (length (a_pending a))"
    "rel (emit (Written n) (c\<lparr>conn_out := b\<rparr>)) (abs_taken n a)"
    "bt_readableSize C b = Some (length (a_pending (abs_taken n a)))"
    using drain [OF assms(1-3)] .
  let ?c = "emit (Written n) (c\<lparr>conn_out := b\<rparr>)"
  let ?d = "emit (PollUpdate (events_type (disableWriting (conn_channel ?c))))
      (?c\<lparr>conn_channel := disableWriting (conn_channel ?c)\<rparr>)"
  let ?a = "(abs_taken n a)\<lparr>a_writing := False\<rparr>"
  have err: "n < 0 \<Longrightarrow> rel (handleError ?c) (abs_close a)"
    using rel_close [OF n(3)] by (simp add: handleError_def)
  have d: "rel ?d ?a"
    using rel_update [OF n(3), of "disableWriting (conn_channel ?c)"] by simp
  have st: "conn_status c = a_status a" "a_status (abs_taken n a) = a_status a"
    using assms(1) by (simp_all add: conn_rel_def abs_taken_def)
  have fin: "\<exists>d'. shutdown e ?d = Some d' \<and> conn_frame ?d d' \<and> rel d' (abs_shutdown ?a)"
    if dis: "a_status a = kDisconnecting"
  proof -
    have "io_ndebug e \<or> io_in_loop e" using assms(4) st(1) dis by simp
    from shutdown_defined [OF this, of ?d] rel_shutdown [OF d, of e] st(2) dis show ?thesis by auto
  qed
  show ?thesis
    using fin assms(4) n err d st
    by (intro exI [of _ n]) (auto simp: handleWrite_def abs_write_def cpp_assert_def conn_frame_def Let_def
        handleError_def handleClose_def)
qed

lemma handleWrite_sim:
  assumes "rel c a" and "abs_inv a" and "a_writing a" and "env_ok e" and "handleWrite C e c = Some c'"
  shows "\<exists>a'. abs_step a a' \<and> rel c' a'"
proof -
  have "io_ndebug e \<or> conn_status c = kConnected"
    using assms(5) by (auto simp: handleWrite_def bind_eq_Some_conv)
  moreover have "a_pending a \<noteq> []" and "writev_contract (io_writev e)"
    using assms(2-4) by (simp_all add: abs_inv_def env_ok_def)
  ultimately obtain n where "n \<le> int (length (a_pending a))" "rel c' (abs_write n a)"
    using handleWrite_refines [OF assms(1), of e] assms(5) by auto
  then show ?thesis using abs_step_write [OF assms(3)] by blast
qed

lemma handleRead_sim:
  assumes "rel c a" and "env_ok e" and "read_callback_ok iinv ready oinv ocontent f"
    and "handleRead C e (f e) w c = Some (w', c')"
  shows "conn_sim iinv oinv ocontent c a c'"
proof (cases "conn_status c = kConnected \<or> conn_status c = kDisconnecting")
  case True
  have i: "iinv (conn_in c)" and st: "conn_status c = a_status a"
    using assms(1) by (simp_all add: conn_rel_def)
  have in_rel: "rel (c\<lparr>conn_in := b\<rparr>) a" if "iinv b" for b
    using assms(1) that by (simp add: conn_rel_def)
  obtain n b where nb: "bt_writeFromFD C (io_readv e) (conn_in c) = Some (n, b)" "iinv b" "n > 0 \<Longrightarrow> ready b"
  proof -
    obtain lens where "case io_readv e lens of
            SysErr \<Rightarrow> bt_writeFromFD C (io_readv e) (conn_in c) = Some (- 1, conn_in c)
          | SysBytes bs \<Rightarrow> \<exists>b'. bt_writeFromFD C (io_readv e) (conn_in c) = Some (int (length bs), b') \<and>
              (if bs = [] then iinv b' \<and> content b' = content (conn_in c)
               else ready b' \<and> content b' = content (conn_in c) @ bs)"
      using writeFromFD_spec [OF i] assms(2) unfolding env_ok_def by blast
    with i ready_inv that show ?thesis
      by (cases "io_readv e lens") (auto split: if_splits)
  qed
  let ?c = "c\<lparr>conn_in := b\<rparr>"
  have "conn_sim iinv oinv ocontent ?c a c'"
  proof (cases "n > 0")
    case n: True
    then have "f e w ?c = Some (w', c')"
      using assms(4) True nb(1) by (simp add: handleRead_def)
    with True st show ?thesis
      using nb(3) [OF n] by (intro read_callback_okD [OF assms(3,2) _ in_rel [OF nb(2)]]) simp_all
  next
    case False
    then have "c' = handleClose ?c"
      using assms(4) True nb(1) by (auto simp: handleRead_def handleError_def Let_def split: if_splits)
    with handleClose_sim [OF in_rel [OF nb(2)]] show ?thesis by simp
  qed
  then show ?thesis by (simp add: conn_sim_def)
next
  case False
  with assms(1,4) show ?thesis by (auto simp: handleRead_def intro: conn_sim_refl)
qed

lemma conn_event_sim:
  assumes "rel c a" and "abs_inv a" and "env_ok e" and "read_callback_ok iinv ready oinv ocontent f"
    and "revents AND POLLOUT \<noteq> 0 \<Longrightarrow> a_writing a"
    and "conn_event C e (f e) revents (w, c) = Some (w', c')"
  shows "\<exists>a'. abs_step\<^sup>*\<^sup>* a a' \<and> rel c' a'"
proof -
  let ?cbs = "conn_callbacks C e (f e)"
  let ?c = "c\<lparr>conn_channel := set_revents_type revents (conn_channel c)\<rparr>"
  have r0: "rel ?c a"
    using assms(1) by (simp add: conn_rel_def) (simp add: set_revents_type_def)
  obtain b1 b2 b3 w1 c1 w2 c2 w3 c3 where
    st1: "call_if b1 (closeCallback ?cbs) (w, ?c) = Some (w1, c1)" and
    st2: "call_if b2 (errorCallback ?cbs) (w1, c1) = Some (w2, c2)" and
    st3: "call_if b3 (readCallback ?cbs) (w2, c2) = Some (w3, c3)" and
    st4: "call_if (revents_type (conn_channel c3) AND POLLOUT \<noteq> 0) (writeCallback ?cbs) (w3, c3) = Some (w', c')"
    using assms(6) by (auto simp: conn_event_def Channel_handleEvent_def bind_eq_Some_conv)
  have "conn_sim iinv oinv ocontent ?c a c3"
  proof (rule conn_sim_trans)
    show "conn_sim iinv oinv ocontent ?c a c1"
      using st1 r0 by (auto simp: call_if_def conn_callbacks_def intro: conn_sim_refl handleClose_sim split: if_splits)
    fix a1
    assume r1: "rel c1 a1"
    show "conn_sim iinv oinv ocontent c1 a1 c3"
    proof (rule conn_sim_trans)
      show "conn_sim iinv oinv ocontent c1 a1 c2"
        using st2 r1 by (auto simp: call_if_def conn_callbacks_def handleError_def
            intro: conn_sim_refl handleClose_sim split: if_splits)
      fix a2
      assume r2: "rel c2 a2"
      then show "conn_sim iinv oinv ocontent c2 a2 c3"
        using st3 handleRead_sim [OF r2 assms(3,4)]
        by (auto simp: call_if_def conn_callbacks_def intro: conn_sim_refl split: if_splits)
    qed
  qed
  then obtain a3 where a3: "abs_step\<^sup>*\<^sup>* a a3" "rel c3 a3" "a_writing a \<Longrightarrow> a_writing a3"
    "revents_type (conn_channel c3) = revents"
    by (auto simp: conn_sim_def set_revents_type_def)
  show ?thesis
  proof (cases "revents AND POLLOUT \<noteq> 0")
    case True
    then have w: "handleWrite C e c3 = Some c'"
      using st4 a3(4) by (simp add: call_if_def conn_callbacks_def)
    from handleWrite_sim [OF a3(2) abs_inv_steps [OF a3(1) assms(2)] a3(3) [OF assms(5) [OF True]] assms(3) w]
    obtain a' where "abs_step a3 a'" "rel c' a'" by blast
    with a3(1) show ?thesis by (meson rtranclp.rtrancl_into_rtrancl)
  next
    case False
    with st4 a3 show ?thesis by (auto simp: call_if_def)
  qed
qed

lemma conn_reach_refines:
  assumes "conn_reach C on_create f c" and "read_callback_ok iinv ready oinv ocontent f"
    and "create_callback_ok iinv oinv ocontent on_create"
  shows "\<exists>a. abs_reach a \<and> rel c a"
  using assms(1)
proof (induction rule: conn_reach.induct)
  case (conn_new fd name)
  have "rel (TCPConnection_new C fd name) abs_new"
    by (simp add: conn_rel_def TCPConnection_new_def abs_new_def inv_new oinv_new ocontent_new)
  then show ?case by (auto simp: abs_reach_def)
next
  case (conn_create c e c')
  then obtain a where a: "abs_reach a" "rel c a" by blast
  let ?c = "emit (PollAdd (events_type (enableReading (conn_channel c))))
    (c\<lparr>conn_channel := enableReading (conn_channel c)\<rparr>)\<lparr>conn_status := kConnected\<rparr>"
  have st: "a_status a = kConnecting"
    using a(2) conn_create.hyps(2) by (simp add: conn_rel_def)
  have "rel ?c (a\<lparr>a_status := kConnected\<rparr>)"
    using a(2) by (simp add: conn_rel_def)
  moreover have "on_create ?c = Some c'"
    using conn_create.hyps(3) by (simp add: handleCreate_def bind_eq_Some_conv Let_def)
  ultimately have "rel c' (a\<lparr>a_status := kConnected\<rparr>)"
    using assms(3) unfolding create_callback_ok_def by blast
  with abs_reach_step [OF a(1) abs_step_create [OF st]] show ?case by blast
next
  case (conn_event c e registered revents w w' c')
  then obtain a where a: "abs_reach a" "rel c a" by blast
  have "a_writing a" if "revents AND POLLOUT \<noteq> 0"
  proof -
    have "events_type (conn_channel c) = registered"
      using a(2) conn_event.hyps(3) by (simp add: conn_rel_def split: if_splits)
    with that conn_event.hyps(4) a(2) show ?thesis
      by (simp add: conn_rel_def isWriting_def kWriteEvent_def)
  qed
  from conn_event_sim [OF a(2) abs_reach_inv [OF a(1)] conn_event.hyps(2) assms(2) this conn_event.hyps(5)]
  obtain a' where "abs_step\<^sup>*\<^sup>* a a'" "rel c' a'" by blast
  with a(1) show ?case unfolding abs_reach_def by (meson rtranclp_trans)
qed

lemma default_read_ok: "read_callback_ok iinv ready oinv ocontent (\<lambda>e. defaultReadCallback C)"
  unfolding read_callback_ok_def
proof (intro allI impI)
  fix c a w w' and c' :: "('b, 'c) tcp_connection"
  assume "rel c a" "defaultReadCallback C w c = Some (w', c')"
  then show "conn_sim iinv oinv ocontent c a c'"
    using readAll_spec [of "conn_in c"]
    by (auto simp: defaultReadCallback_def conn_sim_def conn_rel_def intro!: exI [of _ a])
qed

end

lemma default_create_ok: "create_callback_ok iinv oinv oc defaultCreateCallback"
  by (simp add: create_callback_ok_def defaultCreateCallback_def)

interpretation conn_buf: conn_buffers Buffer_type Buffer_inv Buffer_inv Buffer_content Buffer_iter_at Buffer_inv Buffer_content
  by unfold_locales

interpretation conn_linked: conn_buffers LinkedBuffer_type lb_in_inv lb_ready lb_content lb_iter_at lb_inv lb_content
  by unfold_locales

section \<open>Properties\<close>





text \<open>
  The invariants of a connection in every state it can reach. The close callback, which
  makes the server drop the connection, runs once, exactly when the connection becomes
  disconnected. While the connection is open the poller knows exactly the events of its
  channel, and the channel asks to be told about writability exactly when there is output
  left, so output is neither forgotten nor is the loop woken for nothing. Once a connection
  that is being closed has no output left, the write side has been shut down.
\<close>

theorem connection_invariants:
  assumes "read_callback_ok lb_in_inv lb_ready lb_inv lb_content f"
    and "create_callback_ok lb_in_inv lb_inv lb_content on_create"
    and "conn_reach LinkedBuffer_type on_create f c"
  shows "count_list (conn_trace c) CloseCallback = (if conn_status c = kDisconnected then 1 else 0)
    \<and> poll_view (conn_trace c) None =
      (if conn_status c = kConnected \<or> conn_status c = kDisconnecting then Some (events_type (conn_channel c)) else None)
    \<and> (conn_status c \<noteq> kDisconnected \<longrightarrow> (isWriting (conn_channel c) \<longleftrightarrow> lb_content (conn_out c) \<noteq> []))
    \<and> (conn_status c = kDisconnecting \<and> lb_content (conn_out c) = [] \<longrightarrow> ShutdownWr \<in> set (conn_trace c))"
proof -
  obtain a where "abs_reach a" and r: "conn_rel lb_in_inv lb_inv lb_content c a"
    using conn_linked.conn_reach_refines [OF assms(3,1,2)] by blast
  then have "abs_inv a" by (simp add: abs_reach_inv)
  with r show ?thesis by (auto simp: conn_rel_def abs_inv_def)
qed

lemma wit_created: "conn_reach LinkedBuffer_type defaultCreateCallback (\<lambda>e. defaultReadCallback LinkedBuffer_type)
    (the (handleCreate \<lparr>io_ndebug = True, io_in_loop = True, io_readv = (\<lambda>_. SysErr), io_writev = (\<lambda>_. -1)\<rparr>
      defaultCreateCallback (TCPConnection_new LinkedBuffer_type 7 ''a'')))"
  by (rule conn_create [OF conn_new [of _ _ _ 7 "''a''"]])
    (simp_all add: TCPConnection_new_def handleCreate_def defaultCreateCallback_def Let_def)

theorem connection_invariants_witness:
  "poll_view (conn_trace (the (handleCreate \<lparr>io_ndebug = True, io_in_loop = True, io_readv = (\<lambda>_. SysErr), io_writev = (\<lambda>_. -1)\<rparr>
      defaultCreateCallback (TCPConnection_new LinkedBuffer_type 7 ''a'')))) None = Some 3"
  using connection_invariants [OF conn_linked.default_read_ok default_create_ok wit_created]
  by (simp add: TCPConnection_new_def handleCreate_def defaultCreateCallback_def Let_def Channel_new_def
      enableReading_def kReadEvent_eq kNoneEvent_def)

text \<open>
  C20: the end of a connection that still has output. In a release build the next report of
  writability, when the kernel takes all that is left, empties the buffer, stops asking for
  writability and shuts down the write side. In a debug build the same report aborts: the
  assertion at the head of \<open>handleWrite\<close> excludes the state the rest of it handles.
\<close>

theorem half_close_completes:
  assumes "lb_inv (conn_out c)" and "lb_content (conn_out c) \<noteq> []" and "conn_status c = kDisconnecting"
    and "\<And>vs. io_writev e vs = int (length (concat vs))"
  shows "if io_ndebug e
    then \<exists>c'. conn_event LinkedBuffer_type e f POLLOUT (w, c) = Some (w, c') \<and>
      lb_content (conn_out c') = [] \<and> \<not> isWriting (conn_channel c') \<and> conn_status c' = kDisconnecting \<and>
      conn_trace c' = conn_trace c @ [Written (int (length (lb_content (conn_out c)))),
        PollUpdate (events_type (conn_channel c')), ShutdownWr]
    else conn_event LinkedBuffer_type e f POLLOUT (w, c) = None"
proof -
  let ?c = "c\<lparr>conn_channel := set_revents_type POLLOUT (conn_channel c)\<rparr>"
  have ev: "conn_event LinkedBuffer_type e f POLLOUT (w, c) = map_option (Pair w) (handleWrite LinkedBuffer_type e ?c)"
    by (simp add: conn_event_def Channel_handleEvent_def call_if_def conn_callbacks_def set_revents_type_def
        cpp_consts)
  have "writev_contract (io_writev e)"
    by (simp add: writev_contract_def assms(4))
  from linked_out.readToFD_spec [OF assms(1,2) this] assms(4) obtain b' where
    "bt_readToFD LinkedBuffer_type (io_writev e) (conn_out c) = Some (int (length (lb_content (conn_out c))), b')"
    "lb_content b' = []" "bt_readableSize LinkedBuffer_type b' = Some 0"
    by auto
  with assms(3) show ?thesis
    unfolding ev
    by (simp add: handleWrite_def cpp_assert_def shutdown_def Let_def del: LinkedBuffer_type_simps)
qed

definition wit_closing :: "(linked_buffer, unit) tcp_connection" where
  "wit_closing = (TCPConnection_new LinkedBuffer_type 7 ''a'')\<lparr>conn_status := kDisconnecting, conn_out := wit_two_nodes,
     conn_channel := \<lparr>ch_fd = 7, events_type = 7, revents_type = 0\<rparr>\<rparr>"

theorem half_close_completes_witness:
  "\<exists>c'. conn_event LinkedBuffer_type
       \<lparr>io_ndebug = True, io_in_loop = True, io_readv = (\<lambda>_. SysErr), io_writev = (\<lambda>vs. int (length (concat vs)))\<rparr>
       (defaultReadCallback LinkedBuffer_type) POLLOUT ((), wit_closing) = Some ((), c') \<and>
     conn_trace c' = [Written 6, PollUpdate (events_type (conn_channel c')), ShutdownWr]"
  using half_close_completes [of wit_closing
      "\<lparr>io_ndebug = True, io_in_loop = True, io_readv = (\<lambda>_. SysErr), io_writev = (\<lambda>vs. int (length (concat vs)))\<rparr>"
      "defaultReadCallback LinkedBuffer_type" "()"]
  by (auto simp: wit_closing_def wit_two_nodes_ok TCPConnection_new_def)

end
