(* ===== verification/Http_Request.thy ===== *)
theory Http_Request
  imports Buffer Linked_Buffer
begin

text \<open>
  \<open>srcs/net/server/http/http_literal.h\<close>, \<open>http_literal.cc\<close> and \<open>http_request.h\<close>: the
  enumerations and tables of HTTP literals, and \<open>net::HTTPRequest\<close>, whose setters read
  character ranges of a buffer of any \<open>BufferType\<close>. The header table is a
  \<open>std::map\<close>; \<open>emplace\<close> leaves an entry that is already there.
\<close>

section \<open>Literals\<close>

datatype HttpVersion = kHttp10 | kHttp11 | kVersionUnknown

datatype HttpMethod = kGet | kPost | kHead | kPut | kDelete | kInvalid

datatype HttpStatusCode = k200Ok | k301MovedPermanently | k400BadRequest | k404NotFound | kStatusUnknown

definition gHttpMethods :: "string list" where
  "gHttpMethods = [''GET'', ''POST'', ''HEAD'', ''PUT'', ''DELETE'']"

definition gHttpPrefix :: string where
  "gHttpPrefix = ''HTTP/''"

definition gHttpVersions :: "string list" where
  "gHttpVersions = [''1.0'', ''1.1'']"

definition gHttpStatusCodes :: "int list" where
  "gHttpStatusCodes = [200, 301, 400, 404]"

definition gHttpStatusMessages :: "string list" where
  "gHttpStatusMessages = [''OK'', ''Moved Permanently'', ''Bad Request'', ''Not Found'']"

definition kCRLF :: string where
  "kCRLF = [CHR 0x0D, CHR 0x0A]"

text \<open>The enumerators as the integers they stand for, in both directions.\<close>

definition HttpMethods :: "HttpMethod list" where
  "HttpMethods = [kGet, kPost, kHead, kPut, kDelete, kInvalid]"

definition HttpVersions :: "HttpVersion list" where
  "HttpVersions = [kHttp10, kHttp11, kVersionUnknown]"

fun HttpVersion_index :: "HttpVersion \<Rightarrow> nat" where
  "HttpVersion_index kHttp10 = 0"
| "HttpVersion_index kHttp11 = 1"
| "HttpVersion_index kVersionUnknown = 2"

fun HttpStatusCode_index :: "HttpStatusCode \<Rightarrow> nat" where
  "HttpStatusCode_index k200Ok = 0"
| "HttpStatusCode_index k301MovedPermanently = 1"
| "HttpStatusCode_index k400BadRequest = 2"
| "HttpStatusCode_index k404NotFound = 3"
| "HttpStatusCode_index kStatusUnknown = 4"

text \<open>\<open>std::find\<close> on a vector, as the index of the result (the length when nothing is found).\<close>

definition vec_find :: "'a list \<Rightarrow> 'a \<Rightarrow> nat" where
  "vec_find xs x = length (takeWhile (\<lambda>y. y \<noteq> x) xs)"

section \<open>HTTPRequest\<close>

record http_request =
  req_method :: HttpMethod
  req_version :: HttpVersion
  req_path :: string
  req_query :: string
  req_headers :: "string \<rightharpoonup> string"
  req_body :: string

definition HTTPRequest_new :: http_request where
  "HTTPRequest_new =
     \<lparr>req_method = kInvalid, req_version = kVersionUnknown, req_path = [], req_query = [],
      req_headers = Map.empty, req_body = []\<rparr>"

definition setMethod ::
  "('b, 'i) buffer_type \<Rightarrow> 'b \<Rightarrow> 'i \<Rightarrow> 'i \<Rightarrow> http_request \<Rightarrow> (bool \<times> http_request) option" where
  "setMethod C b start stop req =
     do {
       method_str \<leftarrow> std_string C b start stop;
       let idx = vec_find gHttpMethods method_str;
       if idx \<noteq> length gHttpMethods
       then Some (True, req\<lparr>req_method := HttpMethods ! idx\<rparr>)
       else Some (False, req)
     }"

definition setVersion ::
  "('b, 'i) buffer_type \<Rightarrow> 'b \<Rightarrow> 'i \<Rightarrow> 'i \<Rightarrow> http_request \<Rightarrow> (bool \<times> http_request) option" where
  "setVersion C b start stop req =
     do {
       it \<leftarrow> std_search C b start stop gHttpPrefix;
       if it = stop then Some (False, req)
       else do {
         ver \<leftarrow> bt_plus C b it (int (length gHttpPrefix));
         http_version \<leftarrow> std_string C b ver stop;
         let idx = vec_find gHttpVersions http_version;
         if idx \<noteq> length gHttpVersions
         then Some (True, req\<lparr>req_version := HttpVersions ! idx\<rparr>)
         else Some (False, req)
       }
     }"

definition setPath ::
  "('b, 'i) buffer_type \<Rightarrow> 'b \<Rightarrow> 'i \<Rightarrow> 'i \<Rightarrow> http_request \<Rightarrow> (bool \<times> http_request) option" where
  "setPath C b start stop req =
     do { s \<leftarrow> std_string C b start stop; Some (True, req\<lparr>req_path := s\<rparr>) }"

definition setQuery ::
  "('b, 'i) buffer_type \<Rightarrow> 'b \<Rightarrow> 'i \<Rightarrow> 'i \<Rightarrow> http_request \<Rightarrow> (bool \<times> http_request) option" where
  "setQuery C b start stop req =
     do { s \<leftarrow> std_string C b start stop; Some (True, req\<lparr>req_query := s\<rparr>) }"

definition map_emplace :: "'k \<Rightarrow> 'v \<Rightarrow> ('k \<rightharpoonup> 'v) \<Rightarrow> ('k \<rightharpoonup> 'v)" where
  "map_emplace k v m = (if m k = None then m(k \<mapsto> v) else m)"

text \<open>The two loops of \<open>setHeader\<close>: \<open>for (; *it == ' '; ++it);\<close> and the same with \<open>--it\<close>.\<close>

partial_function (option) skip_spaces_forward :: "('b, 'i) buffer_type \<Rightarrow> 'b \<Rightarrow> 'i \<Rightarrow> 'i option" where
  "skip_spaces_forward C b it =
     do {
       x \<leftarrow> bt_deref C b it;
       if x = CHR '' '' then do { it' \<leftarrow> bt_inc C b it; skip_spaces_forward C b it' } else Some it
     }"

partial_function (option) skip_spaces_backward :: "('b, 'i) buffer_type \<Rightarrow> 'b \<Rightarrow> 'i \<Rightarrow> 'i option" where
  "skip_spaces_backward C b it =
     do {
       x \<leftarrow> bt_deref C b it;
       if x = CHR '' '' then do { it' \<leftarrow> bt_dec C b it; skip_spaces_backward C b it' } else Some it
     }"

definition setHeader ::
  "('b, 'i) buffer_type \<Rightarrow> 'b \<Rightarrow> 'i \<Rightarrow> 'i \<Rightarrow> 'i \<Rightarrow> http_request \<Rightarrow> (bool \<times> http_request) option" where
  "setHeader C b start colon stop req =
     do {
       key \<leftarrow> std_string C b start colon;
       colon1 \<leftarrow> bt_inc C b colon;
       colon2 \<leftarrow> skip_spaces_forward C b colon1;
       stop2 \<leftarrow> skip_spaces_backward C b stop;
       value \<leftarrow> std_string C b colon2 stop2;
       Some (True, req\<lparr>req_headers := map_emplace key value (req_headers req)\<rparr>)
     }"

definition hasHeader :: "string \<Rightarrow> http_request \<Rightarrow> bool" where
  "hasHeader key req \<longleftrightarrow> req_headers req key \<noteq> None"

text \<open>\<open>headers_.at(key)\<close> throws when the key is missing: \<open>None\<close>.\<close>

definition getHeader :: "string \<Rightarrow> http_request \<Rightarrow> string option" where
  "getHeader key req = req_headers req key"

text \<open>
  \<open>to_hash_value\<close>, with the functions of \<open>boost\<close> as a parameter: \<open>hash_combine\<close> gives the new seed, and
  \<open>hash_value\<close> is overloaded.
\<close>

record boost_hash =
  hash_combine :: "hash \<Rightarrow> hash \<Rightarrow> hash"
  hash_method :: "HttpMethod \<Rightarrow> hash"
  hash_version :: "HttpVersion \<Rightarrow> hash"
  hash_string :: "string \<Rightarrow> hash"
  hash_headers :: "(string \<rightharpoonup> string) \<Rightarrow> hash"

definition to_hash_value :: "boost_hash \<Rightarrow> http_request \<Rightarrow> hash" where
  "to_hash_value B req =
     (let seed = 0;
          seed = hash_combine B seed (hash_method B (req_method req));
          seed = hash_combine B seed (hash_version B (req_version req));
          seed = hash_combine B seed (hash_string B (req_path req));
          seed = hash_combine B seed (hash_string B (req_query req));
          seed = hash_combine B seed (hash_headers B (req_headers req));
          seed = hash_combine B seed (hash_string B (req_body req)) in
      seed)"

text \<open>
  The two functors with which the cache keys its table: a pointer is hashed and compared through the request it leads to.
\<close>

definition HTTPRequstPtrHash :: "boost_hash \<Rightarrow> (nat \<Rightarrow> http_request) \<Rightarrow> nat \<Rightarrow> hash" where
  "HTTPRequstPtrHash B deref p = to_hash_value B (deref p)"

definition HTTPRequstPtrEqualTo :: "boost_hash \<Rightarrow> (nat \<Rightarrow> http_request) \<Rightarrow> nat \<Rightarrow> nat \<Rightarrow> bool" where
  "HTTPRequstPtrEqualTo B deref x y \<longleftrightarrow> to_hash_value B (deref x) = to_hash_value B (deref y)"

lemma HTTPRequstPtrEqualTo_hash [simp]:
  "HTTPRequstPtrEqualTo B deref x y \<longleftrightarrow> HTTPRequstPtrHash B deref x = HTTPRequstPtrHash B deref y"
  by (simp add: HTTPRequstPtrEqualTo_def HTTPRequstPtrHash_def)

definition expectBody :: "bool \<Rightarrow> http_request \<Rightarrow> bool option" where
  "expectBody ndebug req =
     do { cpp_assert ndebug (req_method req \<noteq> kInvalid); Some (req_method req = kPost) }"

section \<open>The setters as functions of the line they read\<close>

text \<open>
  \<open>version_spec\<close> is the text after the last separator of the request line;
  \<open>header_value\<close> the text after the colon.
\<close>

definition method_spec :: "string \<Rightarrow> http_request \<Rightarrow> bool \<times> http_request" where
  "method_spec s req =
     (let idx = vec_find gHttpMethods s in
      if idx \<noteq> length gHttpMethods then (True, req\<lparr>req_method := HttpMethods ! idx\<rparr>) else (False, req))"

definition version_spec :: "string \<Rightarrow> http_request \<Rightarrow> bool \<times> http_request" where
  "version_spec s req =
     (let k = search_index gHttpPrefix s; idx = vec_find gHttpVersions (drop (k + length gHttpPrefix) s) in
      if k \<noteq> length s \<and> idx \<noteq> length gHttpVersions
      then (True, req\<lparr>req_version := HttpVersions ! idx\<rparr>) else (False, req))"

definition header_value :: "string \<Rightarrow> string" where
  "header_value s = dropWhile (\<lambda>x. x = CHR '' '') s"

lemma vec_find_less: "vec_find xs x < length xs \<longleftrightarrow> x \<in> set xs"
  by (induction xs) (auto simp: vec_find_def)

lemma vec_find_nth: "x \<in> set xs \<Longrightarrow> xs ! vec_find xs x = x"
  by (induction xs) (auto simp: vec_find_def)

lemma vec_find_notin: "x \<notin> set xs \<Longrightarrow> vec_find xs x = length xs"
  by (induction xs) (auto simp: vec_find_def)

lemma map_emplace_keep [simp]: "m k = Some v \<Longrightarrow> map_emplace k w m = m"
  by (simp add: map_emplace_def)

lemma map_emplace_new [simp]: "m k = None \<Longrightarrow> map_emplace k w m = m(k \<mapsto> w)"
  by (simp add: map_emplace_def)

lemma map_emplace_other [simp]: "j \<noteq> k \<Longrightarrow> map_emplace k w m j = m j"
  by (simp add: map_emplace_def)

context in_buffer
begin

lemma setMethod_at:
  assumes "ready b" "k \<le> m" "m \<le> length (content b)"
  shows "setMethod C b (iter_at b k) (iter_at b m) req = Some (method_spec (segment k m (content b)) req)"
  using assms by (simp add: setMethod_def method_spec_def std_string_at Let_def)

lemma setPath_at:
  assumes "ready b" "k \<le> m" "m \<le> length (content b)"
  shows "setPath C b (iter_at b k) (iter_at b m) req =
    Some (True, req\<lparr>req_path := segment k m (content b)\<rparr>)"
  using assms by (simp add: setPath_def std_string_at)

lemma setQuery_at:
  assumes "ready b" "k \<le> m" "m \<le> length (content b)"
  shows "setQuery C b (iter_at b k) (iter_at b m) req =
    Some (True, req\<lparr>req_query := segment k m (content b)\<rparr>)"
  using assms by (simp add: setQuery_def std_string_at)

lemma setVersion_at:
  assumes "ready b" "k \<le> m" "m \<le> length (content b)"
  shows "setVersion C b (iter_at b k) (iter_at b m) req = Some (version_spec (segment k m (content b)) req)"
proof -
  let ?s = "segment k m (content b)" and ?i = "search_index gHttpPrefix (segment k m (content b))"
  have len: "length ?s = m - k" using assms(3) by simp
  show ?thesis
  proof (cases "?i = length ?s")
    case True
    with assms len show ?thesis by (simp add: setVersion_def version_spec_def std_search_at Let_def)
  next
    case False
    then have lt: "?i < length ?s" using search_index_le [of gHttpPrefix ?s] by linarith
    have fits: "?i + length gHttpPrefix \<le> length ?s" using lt by (rule search_index_fits)
    have ne: "k + ?i \<noteq> m" using lt len by simp
    have "std_string C b (iter_at b (k + ?i + length gHttpPrefix)) (iter_at b m)
        = Some (drop (?i + length gHttpPrefix) ?s)"
      using assms fits len by (subst std_string_at) (auto simp: segment_def drop_take add.commute add.left_commute)
    moreover have "bt_plus C b (iter_at b (k + ?i)) (int (length gHttpPrefix))
        = Some (iter_at b (k + ?i + length gHttpPrefix))"
      using assms fits len lt by (intro plus_at) auto
    ultimately show ?thesis
      using assms ne lt len by (simp add: setVersion_def version_spec_def std_search_at Let_def)
  qed
qed

lemma setVersion_backward:
  assumes "ready b" "m < k" "k \<le> length (content b)"
  shows "setVersion C b (iter_at b k) (iter_at b m) req = None"
  using assms by (simp add: setVersion_def std_search_def no_backward_range)

lemma skip_forward_at:
  assumes "ready b" "k \<le> m" "m < length (content b)" "content b ! m \<noteq> CHR '' ''"
  shows "skip_spaces_forward C b (iter_at b k) =
    Some (iter_at b (m - length (header_value (segment k m (content b)))))"
  using assms(2)
proof (induction "m - k" arbitrary: k)
  case 0
  with assms show ?case
    by (subst skip_spaces_forward.simps) (simp add: deref_at header_value_def)
next
  case (Suc d)
  then have lt: "k < m" by simp
  show ?case
  proof (cases "content b ! k = CHR '' ''")
    case True
    with lt assms Suc show ?thesis
      by (subst skip_spaces_forward.simps) (simp add: deref_at inc_at segment_Cons header_value_def)
  next
    case False
    with lt assms show ?thesis
      by (subst skip_spaces_forward.simps) (simp add: deref_at segment_Cons header_value_def)
  qed
qed

lemma skip_backward_at:
  assumes "ready b" "m < length (content b)" "content b ! m \<noteq> CHR '' ''"
  shows "skip_spaces_backward C b (iter_at b m) = Some (iter_at b m)"
  using assms by (subst skip_spaces_backward.simps) (simp add: deref_at)

lemma setHeader_at:
  assumes "ready b" "k \<le> p" "p < m" "m < length (content b)" "content b ! m \<noteq> CHR '' ''"
  shows "setHeader C b (iter_at b k) (iter_at b p) (iter_at b m) req =
    Some (True, req\<lparr>req_headers :=
      map_emplace (segment k p (content b)) (header_value (segment (Suc p) m (content b))) (req_headers req)\<rparr>)"
proof -
  let ?v = "header_value (segment (Suc p) m (content b))"
  have le: "length ?v \<le> m - Suc p"
    using length_dropWhile_le [of "\<lambda>x. x = CHR '' ''" "segment (Suc p) m (content b)"] assms(4)
    by (simp add: header_value_def)
  have v: "segment (m - length ?v) m (content b) = ?v"
  proof -
    have "?v = drop (length (segment (Suc p) m (content b)) - length ?v) (segment (Suc p) m (content b))"
      by (simp add: header_value_def dropWhile_eq_drop length_takeWhile_le)
    then show ?thesis
      using segment_suffix [of "Suc p" m "length ?v" "content b"] le assms(3,4) by simp
  qed
  show ?thesis
    using assms le v skip_forward_at [of b "Suc p" m]
    by (simp add: setHeader_def std_string_at inc_at skip_backward_at)
qed

end

end
