(* ===== verification/Http_Context.thy ===== *)
theory Http_Context
  imports Http_Request
begin

text \<open>
  \<open>net::HTTPContext\<close> (\<open>srcs/net/server/http/http_context.h\<close>): the incremental request
  parser a connection keeps, a state machine that consumes one CRLF-terminated line of
  the input buffer per step. The operations are generic in the buffer class, as the
  templates are. The second half gives the same parser on the bytes of the buffer and
  shows, once for every buffer that meets the contract of an input buffer, that the
  template computes it.
\<close>

section \<open>State\<close>

datatype HTTPRequestParseState = kExpectRequestLine | kExpectHeader | kExpectBody | kGotAll

record http_context =
  ctx_state :: HTTPRequestParseState
  ctx_request :: http_request

definition HTTPContext_new :: http_context where
  "HTTPContext_new = \<lparr>ctx_state = kExpectRequestLine, ctx_request = HTTPRequest_new\<rparr>"

definition resetState :: "http_context \<Rightarrow> http_context" where
  "resetState ctx = ctx\<lparr>ctx_state := kExpectRequestLine\<rparr>"

definition parseFinished :: "http_context \<Rightarrow> bool" where
  "parseFinished ctx \<longleftrightarrow> ctx_state ctx = kGotAll"

section \<open>The parser\<close>

definition parseRequestLine ::
  "('b, 'i) buffer_type \<Rightarrow> 'b \<Rightarrow> 'i \<Rightarrow> 'i \<Rightarrow> http_request \<Rightarrow> (bool \<times> http_request) option" where
  "parseRequestLine C b start stop req =
     do {
       split \<leftarrow> std_find C b start stop (CHR '' '');
       if split = stop then Some (False, req)
       else do {
         (ok, req) \<leftarrow> setMethod C b start split req;
         if \<not> ok then Some (False, req)
         else do {
           start \<leftarrow> bt_plus C b split 1;
           split \<leftarrow> std_find C b start stop (CHR ''?'');
           (ok, split, req) \<leftarrow>
             (if split \<noteq> stop then do {
                (ok, req) \<leftarrow> setPath C b start split req;
                if \<not> ok then Some (False, split, req)
                else do {
                  start \<leftarrow> bt_plus C b split 1;
                  split \<leftarrow> std_find C b start stop (CHR '' '');
                  (ok, req) \<leftarrow> setQuery C b start split req;
                  Some (ok, split, req)
                }
              } else do {
                split \<leftarrow> std_find C b start stop (CHR '' '');
                (ok, req) \<leftarrow> setPath C b start split req;
                Some (ok, split, req)
              });
           if \<not> ok then Some (False, req)
           else do {
             start \<leftarrow> bt_plus C b split 1;
             setVersion C b start stop req
           }
         }
       }
     }"

definition parseHeader ::
  "('b, 'i) buffer_type \<Rightarrow> 'b \<Rightarrow> 'i \<Rightarrow> 'i \<Rightarrow> http_request \<Rightarrow> (bool \<times> http_request) option" where
  "parseHeader C b start stop req =
     do {
       colon \<leftarrow> std_find C b start stop (CHR '':'');
       if colon = stop then Some (False, req)
       else setHeader C b start colon stop req
     }"

definition parseOneLine ::
  "bool \<Rightarrow> ('b, 'i) buffer_type \<Rightarrow> 'b \<Rightarrow> 'i \<Rightarrow> 'i \<Rightarrow> http_context \<Rightarrow> (bool \<times> http_context) option" where
  "parseOneLine ndebug C b start stop ctx =
     (case ctx_state ctx of
        kExpectRequestLine \<Rightarrow>
          do {
            (ok, req) \<leftarrow> parseRequestLine C b start stop (ctx_request ctx);
            let ctx = ctx\<lparr>ctx_request := req\<rparr>;
            if \<not> ok then Some (False, ctx) else Some (True, ctx\<lparr>ctx_state := kExpectHeader\<rparr>)
          }
      | kExpectHeader \<Rightarrow>
          (if start = stop then
             do {
               body \<leftarrow> expectBody ndebug (ctx_request ctx);
               Some (True, ctx\<lparr>ctx_state := (if body then kExpectBody else kGotAll)\<rparr>)
             }
           else
             do {
               (ok, req) \<leftarrow> parseHeader C b start stop (ctx_request ctx);
               let ctx = ctx\<lparr>ctx_request := req\<rparr>;
               if \<not> ok then Some (False, ctx) else Some (True, ctx)
             })
      | kExpectBody \<Rightarrow> Some (True, ctx\<lparr>ctx_state := kGotAll\<rparr>)
      | kGotAll \<Rightarrow> Some (True, ctx))"

partial_function (option) parseRequest ::
  "bool \<Rightarrow> ('b, 'i) buffer_type \<Rightarrow> http_context \<Rightarrow> 'b \<Rightarrow> (bool \<times> http_context \<times> 'b) option" where
  "parseRequest ndebug C ctx b =
     (if ctx_state ctx \<noteq> kGotAll then
        do {
          crlf_iter \<leftarrow> std_search C b (bt_readerIter C b) (bt_end C b) kCRLF;
          if crlf_iter \<noteq> bt_end C b then
            do {
              r \<leftarrow> parseOneLine ndebug C b (bt_readerIter C b) crlf_iter ctx;
              if fst r then
                do {
                  stop \<leftarrow> bt_plus C b crlf_iter 2;
                  rb \<leftarrow> bt_readUntil C stop b;
                  parseRequest ndebug C (snd r) (snd rb)
                }
              else Some (False, snd r, b)
            }
          else Some (True, ctx, b)
        }
      else Some (True, ctx, b))"

section \<open>The same parser on the bytes of the buffer\<close>

definition request_line_spec :: "string \<Rightarrow> http_request \<Rightarrow> (bool \<times> http_request) option" where
  "request_line_spec line req =
     (let i = find_index (CHR '' '') line in
      if i = length line then Some (False, req)
      else
        (let (ok, req1) = method_spec (take i line) req in
         if \<not> ok then Some (False, req1)
         else
           (let rest = drop (Suc i) line; j = find_index (CHR ''?'') rest;
                (req2, tail) =
                  (if j \<noteq> length rest
                   then (let q = drop (Suc j) rest; l = find_index (CHR '' '') q in
                         (req1\<lparr>req_path := take j rest, req_query := take l q\<rparr>, drop l q))
                   else (let l = find_index (CHR '' '') rest in
                         (req1\<lparr>req_path := take l rest\<rparr>, drop l rest))) in
            case tail of [] \<Rightarrow> None | _ # ver \<Rightarrow> Some (version_spec ver req2))))"

definition header_spec :: "string \<Rightarrow> http_request \<Rightarrow> bool \<times> http_request" where
  "header_spec line req =
     (let i = find_index (CHR '':'') line in
      if i = length line then (False, req)
      else (True, req\<lparr>req_headers :=
        map_emplace (take i line) (header_value (drop (Suc i) line)) (req_headers req)\<rparr>))"

definition line_spec :: "bool \<Rightarrow> http_context \<Rightarrow> string \<Rightarrow> (bool \<times> http_context) option" where
  "line_spec ndebug ctx line =
     (case ctx_state ctx of
        kExpectRequestLine \<Rightarrow>
          map_option (\<lambda>(ok, req). (ok, ctx\<lparr>ctx_request := req,
            ctx_state := (if ok then kExpectHeader else kExpectRequestLine)\<rparr>))
            (request_line_spec line (ctx_request ctx))
      | kExpectHeader \<Rightarrow>
          (if line = [] then
             map_option (\<lambda>body. (True, ctx\<lparr>ctx_state := (if body then kExpectBody else kGotAll)\<rparr>))
               (expectBody ndebug (ctx_request ctx))
           else Some (let (ok, req) = header_spec line (ctx_request ctx) in (ok, ctx\<lparr>ctx_request := req\<rparr>)))
      | kExpectBody \<Rightarrow> Some (True, ctx\<lparr>ctx_state := kGotAll\<rparr>)
      | kGotAll \<Rightarrow> Some (True, ctx))"

text \<open>The first line of the input and what follows its CRLF.\<close>

definition first_line :: "string \<Rightarrow> (string \<times> string) option" where
  "first_line s =
     (let k = search_index kCRLF s in
      if k = length s then None else Some (take k s, drop (k + 2) s))"

lemma first_line_Nil [simp]: "first_line [] = None"
  using search_index_le [of kCRLF "[]"] by (simp add: first_line_def Let_def)

lemma first_line_shorter: "first_line s = Some (line, rest) \<Longrightarrow> length rest < length s"
  using search_index_le [of kCRLF s] by (cases s) (auto simp: first_line_def Let_def split: if_splits)

function parse_spec :: "bool \<Rightarrow> http_context \<Rightarrow> string \<Rightarrow> (bool \<times> http_context \<times> string) option" where
  "parse_spec ndebug ctx s =
     (if ctx_state ctx = kGotAll then Some (True, ctx, s)
      else
        (case first_line s of
           None \<Rightarrow> Some (True, ctx, s)
         | Some (line, rest) \<Rightarrow>
             (case line_spec ndebug ctx line of
                None \<Rightarrow> None
              | Some (ok, ctx') \<Rightarrow>
                  if ok then parse_spec ndebug ctx' rest else Some (False, ctx', s))))"
  by pat_completeness auto
termination
  by (relation "measure (\<lambda>(_, _, s). length s)") (auto dest: first_line_shorter)

declare parse_spec.simps [simp del]

section \<open>The template computes the specification\<close>

lemma drop_find_index_Cons:
  "find_index c s \<noteq> length s \<Longrightarrow> drop (find_index c s) s = c # drop (Suc (find_index c s)) s"
proof (induction s)
  case (Cons x xs)
  then show ?case by (auto simp: find_index_def)
qed (simp add: find_index_def)

context in_buffer
begin

lemma find_at_drop:
  assumes "ready b" "i \<le> m" "m \<le> length (content b)"
  shows "std_find C b (iter_at b i) (iter_at b m) c =
    Some (iter_at b (i + find_index c (drop i (take m (content b)))))"
  using assms by (simp add: std_find_at segment_def drop_take)

lemma parseHeader_at:
  assumes "ready b" "m < length (content b)" "content b ! m \<noteq> CHR '' ''"
  shows "parseHeader C b (iter_at b 0) (iter_at b m) req = Some (header_spec (take m (content b)) req)"
proof -
  let ?l = "take m (content b)" and ?i = "find_index (CHR '':'') (take m (content b))"
  have le: "?i \<le> m" using find_index_le [of "CHR '':''" ?l] assms(2) by simp
  show ?thesis
  proof (cases "?i = m")
    case True
    with assms show ?thesis
      using find_at_drop [of b 0 m] by (simp add: parseHeader_def header_spec_def Let_def)
  next
    case False
    with le assms have "setHeader C b (iter_at b 0) (iter_at b ?i) (iter_at b m) req =
        Some (True, req\<lparr>req_headers := map_emplace (take ?i ?l) (header_value (drop (Suc ?i) ?l)) (req_headers req)\<rparr>)"
      by (subst setHeader_at) (auto simp: segment_def drop_take min_def)
    with False le assms show ?thesis
      using find_at_drop [of b 0 m] by (simp add: parseHeader_def header_spec_def Let_def)
  qed
qed

lemma find_bound: "i \<le> m \<Longrightarrow> m \<le> length s \<Longrightarrow> i + find_index c (drop i (take m s)) \<le> m"
  using find_index_le [of c "drop i (take m s)"] by simp

lemma plus_1_at:
  "ready b \<Longrightarrow> p < length (content b) \<Longrightarrow> bt_plus C b (iter_at b p) 1 = Some (iter_at b (Suc p))"
  using plus_at [of b p 1] by simp

lemma version_at:
  assumes "ready b" "m < length (content b)" "p \<le> m"
  shows "do { start \<leftarrow> bt_plus C b (iter_at b p) 1; setVersion C b start (iter_at b m) req } =
    (case drop p (take m (content b)) of [] \<Rightarrow> None | _ # ver \<Rightarrow> Some (version_spec ver req))"
proof (cases "p = m")
  case True
  with assms show ?thesis by (simp add: plus_1_at setVersion_backward)
next
  case False
  with assms have "drop p (take m (content b)) = content b ! p # drop (Suc p) (take m (content b))"
    by (simp add: Cons_nth_drop_Suc [symmetric])
  with assms False show ?thesis
    by (simp add: plus_1_at setVersion_at segment_def drop_take)
qed

lemma string_at_take:
  assumes "k \<le> p" "p \<le> m" "m \<le> length s"
  shows "segment k p s = take (p - k) (drop k (take m s))"
  using assms by (simp add: segment_def drop_take min_def)

lemma parseRequestLine_at:
  assumes r: "ready b" and m: "m < length (content b)"
  shows "parseRequestLine C b (iter_at b 0) (iter_at b m) req = request_line_spec (take m (content b)) req"
proof -
  define l where "l = take m (content b)"
  have len: "length l = m" using m by (simp add: l_def)
  define i where "i = find_index (CHR '' '') l"
  have i: "i \<le> m" using find_index_le [of "CHR '' ''" l] len by (simp add: i_def)
  have find0: "std_find C b (iter_at b 0) (iter_at b m) (CHR '' '') = Some (iter_at b i)"
    using find_at_drop [OF r, of 0 m] m by (simp add: i_def l_def)
  have meth: "setMethod C b (iter_at b 0) (iter_at b i) q = Some (method_spec (take i l) q)" for q
    using r m i by (simp add: setMethod_at segment_def l_def min_def)
  show ?thesis
  proof (cases "i = m \<or> \<not> fst (method_spec (take i l) req)")
    case True
    with find0 meth i r m len show ?thesis
      unfolding l_def [symmetric]
      by (auto simp: parseRequestLine_def request_line_spec_def i_def [symmetric] Let_def split_beta)
  next
    case False
    define req1 where "req1 = snd (method_spec (take i l) req)"
    define rest where "rest = drop (Suc i) l"
    define j where "j = find_index (CHR ''?'') rest"
    have lt: "i < m" and meth1: "method_spec (take i l) req = (True, req1)"
      using False i by (auto simp: req1_def prod_eq_iff)
    have lrest: "length rest = m - Suc i" by (simp add: rest_def len)
    have j: "Suc i + j \<le> m" using find_index_le [of "CHR ''?''" rest] lrest lt unfolding j_def by linarith
    have start: "bt_plus C b (iter_at b i) 1 = Some (iter_at b (Suc i))"
      using r m lt by (intro plus_1_at) auto
    have find1: "std_find C b (iter_at b (Suc i)) (iter_at b m) c = Some (iter_at b (Suc i + find_index c rest))" for c
      using find_at_drop [OF r, of "Suc i" m] m lt by (simp add: rest_def l_def)
    have pathto: "setPath C b (iter_at b (Suc i)) (iter_at b p) q = Some (True, q\<lparr>req_path := take (p - Suc i) rest\<rparr>)"
      if "Suc i \<le> p" "p \<le> m" for p q
      using r m that string_at_take [of "Suc i" p m "content b"] by (simp add: setPath_at rest_def l_def)
    note pre = parseRequestLine_def request_line_spec_def l_def [symmetric] i_def [symmetric]
      rest_def [symmetric] j_def [symmetric] find0 meth meth1 start find1
    show ?thesis
    proof (cases "Suc i + j = m")
      case True
      define k where "k = find_index (CHR '' '') rest"
      have k: "Suc i + k \<le> m" using find_index_le [of "CHR '' ''" rest] lrest lt unfolding k_def by linarith
      have tail: "drop (Suc i + k) l = drop k rest" by (simp add: rest_def add.commute)
      have "j = length rest" using True lrest by linarith
      then have "CHR ''?'' \<notin> set rest" by (simp add: j_def)
      then show ?thesis
        using True lt lrest len r m k version_at [OF r m k, of "req1\<lparr>req_path := take k rest\<rparr>"] tail
        by (simp add: pre pathto Let_def k_def [symmetric] l_def [symmetric])
    next
      case False
      define q where "q = drop (Suc j) rest"
      define k where "k = find_index (CHR '' '') q"
      have jl: "Suc i + j < m" using j False by linarith
      have lq: "length q = m - Suc (Suc i + j)" by (simp add: q_def lrest)
      have k: "Suc (Suc i + j) + k \<le> m" using find_index_le [of "CHR '' ''" q] lq jl unfolding k_def by linarith
      have start2: "bt_plus C b (iter_at b (Suc i + j)) 1 = Some (iter_at b (Suc (Suc i + j)))"
        using r m jl by (intro plus_1_at) auto
      have qdef: "drop (Suc (Suc i + j)) l = q" by (simp add: q_def rest_def add.commute)
      have find2: "std_find C b (iter_at b (Suc (Suc i + j))) (iter_at b m) (CHR '' '')
          = Some (iter_at b (Suc (Suc i + j) + k))"
        using find_at_drop [OF r, of "Suc (Suc i + j)" m] m jl qdef by (simp add: k_def l_def)
      have query: "setQuery C b (iter_at b (Suc (Suc i + j))) (iter_at b (Suc (Suc i + j) + k)) q' =
          Some (True, q'\<lparr>req_query := take k q\<rparr>)" for q'
        using r m k string_at_take [of "Suc (Suc i + j)" "Suc (Suc i + j) + k" m "content b"] qdef
        by (simp add: setQuery_at l_def)
      have tail: "drop (Suc (Suc i + j) + k) l = drop k q" by (simp add: qdef [symmetric] add.commute)
      have jr: "j \<noteq> length rest" using jl lrest by linarith
      then have "CHR ''?'' \<in> set rest" by (simp add: j_def)
      then show ?thesis
        using False lt len r m j jr version_at [OF r m k] tail start2 find2 query
        by (simp add: pre pathto Let_def k_def [symmetric] q_def [symmetric] l_def [symmetric])
    qed
  qed
qed

lemma parseOneLine_at:
  assumes r: "ready b" and m: "m < length (content b)" "content b ! m \<noteq> CHR '' ''"
  shows "parseOneLine nd C b (iter_at b 0) (iter_at b m) ctx = line_spec nd ctx (take m (content b))"
proof (cases "ctx_state ctx")
  case kExpectRequestLine
  then show ?thesis
    using r m
    by (cases "request_line_spec (take m (content b)) (ctx_request ctx)")
      (auto simp: parseOneLine_def line_spec_def parseRequestLine_at Let_def)
next
  case kExpectHeader
  have "iter_at b 0 = iter_at b m \<longleftrightarrow> take m (content b) = []"
    using r m by (auto dest: iter_at_inj)
  with kExpectHeader r m show ?thesis
    by (cases "expectBody nd (ctx_request ctx)")
      (auto simp: parseOneLine_def line_spec_def parseHeader_at Let_def split_beta)
qed (simp_all add: parseOneLine_def line_spec_def)

lemma crlf_at:
  assumes "search_index kCRLF s < length s"
  shows "s ! search_index kCRLF s \<noteq> CHR '' ''" "search_index kCRLF s + 2 \<le> length s"
proof -
  obtain ys where "drop (search_index kCRLF s) s = kCRLF @ ys"
    using search_index_prefix [OF assms] by blast
  then have "s ! search_index kCRLF s = CHR 0x0D"
    using assms by (metis append_Cons hd_drop_conv_nth kCRLF_def list.sel(1))
  then show "s ! search_index kCRLF s \<noteq> CHR '' ''" by simp
  show "search_index kCRLF s + 2 \<le> length s"
    using search_index_fits [OF assms] by (simp add: kCRLF_def)
qed

lemma parseRequest_at:
  assumes "ready b"
  shows "case parse_spec nd ctx (content b) of
      None \<Rightarrow> parseRequest nd C ctx b = None
    | Some (ok, ctx', rest) \<Rightarrow>
        \<exists>b'. parseRequest nd C ctx b = Some (ok, ctx', b') \<and> ready b' \<and> content b' = rest"
  using assms
proof (induction "length (content b)" arbitrary: b ctx rule: less_induct)
  case less
  let ?s = "content b" and ?k = "search_index kCRLF (content b)"
  have found: "std_search C b (bt_readerIter C b) (bt_end C b) kCRLF = Some (iter_at b ?k)"
    using less.prems std_search_at [of b 0 "length ?s" kCRLF]
    by (simp add: readerIter_at end_at segment_def)
  show ?case
  proof (cases "ctx_state ctx = kGotAll \<or> ?k = length ?s")
    case True
    then show ?thesis
      using less.prems found
      by (subst parse_spec.simps, subst parseRequest.simps)
        (auto simp: first_line_def Let_def end_at)
  next
    case False
    then have lt: "?k < length ?s" using search_index_le [of kCRLF ?s] by linarith
    note crlf = crlf_at [OF lt]
    have ne: "iter_at b ?k \<noteq> bt_end C b"
      using less.prems lt by (simp add: end_at)
    have one: "parseOneLine nd C b (bt_readerIter C b) (iter_at b ?k) ctx = line_spec nd ctx (take ?k ?s)"
      using less.prems lt crlf(1) by (simp add: readerIter_at parseOneLine_at)
    have fl: "first_line ?s = Some (take ?k ?s, drop (?k + 2) ?s)"
      using lt by (simp add: first_line_def Let_def)
    have plus: "bt_plus C b (iter_at b ?k) 2 = Some (iter_at b (?k + 2))"
      using plus_at [OF less.prems lt, of 2] crlf(2) by simp
    obtain b1 where b1: "bt_readUntil C (iter_at b (?k + 2)) b = Some (True, b1)" "ready b1"
      "content b1 = drop (?k + 2) ?s"
      using readUntil_at [OF less.prems crlf(2)] by blast
    have IH: "case parse_spec nd ctx' (content b1) of
        None \<Rightarrow> parseRequest nd C ctx' b1 = None
      | Some (ok, ctx'', rest) \<Rightarrow>
          \<exists>b'. parseRequest nd C ctx' b1 = Some (ok, ctx'', b') \<and> ready b' \<and> content b' = rest" for ctx'
      using less.hyps [of b1 ctx'] b1(2,3) lt by simp
    have step: "parseRequest nd C ctx b =
        (case line_spec nd ctx (take ?k ?s) of
           None \<Rightarrow> None
         | Some (ok, ctx') \<Rightarrow> if ok then parseRequest nd C ctx' b1 else Some (False, ctx', b))"
      using False plus b1(1)
      by (subst parseRequest.simps) (auto simp: found ne one split: option.split)
    have spec: "parse_spec nd ctx ?s =
        (case line_spec nd ctx (take ?k ?s) of
           None \<Rightarrow> None
         | Some (ok, ctx') \<Rightarrow> if ok then parse_spec nd ctx' (content b1) else Some (False, ctx', ?s))"
      unfolding b1(3) using False by (subst parse_spec.simps) (simp add: fl split: option.split)
    show ?thesis
    proof (cases "line_spec nd ctx (take ?k ?s)")
      case (Some r)
      obtain ok ctx' where r: "r = (ok, ctx')" by (cases r)
      show ?thesis
      proof (cases ok)
        case True
        then have eqs: "parseRequest nd C ctx b = parseRequest nd C ctx' b1"
          "parse_spec nd ctx ?s = parse_spec nd ctx' (content b1)"
          using Some r by (simp_all add: step spec)
        show ?thesis unfolding eqs by (rule IH)
      next
        case False
        with Some r less.prems show ?thesis by (simp add: step spec)
      qed
    qed (simp add: step spec)
  qed
qed

text \<open>The result with the buffer read as its content.\<close>

lemma parseRequest_refines:
  assumes "ready b"
  shows "map_option (\<lambda>(ok, ctx', b'). (ok, ctx', content b')) (parseRequest nd C ctx b) =
    parse_spec nd ctx (content b)"
  using parseRequest_at [OF assms, of nd ctx] by (auto split: option.splits)

lemma parseRequest_SomeI:
  assumes "ready b" and "parse_spec nd ctx (content b) = Some (ok, ctx', rest)"
  shows "\<exists>b'. parseRequest nd C ctx b = Some (ok, ctx', b') \<and> ready b' \<and> content b' = rest"
  using parseRequest_at [OF assms(1), of nd ctx] assms(2) by simp

lemma parseRequest_NoneI:
  assumes "ready b" and "parse_spec nd ctx (content b) = None"
  shows "parseRequest nd C ctx b = None"
  using parseRequest_at [OF assms(1), of nd ctx] assms(2) by simp

end

section \<open>Lines\<close>

lemma search_index_append:
  assumes "search_index pat s < length s"
  shows "search_index pat (s @ t) = search_index pat s"
proof -
  let ?i = "search_index pat s"
  have fits: "?i + length pat \<le> length s" using assms by (rule search_index_fits)
  have "first_index (prefix pat) (s @ t) = ?i"
  proof (rule first_indexI)
    show "?i \<le> length (s @ t)" using assms by simp
    show "prefix pat (drop ?i (s @ t))"
      using first_index_holds [of "prefix pat" s] assms
      by (auto simp: search_index_def intro: prefix_order.trans)
    fix j assume j: "j < ?i"
    then have "\<not> prefix pat (drop j s)"
      using first_index_least [of j "prefix pat" s] by (simp add: search_index_def)
    moreover have "prefix pat (drop j s @ t) \<Longrightarrow> prefix pat (drop j s)"
      by (erule prefix_length_prefix) (use j fits in auto)
    ultimately show "\<not> prefix pat (drop j (s @ t))"
      using j fits by auto
  qed
  then show ?thesis by (simp add: search_index_def)
qed

lemma first_line_append:
  "first_line s = Some (line, rest) \<Longrightarrow> first_line (s @ t) = Some (line, rest @ t)"
proof -
  assume a: "first_line s = Some (line, rest)"
  let ?k = "search_index kCRLF s"
  from a have "?k \<noteq> length s" by (auto simp: first_line_def Let_def split: if_splits)
  then have lt: "?k < length s" using search_index_le [of kCRLF s] by linarith
  then have "?k + 2 \<le> length s" using search_index_fits [OF lt] by (simp add: kCRLF_def)
  with a lt search_index_append [OF lt, of t] show ?thesis
    by (auto simp: first_line_def Let_def split: if_splits)
qed

lemma first_line_CRLF:
  assumes "CHR 0x0D \<notin> set line"
  shows "first_line (line @ kCRLF @ rest) = Some (line, rest)"
proof -
  have "first_index (prefix kCRLF) (line @ kCRLF @ rest) = length line"
  proof (rule first_indexI)
    fix j assume "j < length line"
    then have "drop j (line @ kCRLF @ rest) = line ! j # drop (Suc j) line @ kCRLF @ rest"
      by (simp add: Cons_nth_drop_Suc)
    moreover have "line ! j \<noteq> CHR 0x0D"
      using assms \<open>j < length line\<close> nth_mem by metis
    ultimately show "\<not> prefix kCRLF (drop j (line @ kCRLF @ rest))"
      by (simp add: kCRLF_def)
  qed simp_all
  then show ?thesis
    by (simp add: first_line_def search_index_def Let_def) (simp add: kCRLF_def)
qed

text \<open>The parser may be stopped after any byte and resumed when more bytes have arrived.\<close>

lemma parse_spec_resume:
  "parse_spec nd ctx (s @ t) =
    (case parse_spec nd ctx s of
       None \<Rightarrow> None
     | Some (ok, ctx1, r) \<Rightarrow> if ok then parse_spec nd ctx1 (r @ t) else Some (False, ctx1, r @ t))"
proof (induction nd ctx s rule: parse_spec.induct)
  case (1 nd ctx s)
  show ?case
  proof (cases "ctx_state ctx = kGotAll \<or> first_line s = None")
    case True
    then show ?thesis by (auto simp: parse_spec.simps [of nd ctx s])
  next
    case False
    then obtain line rest where fl: "first_line s = Some (line, rest)" by auto
    note unf = parse_spec.simps [of nd ctx s] parse_spec.simps [of nd ctx "s @ t"]
    show ?thesis
    proof (cases "line_spec nd ctx line")
      case None
      with False fl first_line_append [OF fl] show ?thesis by (simp add: unf)
    next
      case (Some r)
      obtain ok ctx' where l: "line_spec nd ctx line = Some (ok, ctx')" using Some by (cases r) simp
      show ?thesis
      proof (cases ok)
        case True
        with "1.IH" [OF _ fl refl l refl] False fl l first_line_append [OF fl] show ?thesis by (simp add: unf)
      next
        case notok: False
        with False fl l first_line_append [OF fl] show ?thesis by (simp add: unf)
      qed
    qed
  qed
qed

lemma parse_spec_append:
  "parse_spec nd ctx s = Some (True, ctx1, r) \<Longrightarrow> parse_spec nd ctx (s @ t) = parse_spec nd ctx1 (r @ t)"
  by (simp add: parse_spec_resume)

lemma parse_spec_line:
  assumes "ctx_state ctx \<noteq> kGotAll" and "CHR 0x0D \<notin> set line"
  shows "parse_spec nd ctx (line @ kCRLF @ rest) =
    (case line_spec nd ctx line of
       None \<Rightarrow> None
     | Some (ok, ctx') \<Rightarrow> if ok then parse_spec nd ctx' rest else Some (False, ctx', line @ kCRLF @ rest))"
  using assms first_line_CRLF [OF assms(2), of rest]
  by (simp add: parse_spec.simps [of nd ctx "line @ kCRLF @ rest"])

end
