(* ===== verification/Http_Parser.thy ===== *)
theory Http_Parser
  imports Http_Context
begin

text \<open>
  What the request parser does with whole requests, for both buffer classes the server
  is instantiated with: the template computes one function of the bytes received, the
  way the bytes are cut into reads does not matter, a request in the usual wire form is
  read back field by field, and the inputs on which the parser goes wrong.
\<close>

section \<open>Requests on the wire\<close>

definition render_line :: "string \<Rightarrow> string \<Rightarrow> string option \<Rightarrow> string \<Rightarrow> string" where
  "render_line m path q v =
     m @ '' '' @ path @ (case q of None \<Rightarrow> [] | Some s \<Rightarrow> CHR ''?'' # s) @ '' '' @ gHttpPrefix @ v"

definition render_header :: "string \<times> string \<Rightarrow> string" where
  "render_header h = fst h @ '': '' @ snd h"

definition render_headers :: "(string \<times> string) list \<Rightarrow> string" where
  "render_headers hs = concat (map (\<lambda>h. render_header h @ kCRLF) hs)"

definition render_request ::
  "string \<Rightarrow> string \<Rightarrow> string option \<Rightarrow> string \<Rightarrow> (string \<times> string) list \<Rightarrow> string" where
  "render_request m path q v hs = render_line m path q v @ kCRLF @ render_headers hs @ [] @ kCRLF"

text \<open>Which texts can stand where: no separator inside a field, no carriage return.\<close>

definition path_ok :: "string \<Rightarrow> bool" where
  "path_ok s \<longleftrightarrow> CHR '' '' \<notin> set s \<and> CHR ''?'' \<notin> set s \<and> CHR 0x0D \<notin> set s"

definition query_ok :: "string option \<Rightarrow> bool" where
  "query_ok q \<longleftrightarrow> (case q of None \<Rightarrow> True | Some s \<Rightarrow> CHR '' '' \<notin> set s \<and> CHR 0x0D \<notin> set s)"

definition header_ok :: "string \<times> string \<Rightarrow> bool" where
  "header_ok h \<longleftrightarrow>
     CHR '':'' \<notin> set (fst h) \<and> CHR 0x0D \<notin> set (fst h) \<and> CHR 0x0D \<notin> set (snd h) \<and>
     (snd h = [] \<or> hd (snd h) \<noteq> CHR '' '')"

definition headers_ok :: "(string \<times> string) list \<Rightarrow> bool" where
  "headers_ok hs \<longleftrightarrow> list_all header_ok hs \<and> distinct (map fst hs)"

definition request_of ::
  "string \<Rightarrow> string \<Rightarrow> string option \<Rightarrow> string \<Rightarrow> (string \<times> string) list \<Rightarrow> http_request" where
  "request_of m path q v hs =
     \<lparr>req_method = HttpMethods ! vec_find gHttpMethods m,
      req_version = HttpVersions ! vec_find gHttpVersions v,
      req_path = path, req_query = (case q of None \<Rightarrow> [] | Some s \<Rightarrow> s),
      req_headers = map_of hs, req_body = []\<rparr>"

section \<open>Lines of a rendered request\<close>

lemma render_request_nonempty [simp]: "render_request m path q v hs \<noteq> []"
  by (simp add: render_request_def kCRLF_def)

lemma method_chars: "m \<in> set gHttpMethods \<Longrightarrow> CHR '' '' \<notin> set m \<and> CHR 0x0D \<notin> set m"
  by (auto simp: gHttpMethods_def)

lemma version_chars: "v \<in> set gHttpVersions \<Longrightarrow> CHR '' '' \<notin> set v \<and> CHR 0x0D \<notin> set v \<and> CHR ''?'' \<notin> set v"
  by (auto simp: gHttpVersions_def)

lemma prefix_chars: "CHR '' '' \<notin> set gHttpPrefix" "CHR 0x0D \<notin> set gHttpPrefix" "CHR ''?'' \<notin> set gHttpPrefix"
  by (simp_all add: gHttpPrefix_def)

lemma method_spec_known:
  "m \<in> set gHttpMethods \<Longrightarrow> method_spec m req = (True, req\<lparr>req_method := HttpMethods ! vec_find gHttpMethods m\<rparr>)"
  using vec_find_less [of gHttpMethods m] by (simp add: method_spec_def Let_def)

lemma version_spec_known:
  assumes "v \<in> set gHttpVersions"
  shows "version_spec (gHttpPrefix @ v) req = (True, req\<lparr>req_version := HttpVersions ! vec_find gHttpVersions v\<rparr>)"
proof -
  have "search_index gHttpPrefix (gHttpPrefix @ v) = 0"
    unfolding search_index_def by (rule first_indexI) simp_all
  then show ?thesis
    using assms vec_find_less [of gHttpVersions v]
    by (simp add: version_spec_def Let_def) (simp add: gHttpPrefix_def)
qed

lemma request_line_rendered:
  assumes "m \<in> set gHttpMethods" and "path_ok path" and "query_ok q" and "v \<in> set gHttpVersions"
  shows "request_line_spec (render_line m path q v) req =
    Some (True, req\<lparr>req_method := HttpMethods ! vec_find gHttpMethods m, req_path := path,
      req_query := (case q of None \<Rightarrow> req_query req | Some s \<Rightarrow> s),
      req_version := HttpVersions ! vec_find gHttpVersions v\<rparr>)"
  using assms method_chars [OF assms(1)] version_chars [OF assms(4)] prefix_chars
  by (cases q) (simp_all add: request_line_spec_def render_line_def path_ok_def query_ok_def
      method_spec_known version_spec_known Let_def)

lemma header_rendered:
  assumes "header_ok h"
  shows "header_spec (render_header h) req =
    (True, req\<lparr>req_headers := map_emplace (fst h) (snd h) (req_headers req)\<rparr>)"
proof -
  have "header_value ('' '' @ snd h) = snd h"
    using assms by (cases "snd h") (auto simp: header_value_def header_ok_def)
  with assms show ?thesis
    by (simp add: header_spec_def render_header_def header_ok_def Let_def)
qed

lemma render_chars:
  "m \<in> set gHttpMethods \<Longrightarrow> path_ok path \<Longrightarrow> query_ok q \<Longrightarrow> v \<in> set gHttpVersions \<Longrightarrow>
   CHR 0x0D \<notin> set (render_line m path q v)"
  "header_ok h \<Longrightarrow> CHR 0x0D \<notin> set (render_header h) \<and> render_header h \<noteq> []"
  using method_chars version_chars prefix_chars
  by (auto simp: render_line_def path_ok_def query_ok_def render_header_def header_ok_def split: option.splits)

text \<open>The headers of a request, read into whatever the request already holds.\<close>

definition add_headers :: "(string \<times> string) list \<Rightarrow> http_request \<Rightarrow> http_request" where
  "add_headers hs req =
     req\<lparr>req_headers := fold (\<lambda>(k, v). map_emplace k v) hs (req_headers req)\<rparr>"

lemma add_headers_method [simp]: "req_method (add_headers hs req) = req_method req"
  by (simp add: add_headers_def)

lemma parse_headers:
  assumes "list_all header_ok hs" and "ctx_state ctx = kExpectHeader"
  shows "parse_spec nd ctx (render_headers hs @ t) =
    parse_spec nd (ctx\<lparr>ctx_request := add_headers hs (ctx_request ctx)\<rparr>) t"
  using assms
proof (induction hs arbitrary: ctx)
  case Nil
  then show ?case by (simp add: render_headers_def add_headers_def)
next
  case (Cons h hs)
  let ?req = "(ctx_request ctx)\<lparr>req_headers := map_emplace (fst h) (snd h) (req_headers (ctx_request ctx))\<rparr>"
  have "parse_spec nd ctx (render_headers (h # hs) @ t) =
      parse_spec nd (ctx\<lparr>ctx_request := ?req\<rparr>) (render_headers hs @ t)"
    using Cons.prems render_chars(2) [of h]
      parse_spec_line [of ctx "render_header h" nd "render_headers hs @ t"]
    by (simp add: line_spec_def header_rendered render_headers_def)
  also have "\<dots> = parse_spec nd (ctx\<lparr>ctx_request := add_headers hs ?req\<rparr>) t"
    using Cons.prems by (subst Cons.IH) simp_all
  finally show ?case by (simp add: add_headers_def split_beta)
qed

lemma fold_emplace_distinct:
  "distinct (map fst hs) \<Longrightarrow> \<forall>k \<in> fst ` set hs. m k = None \<Longrightarrow>
   fold (\<lambda>(k, v). map_emplace k v) hs m = m ++ map_of hs"
proof (induction hs arbitrary: m)
  case (Cons h hs)
  have "fold (\<lambda>(k, v). map_emplace k v) hs (m(fst h \<mapsto> snd h)) = m(fst h \<mapsto> snd h) ++ map_of hs"
    using Cons.prems by (intro Cons.IH) (auto simp: image_iff)
  moreover have "m(fst h \<mapsto> snd h) ++ map_of hs = m ++ map_of (h # hs)"
  proof -
    have "map_of hs (fst h) = None" using Cons.prems(1) by (simp add: map_of_eq_None_iff)
    then show ?thesis by (cases h) (auto simp: map_add_def fun_eq_iff split: option.split)
  qed
  ultimately show ?case using Cons.prems(2) by (cases h) (simp add: fun_upd_def)
qed simp

text \<open>
  The request object the parser fills is the one of the request before: a request without a
  query keeps the query, and headers are only added.
\<close>

definition next_request ::
  "http_request \<Rightarrow> string \<Rightarrow> string \<Rightarrow> string option \<Rightarrow> string \<Rightarrow> (string \<times> string) list \<Rightarrow> http_request" where
  "next_request old m path q v hs = add_headers hs
     (old\<lparr>req_method := HttpMethods ! vec_find gHttpMethods m, req_path := path,
       req_query := (case q of None \<Rightarrow> req_query old | Some s \<Rightarrow> s),
       req_version := HttpVersions ! vec_find gHttpVersions v\<rparr>)"

lemma next_request_new: "headers_ok hs \<Longrightarrow> next_request HTTPRequest_new m path q v hs = request_of m path q v hs"
  by (simp add: next_request_def add_headers_def HTTPRequest_new_def request_of_def headers_ok_def fold_emplace_distinct
      split: option.split)

lemma parse_rendered_next:
  assumes "m \<in> set gHttpMethods" and "path_ok path" and "query_ok q" and "v \<in> set gHttpVersions"
    and "list_all header_ok hs" and "m \<noteq> ''POST''"
  shows "parse_spec nd \<lparr>ctx_state = kExpectRequestLine, ctx_request = old\<rparr> (render_request m path q v hs @ rest) =
    Some (True, \<lparr>ctx_state = kGotAll, ctx_request = next_request old m path q v hs\<rparr>, rest)"
proof -
  let ?o = "\<lparr>ctx_state = kExpectRequestLine, ctx_request = old\<rparr>"
  let ?c = "\<lparr>ctx_state = kExpectHeader, ctx_request = next_request old m path q v []\<rparr>"
  have "parse_spec nd ?o (render_request m path q v hs @ rest) = parse_spec nd ?c (render_headers hs @ [] @ kCRLF @ rest)"
    using assms(1-4) parse_spec_line [of ?o "render_line m path q v" nd "render_headers hs @ kCRLF @ rest"]
    by (simp add: render_request_def render_chars line_spec_def request_line_rendered next_request_def add_headers_def
        split: option.split)
  also have "\<dots> = parse_spec nd (?c\<lparr>ctx_request := add_headers hs (ctx_request ?c)\<rparr>) ([] @ kCRLF @ rest)"
    using assms(5) by (intro parse_headers) simp_all
  also have "add_headers hs (ctx_request ?c) = next_request old m path q v hs"
    by (simp add: next_request_def add_headers_def)
  finally have eq: "parse_spec nd ?o (render_request m path q v hs @ rest) =
      parse_spec nd (?c\<lparr>ctx_request := next_request old m path q v hs\<rparr>) ([] @ kCRLF @ rest)" .
  have "req_method (next_request old m path q v hs) \<noteq> kInvalid \<and> req_method (next_request old m path q v hs) \<noteq> kPost"
    using assms(1,6) by (auto simp: next_request_def gHttpMethods_def HttpMethods_def vec_find_def)
  then show ?thesis
    unfolding eq by (subst parse_spec_line)
      (simp_all add: line_spec_def expectBody_def parse_spec.simps)
qed

lemma parse_rendered:
  assumes "m \<in> set gHttpMethods" and "path_ok path" and "query_ok q" and "v \<in> set gHttpVersions"
    and "headers_ok hs" and "m \<noteq> ''POST''"
  shows "parse_spec nd HTTPContext_new (render_request m path q v hs @ rest) =
    Some (True, \<lparr>ctx_state = kGotAll, ctx_request = request_of m path q v hs\<rparr>, rest)"
  using parse_rendered_next [OF assms(1-4) _ assms(6), of hs nd HTTPRequest_new rest] assms(5)
  by (simp add: HTTPContext_new_def next_request_new) (simp add: headers_ok_def)

section \<open>Invariants of the parser\<close>

text \<open>
  A header once stored is never replaced, by no input: \<open>emplace\<close> keeps the old value and
  nothing clears the table.
\<close>

lemma method_spec_headers: "req_headers (snd (method_spec s req)) = req_headers req"
  by (simp add: method_spec_def Let_def)

lemma version_spec_headers: "req_headers (snd (version_spec s req)) = req_headers req"
  by (simp add: version_spec_def Let_def)

lemma request_line_headers:
  "request_line_spec line req = Some (ok, req') \<Longrightarrow> req_headers req' = req_headers req"
  using method_spec_headers version_spec_headers
  by (auto simp: request_line_spec_def Let_def split_beta split: if_splits list.splits
      dest!: arg_cong [of _ _ snd])

lemma line_keeps_header:
  assumes "line_spec nd ctx line = Some (ok, ctx')" and "req_headers (ctx_request ctx) k = Some v"
  shows "req_headers (ctx_request ctx') k = Some v"
proof (cases "ctx_state ctx")
  case kExpectRequestLine
  with assms show ?thesis by (auto simp: line_spec_def dest: request_line_headers)
next
  case kExpectHeader
  with assms show ?thesis
    by (auto simp: line_spec_def header_spec_def map_emplace_def Let_def split: if_splits)
qed (use assms in \<open>auto simp: line_spec_def\<close>)

lemma parse_keeps_header:
  "parse_spec nd ctx s = Some (ok, ctx', r) \<Longrightarrow> req_headers (ctx_request ctx) k = Some v \<Longrightarrow>
   req_headers (ctx_request ctx') k = Some v"
proof (induction nd ctx s rule: parse_spec.induct)
  case (1 nd ctx s)
  show ?case
  proof (cases "ctx_state ctx = kGotAll \<or> first_line s = None")
    case True
    with "1.prems" show ?thesis by (auto simp: parse_spec.simps [of nd ctx s] split: if_splits)
  next
    case False
    then obtain line rest where fl: "first_line s = Some (line, rest)" by auto
    with False "1.prems" obtain o' ctx1 where l: "line_spec nd ctx line = Some (o', ctx1)"
      by (auto simp: parse_spec.simps [of nd ctx s] split: option.splits if_splits)
    have k: "req_headers (ctx_request ctx1) k = Some v"
      using line_keeps_header [OF l "1.prems"(2)] .
    show ?thesis
      using "1.IH" [OF _ fl refl l refl] False fl l k "1.prems"(1)
      by (auto simp: parse_spec.simps [of nd ctx s] split: if_splits)
  qed
qed

section \<open>Properties\<close>

text \<open>
  C7: the request parser is one function of the bytes in the buffer. For a
  \<open>net::Buffer\<close> and for a \<open>net::LinkedBuffer\<close> whose iterators can be used, the loop of
  \<open>parseRequest\<close> ends, with the result, the context and the unread bytes that
  \<open>parse_spec\<close> computes from the content, and is undefined exactly where \<open>parse_spec\<close> is.
\<close>

theorem parseRequest_both_buffers:
  assumes "Buffer_inv b" and "lb_ready l"
  shows "map_option (\<lambda>(ok, ctx', b'). (ok, ctx', Buffer_content b')) (parseRequest nd Buffer_type ctx b)
      = parse_spec nd ctx (Buffer_content b)
    \<and> map_option (\<lambda>(ok, ctx', l'). (ok, ctx', lb_content l')) (parseRequest nd LinkedBuffer_type ctx l)
      = parse_spec nd ctx (lb_content l)"
  using buf_in.parseRequest_refines [OF assms(1)] linked_in.parseRequest_refines [OF assms(2)] by simp

definition wit_buffer :: "string \<Rightarrow> buffer" where
  "wit_buffer s = \<lparr>buffer_vec = replicate 8 NUL @ s, reader_index = 8, writer_index = 8 + length s\<rparr>"

definition wit_linked :: "string \<Rightarrow> linked_buffer" where
  "wit_linked s =
     \<lparr>lb_nodes = [\<lparr>node_chars = s, node_capacity = max 1024 (length s)\<rparr>], lb_first = 0,
      reader_iter = \<lparr>node_iter = Some 0, char_iter = Some 0\<rparr>\<rparr>"

lemma wit_buffer_ok: "Buffer_inv (wit_buffer s)" "Buffer_content (wit_buffer s) = s"
  by (simp_all add: wit_buffer_def Buffer_inv_def Buffer_content_def kPrependSize_def)

lemma wit_linked_ok: "s \<noteq> [] \<Longrightarrow> lb_ready (wit_linked s)" "lb_content (wit_linked s) = s"
  by (simp_all add: wit_linked_def lb_ready_def lb_in_inv_def lb_inv_def lb_fits_def lb_caps_def
      kMinNodeSize_def lb_content_def)

theorem parseRequest_both_buffers_witness:
  "map_option (\<lambda>(ok, ctx', b'). (ok, ctx', Buffer_content b'))
     (parseRequest True Buffer_type HTTPContext_new (wit_buffer ''GET /'')) =
   map_option (\<lambda>(ok, ctx', l'). (ok, ctx', lb_content l'))
     (parseRequest True LinkedBuffer_type HTTPContext_new (wit_linked ''GET /''))"
  using parseRequest_both_buffers [of "wit_buffer ''GET /''" "wit_linked ''GET /''" True HTTPContext_new]
  by (simp add: wit_buffer_ok wit_linked_ok)

text \<open>
  C11: how the network cuts the bytes into reads does not matter. When the parser has
  consumed what it could of a first part and is resumed with a second part behind the
  unread bytes, it ends in the result, context and unread bytes it reaches on both parts
  at once; shown for \<open>net::LinkedBuffer\<close>, which keeps the two parts in different nodes or
  in one.
\<close>

theorem parseRequest_fragmentation:
  assumes "lb_ready l" and "parseRequest nd LinkedBuffer_type ctx l = Some (True, ctx1, l1)"
    and "lb_ready l2" and "lb_content l2 = lb_content l1 @ t"
    and "lb_ready whole" and "lb_content whole = lb_content l @ t"
  shows "map_option (\<lambda>(ok, c, l'). (ok, c, lb_content l')) (parseRequest nd LinkedBuffer_type ctx1 l2) =
    map_option (\<lambda>(ok, c, l'). (ok, c, lb_content l')) (parseRequest nd LinkedBuffer_type ctx whole)"
proof -
  have "parse_spec nd ctx (lb_content l) = Some (True, ctx1, lb_content l1)"
    using linked_in.parseRequest_refines [OF assms(1), of nd ctx] assms(2) by simp
  then have "parse_spec nd ctx (lb_content whole) = parse_spec nd ctx1 (lb_content l2)"
    using parse_spec_append assms(4,6) by simp
  then show ?thesis
    using linked_in.parseRequest_refines [OF assms(3)] linked_in.parseRequest_refines [OF assms(5)] by simp
qed

theorem parseRequest_fragmentation_witness:
  "\<exists>l1. parseRequest True LinkedBuffer_type HTTPContext_new (wit_linked ''GET /'') =
      Some (True, HTTPContext_new, l1) \<and>
    map_option (\<lambda>(ok, c, l'). (ok, c, lb_content l'))
      (parseRequest True LinkedBuffer_type HTTPContext_new (wit_linked (lb_content l1 @ '' HTTP/1.1''))) =
    map_option (\<lambda>(ok, c, l'). (ok, c, lb_content l'))
      (parseRequest True LinkedBuffer_type HTTPContext_new (wit_linked ''GET / HTTP/1.1''))"
proof -
  have r: "lb_ready (wit_linked ''GET /'')" by (simp add: wit_linked_ok)
  have "parse_spec True HTTPContext_new (lb_content (wit_linked ''GET /'')) = Some (True, HTTPContext_new, ''GET /'')"
    by (simp add: wit_linked_ok parse_spec.simps HTTPContext_new_def first_line_def search_index_def kCRLF_def)
  from linked_in.parseRequest_SomeI [OF r this] obtain l1 where
    l1: "parseRequest True LinkedBuffer_type HTTPContext_new (wit_linked ''GET /'') = Some (True, HTTPContext_new, l1)"
    by blast
  from parseRequest_fragmentation [OF r l1, of "wit_linked (lb_content l1 @ '' HTTP/1.1'')" "'' HTTP/1.1''"
      "wit_linked ''GET / HTTP/1.1''"] l1
  show ?thesis by (simp add: wit_linked_ok)
qed

text \<open>
  C12: a rendered request is read back field by field. On a buffer that holds a request
  with a known method other than POST, a path, an optional query, a known version and
  headers with distinct names, followed by any bytes, a fresh context finishes with
  exactly that request and leaves exactly the following bytes unread, in both buffers.
\<close>

theorem parse_rendered_request:
  assumes "m \<in> set gHttpMethods" and "m \<noteq> ''POST''" and "path_ok path" and "query_ok q"
    and "v \<in> set gHttpVersions" and "headers_ok hs"
    and "Buffer_inv b" and "Buffer_content b = render_request m path q v hs @ rest"
    and "lb_ready l" and "lb_content l = render_request m path q v hs @ rest"
  shows "(\<exists>b'. parseRequest nd Buffer_type HTTPContext_new b =
      Some (True, \<lparr>ctx_state = kGotAll, ctx_request = request_of m path q v hs\<rparr>, b') \<and>
      Buffer_inv b' \<and> Buffer_content b' = rest)
    \<and> (\<exists>l'. parseRequest nd LinkedBuffer_type HTTPContext_new l =
      Some (True, \<lparr>ctx_state = kGotAll, ctx_request = request_of m path q v hs\<rparr>, l') \<and>
      lb_ready l' \<and> lb_content l' = rest)"
  using buf_in.parseRequest_SomeI [OF assms(7)] linked_in.parseRequest_SomeI [OF assms(9)]
    parse_rendered [OF assms(1,3,4,5,6,2)] assms(8,10) by simp


theorem parse_rendered_request_witness:
  "(\<exists>b'. parseRequest True Buffer_type HTTPContext_new
      (wit_buffer (render_request ''GET'' ''/hello'' (Some ''a=1'') ''1.1'' [(''Host'', ''x'')] @ ''rest'')) =
      Some (True, \<lparr>ctx_state = kGotAll,
        ctx_request = request_of ''GET'' ''/hello'' (Some ''a=1'') ''1.1'' [(''Host'', ''x'')]\<rparr>, b') \<and>
      Buffer_content b' = ''rest'')
   \<and> req_headers (request_of ''GET'' ''/hello'' (Some ''a=1'') ''1.1'' [(''Host'', ''x'')]) ''Host'' = Some ''x''"
  using parse_rendered_request [of "''GET''" "''/hello''" "Some ''a=1''" "''1.1''" "[(''Host'', ''x'')]"
      "wit_buffer (render_request ''GET'' ''/hello'' (Some ''a=1'') ''1.1'' [(''Host'', ''x'')] @ ''rest'')" "''rest''"
      "wit_linked (render_request ''GET'' ''/hello'' (Some ''a=1'') ''1.1'' [(''Host'', ''x'')] @ ''rest'')" True]
  by (auto simp: wit_buffer_ok wit_linked_ok gHttpMethods_def gHttpVersions_def path_ok_def query_ok_def
      headers_ok_def header_ok_def request_of_def)

text \<open>
  C39: nothing replaces a header once it is stored. Whatever bytes arrive, also after
  \<open>resetState\<close> has prepared the context for the next request of the connection, a header
  that the request object holds keeps the value of the first request that sent it: a
  later request on a kept-alive connection is seen with the header values of an earlier
  one.
\<close>

theorem header_survives_reset:
  assumes "Buffer_inv b" and "req_headers (ctx_request ctx) k = Some v"
    and "parseRequest nd Buffer_type (resetState ctx) b = Some (ok, ctx', b')"
  shows "req_headers (ctx_request ctx') k = Some v"
proof -
  have "parse_spec nd (resetState ctx) (Buffer_content b) = Some (ok, ctx', Buffer_content b')"
    using buf_in.parseRequest_refines [OF assms(1), of nd "resetState ctx"] assms(3) by simp
  then show ?thesis
    by (rule parse_keeps_header) (simp add: resetState_def assms(2))
qed

text \<open>The second request on the connection asks to close it; the stored header says otherwise.\<close>

definition wit_second :: http_context where
  "wit_second = \<lparr>ctx_state = kGotAll, ctx_request = request_of ''GET'' ''/'' None ''1.1'' [(''Connection'', ''Keep-Alive'')]\<rparr>"

lemma second_request_runs:
  "\<exists>ctx' b'. parseRequest True Buffer_type (resetState wit_second)
     (wit_buffer (render_request ''GET'' ''/'' None ''1.1'' [(''Connection'', ''close'')])) = Some (True, ctx', b')"
proof -
  let ?s = "render_line ''GET'' ''/'' None ''1.1'' @ kCRLF @ render_headers [(''Connection'', ''close'')] @ kCRLF"
  have ok: "''GET'' \<in> set gHttpMethods" "path_ok ''/''" "query_ok None" "''1.1'' \<in> set gHttpVersions"
    by (simp_all add: gHttpMethods_def path_ok_def query_ok_def gHttpVersions_def)
  have "\<exists>ctx' r. parse_spec True (resetState wit_second) (?s @ []) = Some (True, ctx', r)"
    using parse_spec_line [of "resetState wit_second" "render_line ''GET'' ''/'' None ''1.1''" True
        "render_headers [(''Connection'', ''close'')] @ kCRLF"] render_chars(1) [OF ok]
      parse_spec_line [where line = "[]" and rest = "[]" and nd = True]
    by (simp add: line_spec_def request_line_rendered [OF ok] resetState_def parse_headers header_ok_def
        expectBody_def parse_spec.simps [of _ _ "[]"] HttpMethods_def vec_find_def gHttpMethods_def)
  then obtain ctx' r where "parse_spec True (resetState wit_second) (Buffer_content (wit_buffer ?s)) = Some (True, ctx', r)"
    by (auto simp: wit_buffer_ok)
  from buf_in.parseRequest_SomeI [OF wit_buffer_ok(1) this] show ?thesis
    by (auto simp: render_request_def)
qed

theorem header_survives_reset_witness:
  "\<exists>ctx' b'. parseRequest True Buffer_type (resetState wit_second)
     (wit_buffer (render_request ''GET'' ''/'' None ''1.1'' [(''Connection'', ''close'')])) = Some (True, ctx', b')
     \<and> req_headers (ctx_request ctx') ''Connection'' = Some ''Keep-Alive''"
  using second_request_runs header_survives_reset [OF wit_buffer_ok(1), of wit_second "''Connection''" "''Keep-Alive''"]
  by (fastforce simp: wit_second_def request_of_def)

text \<open>
  A request line is safe when the parser does not run past its end: it is refused for its method,
  or a space follows the path and query.
\<close>

definition safe_line :: "string \<Rightarrow> bool" where
  "safe_line l \<longleftrightarrow>
     (let i = find_index (CHR '' '') l; rest = drop (Suc i) l in
      CHR '' '' \<notin> set l \<or> take i l \<notin> set gHttpMethods \<or>
      CHR '' '' \<in> set (if CHR ''?'' \<in> set rest then drop (Suc (find_index (CHR ''?'') rest)) rest else rest))"

definition safe_input :: "string \<Rightarrow> bool" where
  "safe_input s \<longleftrightarrow> (case first_line s of None \<Rightarrow> True | Some (line, rest) \<Rightarrow> safe_line line)"

lemma drop_find_Nil: "drop (find_index c s) s = [] \<longleftrightarrow> c \<notin> set s"
  using drop_find_index_Cons [of c s] by (cases "c \<in> set s") auto

lemma method_spec_ok: "fst (method_spec s req) \<longleftrightarrow> s \<in> set gHttpMethods"
  using vec_find_less [of gHttpMethods s] vec_find_notin [of s gHttpMethods] by (auto simp: method_spec_def Let_def)

lemma request_line_defined: "request_line_spec l req \<noteq> None \<longleftrightarrow> safe_line l"
proof (cases "CHR '' '' \<in> set l \<and> take (find_index (CHR '' '') l) l \<in> set gHttpMethods")
  case False
  then show ?thesis
    using method_spec_ok [of "take (find_index (CHR '' '') l) l" req]
    by (auto simp: request_line_spec_def safe_line_def Let_def split_beta)
next
  case True
  let ?rest = "drop (Suc (find_index (CHR '' '') l)) l"
  let ?q = "drop (Suc (find_index (CHR ''?'') ?rest)) ?rest"
  have ok: "fst (method_spec (take (find_index (CHR '' '') l) l) req)" using True by (simp add: method_spec_ok)
  show ?thesis
  proof (cases "CHR ''?'' \<in> set ?rest")
    case q: True
    then have "request_line_spec l req \<noteq> None \<longleftrightarrow> drop (find_index (CHR '' '') ?q) ?q \<noteq> []"
      using True ok by (auto simp: request_line_spec_def Let_def split_beta split: list.splits)
    also have "\<dots> \<longleftrightarrow> CHR '' '' \<in> set ?q" by (simp only: drop_find_Nil not_not)
    finally show ?thesis using True q by (simp add: safe_line_def Let_def)
  next
    case q: False
    then have "request_line_spec l req \<noteq> None \<longleftrightarrow> drop (find_index (CHR '' '') ?rest) ?rest \<noteq> []"
      using True ok by (auto simp: request_line_spec_def Let_def split_beta split: list.splits)
    also have "\<dots> \<longleftrightarrow> CHR '' '' \<in> set ?rest" by (simp only: drop_find_Nil not_not)
    finally show ?thesis using True q by (simp add: safe_line_def Let_def)
  qed
qed

lemma known_method: "s \<in> set gHttpMethods \<Longrightarrow> HttpMethods ! vec_find gHttpMethods s \<noteq> kInvalid"
  by (auto simp: gHttpMethods_def HttpMethods_def vec_find_def)

lemma version_spec_method: "req_method (snd (version_spec s req)) = req_method req"
  by (simp add: version_spec_def Let_def)

lemma request_line_method:
  assumes "request_line_spec l req = Some (True, req')"
  shows "req_method req' \<noteq> kInvalid"
proof -
  let ?m = "take (find_index (CHR '' '') l) l"
  have m: "?m \<in> set gHttpMethods" "CHR '' '' \<in> set l"
    using assms method_spec_ok [of ?m req] by (auto simp: request_line_spec_def Let_def split_beta split: if_splits)
  then show ?thesis
    using assms known_method [OF m(1)] version_spec_method
    by (auto simp: request_line_spec_def method_spec_known Let_def split_beta split: if_splits list.splits
        dest!: arg_cong [of _ _ snd] arg_cong [of _ _ req_method])
qed

lemma line_later:
  assumes "ctx_state ctx \<noteq> kExpectRequestLine" and "req_method (ctx_request ctx) \<noteq> kInvalid"
  shows "\<exists>ok ctx'. line_spec nd ctx line = Some (ok, ctx') \<and> ctx_state ctx' \<noteq> kExpectRequestLine \<and>
    req_method (ctx_request ctx') \<noteq> kInvalid"
  using assms
  by (cases "ctx_state ctx")
    (auto simp: line_spec_def expectBody_def header_spec_def Let_def split: if_splits)

lemma parse_later_defined:
  "ctx_state ctx \<noteq> kExpectRequestLine \<Longrightarrow> req_method (ctx_request ctx) \<noteq> kInvalid \<Longrightarrow> parse_spec nd ctx s \<noteq> None"
proof (induction nd ctx s rule: parse_spec.induct)
  case (1 nd ctx s)
  show ?case
  proof (cases "ctx_state ctx = kGotAll \<or> first_line s = None")
    case True
    then show ?thesis by (auto simp: parse_spec.simps [of nd ctx s])
  next
    case False
    then obtain line rest where fl: "first_line s = Some (line, rest)" by auto
    obtain ok ctx1 where l: "line_spec nd ctx line = Some (ok, ctx1)" "ctx_state ctx1 \<noteq> kExpectRequestLine"
      "req_method (ctx_request ctx1) \<noteq> kInvalid"
      using line_later [OF "1.prems"] by blast
    show ?thesis
      using "1.IH" [OF _ fl refl l(1) refl] False fl l by (auto simp: parse_spec.simps [of nd ctx s])
  qed
qed

lemma parse_defined:
  assumes "ctx_state ctx = kExpectRequestLine"
  shows "parse_spec nd ctx s \<noteq> None \<longleftrightarrow> safe_input s"
proof (cases "first_line s")
  case None
  with assms show ?thesis by (simp add: parse_spec.simps [of nd ctx s] safe_input_def)
next
  case (Some lr)
  obtain line rest where fl: "first_line s = Some (line, rest)" using Some by (cases lr) simp
  note unf = parse_spec.simps [of nd ctx s]
  show ?thesis
  proof (cases "request_line_spec line (ctx_request ctx)")
    case None
    with request_line_defined [of line "ctx_request ctx"] fl assms show ?thesis
      by (simp add: unf line_spec_def safe_input_def)
  next
    case r: (Some okreq)
    obtain ok req' where o: "okreq = (ok, req')" by fastforce
    have "safe_line line" using request_line_defined [of line "ctx_request ctx"] r by simp
    moreover have "parse_spec nd (ctx\<lparr>ctx_request := req', ctx_state := kExpectHeader\<rparr>) rest \<noteq> None" if ok
      using that r o request_line_method [of line "ctx_request ctx" req'] by (intro parse_later_defined) simp_all
    ultimately show ?thesis
      using fl assms r o by (auto simp: unf line_spec_def safe_input_def)
  qed
qed

lemma map_option_defined: "map_option f x = y \<Longrightarrow> x \<noteq> None \<longleftrightarrow> y \<noteq> None"
  by auto

text \<open>
  C10: on which inputs the parser returns. In the states after the request line the loop ends on every input,
  whatever bytes the client sends, with either buffer and in either build. Where a request line is expected
  it ends exactly when no line is complete, or the first line is refused for its method or has a
  space behind path and query: on any other line it runs past the end of the buffer.
\<close>

theorem parseRequest_returns:
  assumes "Buffer_inv b" and "lb_ready l"
    and "ctx_state ctx \<noteq> kExpectRequestLine \<longrightarrow> req_method (ctx_request ctx) \<noteq> kInvalid"
  shows "((\<exists>r. parseRequest nd Buffer_type ctx b = Some r) \<longleftrightarrow>
      ctx_state ctx = kExpectRequestLine \<longrightarrow> safe_input (Buffer_content b))
    \<and> ((\<exists>r. parseRequest nd LinkedBuffer_type ctx l = Some r) \<longleftrightarrow>
      ctx_state ctx = kExpectRequestLine \<longrightarrow> safe_input (lb_content l))"
proof -
  have d: "parse_spec nd ctx s \<noteq> None \<longleftrightarrow> (ctx_state ctx = kExpectRequestLine \<longrightarrow> safe_input s)" for s
    using parse_defined [of ctx nd s] parse_later_defined [of ctx nd s] assms(3) by blast
  show ?thesis
    using map_option_defined [OF buf_in.parseRequest_refines [OF assms(1), of nd ctx]]
      map_option_defined [OF linked_in.parseRequest_refines [OF assms(2), of nd ctx]] d by simp
qed

theorem parseRequest_returns_witness:
  "(\<exists>r. parseRequest False Buffer_type HTTPContext_new (wit_buffer ''GET /'') = Some r) \<and>
   (\<exists>r. parseRequest False LinkedBuffer_type HTTPContext_new (wit_linked ''GET /'') = Some r)"
proof -
  have "search_index kCRLF ''GET /'' = 5" by (simp add: search_index_def kCRLF_def)
  then have "safe_input ''GET /''" by (simp add: safe_input_def first_line_def Let_def)
  with parseRequest_returns [of "wit_buffer ''GET /''" "wit_linked ''GET /''" HTTPContext_new False] show ?thesis
    by (simp add: wit_buffer_ok wit_linked_ok HTTPContext_new_def)
qed

text \<open>
  A request line with no version is undefined behaviour. After a known method, one
  space and a path, a line that ends without a second space makes \<open>parseRequestLine\<close>
  search for the version in a range whose start lies behind its end.
\<close>

theorem missing_version_undefined:
  assumes "m \<in> set gHttpMethods" and "path_ok path" and "Buffer_inv b"
    and "Buffer_content b = m @ '' '' @ path @ kCRLF @ rest"
  shows "parseRequest nd Buffer_type HTTPContext_new b = None"
proof (rule buf_in.parseRequest_NoneI [OF assms(3)])
  have "CHR 0x0D \<notin> set (m @ '' '' @ path)"
    using method_chars [OF assms(1)] assms(2) by (auto simp: path_ok_def)
  moreover have "request_line_spec (m @ '' '' @ path) HTTPRequest_new = None"
    using assms(1,2) method_chars [OF assms(1)]
    by (simp add: request_line_spec_def path_ok_def method_spec_known Let_def)
  ultimately show "parse_spec nd HTTPContext_new (Buffer_content b) = None"
    using parse_spec_line [of HTTPContext_new "m @ '' '' @ path" nd rest] assms(4)
    by (simp add: HTTPContext_new_def line_spec_def)
qed

theorem missing_version_undefined_witness:
  "parseRequest True Buffer_type HTTPContext_new (wit_buffer (''GET /'' @ kCRLF)) = None"
  using missing_version_undefined [of "''GET''" "''/''" "wit_buffer (''GET /'' @ kCRLF)" "[]" True]
  by (simp add: wit_buffer_ok gHttpMethods_def path_ok_def)

text \<open>
  The spaces before a header value are removed and the spaces behind it are not. The
  loop that is meant to remove them looks at the carriage return behind the line, which
  is never a space.
\<close>

theorem header_trailing_spaces_kept:
  assumes "Buffer_inv b" and "ctx_state ctx = kExpectHeader" and "req_headers (ctx_request ctx) k = None"
    and "CHR '':'' \<notin> set k" and "CHR 0x0D \<notin> set (k @ v)" and "v \<noteq> []" and "hd v \<noteq> CHR '' ''"
    and "Buffer_content b = k @ '':'' @ replicate i (CHR '' '') @ v @ replicate j (CHR '' '') @ kCRLF"
  shows "\<exists>ctx' b'. parseRequest nd Buffer_type ctx b = Some (True, ctx', b') \<and>
    req_headers (ctx_request ctx') k = Some (v @ replicate j (CHR '' ''))"
proof -
  let ?l = "k @ '':'' @ replicate i (CHR '' '') @ v @ replicate j (CHR '' '')"
  have cr: "CHR 0x0D \<notin> set ?l" using assms(5) by auto
  have "header_value (replicate i (CHR '' '') @ v @ w) = v @ w" for w
    using assms(6,7) by (induction i) (cases v; auto simp: header_value_def)+
  then have l: "line_spec nd ctx ?l = Some (True, ctx\<lparr>ctx_request := (ctx_request ctx)\<lparr>req_headers :=
      (req_headers (ctx_request ctx))(k \<mapsto> v @ replicate j (CHR '' ''))\<rparr>\<rparr>)"
    using assms(2,3,4) by (simp add: line_spec_def header_spec_def Let_def)
  have "\<exists>ctx' r. parse_spec nd ctx (Buffer_content b) = Some (True, ctx', r) \<and>
      req_headers (ctx_request ctx') k = Some (v @ replicate j (CHR '' ''))"
    using parse_spec_line [OF _ cr, of ctx nd "[]"] assms(2,8) l
    by (simp add: parse_spec.simps [of _ _ "[]"])
  with buf_in.parseRequest_SomeI [OF assms(1)] show ?thesis by blast
qed

theorem header_trailing_spaces_kept_witness:
  "\<exists>ctx' b'. parseRequest True Buffer_type
     \<lparr>ctx_state = kExpectHeader, ctx_request = request_of ''GET'' ''/'' None ''1.1'' []\<rparr>
     (wit_buffer (''Connection'' @ '':'' @ '' '' @ ''close'' @ ''  '' @ kCRLF)) = Some (True, ctx', b') \<and>
     req_headers (ctx_request ctx') ''Connection'' = Some ''close  ''"
  using header_trailing_spaces_kept [of "wit_buffer (''Connection'' @ '':'' @ '' '' @ ''close'' @ ''  '' @ kCRLF)"
      "\<lparr>ctx_state = kExpectHeader, ctx_request = request_of ''GET'' ''/'' None ''1.1'' []\<rparr>"
      "''Connection''" "''close''" 1 2 True]
  by (simp add: wit_buffer_ok request_of_def numeral_2_eq_2)

end
