(* ===== verification/Http_Response.thy ===== *)
theory Http_Response
  imports Http_Context
begin

text \<open>
  \<open>net::HTTPResponse\<close> (\<open>srcs/net/server/http/http_response.h\<close>): the fields of a response
  and \<open>appendToBuffer\<close>, which prints it into the output buffer of a connection.

  \<open>headers_\<close> is an \<open>unordered_map\<close>; the order in which the printing loop visits it is a
  parameter, the list \<open>keys\<close> of its keys. Indexing a vector out of range is undefined
  (\<open>None\<close>), a \<open>const char *\<close> ends at its first zero byte, and \<open>snprintf\<close> cuts its output to
  63 characters.
\<close>

section \<open>The response\<close>

record http_response =
  resp_version :: HttpVersion
  resp_status_code :: HttpStatusCode
  resp_close_connection :: bool
  resp_headers :: "string \<rightharpoonup> string"
  resp_body :: string

definition HTTPResponse_new :: http_response where
  "HTTPResponse_new = \<lparr>resp_version = kHttp11, resp_status_code = kStatusUnknown,
     resp_close_connection = False, resp_headers = Map.empty, resp_body = []\<rparr>"

definition HTTPResponse_setVersion :: "HttpVersion \<Rightarrow> http_response \<Rightarrow> http_response" where
  "HTTPResponse_setVersion v r = r\<lparr>resp_version := v\<rparr>"

definition setStatusCode :: "HttpStatusCode \<Rightarrow> http_response \<Rightarrow> http_response" where
  "setStatusCode st r = r\<lparr>resp_status_code := st\<rparr>"

definition setCloseConnection :: "bool \<Rightarrow> http_response \<Rightarrow> http_response" where
  "setCloseConnection cl r = r\<lparr>resp_close_connection := cl\<rparr>"

definition addHeader :: "string \<Rightarrow> string \<Rightarrow> http_response \<Rightarrow> http_response" where
  "addHeader key val r = r\<lparr>resp_headers := (resp_headers r)(key \<mapsto> val)\<rparr>"

definition setBody :: "string \<Rightarrow> http_response \<Rightarrow> http_response" where
  "setBody body r = r\<lparr>resp_body := body\<rparr>"

definition HTTPResponse_setHeader :: "string \<Rightarrow> string \<Rightarrow> http_response \<Rightarrow> http_response" where
  "HTTPResponse_setHeader key val r = r\<lparr>resp_headers := map_emplace key val (resp_headers r)\<rparr>"

definition resp_buf_size :: nat where
  [cpp_consts]: "resp_buf_size = 64"

section \<open>Printing\<close>

fun append_headers ::
  "('b, 'i) buffer_type \<Rightarrow> (string \<rightharpoonup> string) \<Rightarrow> string list \<Rightarrow> 'b \<Rightarrow> 'b option" where
  "append_headers C hs [] b = Some b"
| "append_headers C hs (k # keys) b =
     do {
       v \<leftarrow> hs k;
       b1 \<leftarrow> bt_append C k b;
       b2 \<leftarrow> bt_append C '': '' b1;
       b3 \<leftarrow> bt_append C v b2;
       b4 \<leftarrow> bt_append C kCRLF b3;
       append_headers C hs keys b4
     }"

definition appendToBuffer ::
  "('b, 'i) buffer_type \<Rightarrow> string list \<Rightarrow> http_response \<Rightarrow> 'b \<Rightarrow> 'b option" where
  "appendToBuffer C keys r b0 =
     do {
       v \<leftarrow> vec_at gHttpVersions (HttpVersion_index (resp_version r));
       code \<leftarrow> vec_at gHttpStatusCodes (HttpStatusCode_index (resp_status_code r));
       msg \<leftarrow> vec_at gHttpStatusMessages (HttpStatusCode_index (resp_status_code r));
       let buf = snprintf resp_buf_size
         (gHttpPrefix @ v @ '' '' @ decimal_int code @ '' '' @ msg @ kCRLF);
       b1 \<leftarrow> bt_append C (c_str buf) b0;
       b2 \<leftarrow> (if resp_close_connection r then bt_append C (''Connection: close'' @ kCRLF) b1
             else do {
               let buf = snprintf resp_buf_size (''Content-Length: '' @ decimal (length (resp_body r)) @ kCRLF);
               b' \<leftarrow> bt_append C (c_str buf) b1;
               bt_append C (''Connection: Keep-Alive'' @ kCRLF) b'
             });
       b3 \<leftarrow> append_headers C (resp_headers r) keys b2;
       b4 \<leftarrow> bt_append C kCRLF b3;
       bt_append C (resp_body r) b4
     }"

section \<open>The text of a response\<close>

fun status_line :: "HttpVersion \<Rightarrow> HttpStatusCode \<Rightarrow> string" where
  "status_line v st =
     ''HTTP/'' @ (case v of kHttp10 \<Rightarrow> ''1.0'' | _ \<Rightarrow> ''1.1'') @
     (case st of k200Ok \<Rightarrow> '' 200 OK'' | k301MovedPermanently \<Rightarrow> '' 301 Moved Permanently''
      | k400BadRequest \<Rightarrow> '' 400 Bad Request'' | _ \<Rightarrow> '' 404 Not Found'')"

definition connection_lines :: "http_response \<Rightarrow> string list" where
  "connection_lines r =
     (if resp_close_connection r then [''Connection: close'']
      else [''Content-Length: '' @ decimal (length (resp_body r)), ''Connection: Keep-Alive''])"

definition header_lines :: "(string \<rightharpoonup> string) \<Rightarrow> string list \<Rightarrow> string list" where
  "header_lines hs keys = map (\<lambda>k. k @ '': '' @ the (hs k)) keys"

definition lines_text :: "string list \<Rightarrow> string" where
  "lines_text ls = concat (map (\<lambda>l. l @ kCRLF) ls)"

definition response_lines :: "string list \<Rightarrow> http_response \<Rightarrow> string list" where
  "response_lines keys r =
     status_line (resp_version r) (resp_status_code r) # connection_lines r @ header_lines (resp_headers r) keys"

definition response_text :: "string list \<Rightarrow> http_response \<Rightarrow> string" where
  "response_text keys r = lines_text (response_lines keys r) @ kCRLF @ resp_body r"

text \<open>What makes a response printable, and \<open>keys\<close> an order of its headers.\<close>

definition response_ok :: "http_response \<Rightarrow> bool" where
  "response_ok r \<longleftrightarrow> resp_version r \<noteq> kVersionUnknown \<and> resp_status_code r \<noteq> kStatusUnknown \<and>
     length (resp_body r) < 2 ^ 64"

definition key_order :: "http_response \<Rightarrow> string list \<Rightarrow> bool" where
  "key_order r keys \<longleftrightarrow> distinct keys \<and> set keys = dom (resp_headers r)"

lemma decimal_chars [simp]: "NUL \<notin> set (decimal n)" "CHR 0x0D \<notin> set (decimal n)"
  by (auto dest: decimal_plain)

lemma lines_text_simps [simp]:
  "lines_text [] = []" "lines_text (l # ls) = l @ kCRLF @ lines_text ls"
  "lines_text (ls @ ls') = lines_text ls @ lines_text ls'"
  by (simp_all add: lines_text_def)

text \<open>The two fixed-size buffers are large enough: neither line is cut.\<close>

lemma status_line_fits:
  assumes "response_ok r"
  shows "\<exists>v code msg. vec_at gHttpVersions (HttpVersion_index (resp_version r)) = Some v \<and>
    vec_at gHttpStatusCodes (HttpStatusCode_index (resp_status_code r)) = Some code \<and>
    vec_at gHttpStatusMessages (HttpStatusCode_index (resp_status_code r)) = Some msg \<and>
    c_str (snprintf resp_buf_size (gHttpPrefix @ v @ '' '' @ decimal_int code @ '' '' @ msg @ kCRLF)) =
      status_line (resp_version r) (resp_status_code r) @ kCRLF"
  using assms
  by (cases "resp_version r"; cases "resp_status_code r")
    (simp_all add: response_ok_def vec_at_def gHttpVersions_def gHttpStatusCodes_def gHttpStatusMessages_def
      gHttpPrefix_def decimal_int_def decimal_rec digit_char_def kCRLF_def resp_buf_size_def c_str_def snprintf_def
      char_of_def bit_0)

lemma length_line_fits:
  assumes "n < 2 ^ 64"
  shows "c_str (snprintf resp_buf_size (''Content-Length: '' @ decimal n @ kCRLF)) =
    ''Content-Length: '' @ decimal n @ kCRLF"
proof -
  have "length (decimal n) \<le> 20"
    using assms by (intro decimal_length) simp_all
  then show ?thesis by (simp add: resp_buf_size_def kCRLF_def)
qed

context out_buffer
begin

lemma append_headers_text:
  assumes "oinv b" and "set keys \<subseteq> dom hs"
  shows "\<exists>b'. append_headers C hs keys b = Some b' \<and> oinv b' \<and>
    ocontent b' = ocontent b @ lines_text (header_lines hs keys)"
  using assms
proof (induction keys arbitrary: b)
  case (Cons k keys)
  then obtain v where v: "hs k = Some v" by auto
  obtain b1 where b1: "bt_append C k b = Some b1" "oinv b1" "ocontent b1 = ocontent b @ k"
    using append_spec [OF Cons.prems(1)] by blast
  obtain b2 where b2: "bt_append C '': '' b1 = Some b2" "oinv b2" "ocontent b2 = ocontent b1 @ '': ''"
    using append_spec [OF b1(2)] by blast
  obtain b3 where b3: "bt_append C v b2 = Some b3" "oinv b3" "ocontent b3 = ocontent b2 @ v"
    using append_spec [OF b2(2)] by blast
  obtain b4 where b4: "bt_append C kCRLF b3 = Some b4" "oinv b4" "ocontent b4 = ocontent b3 @ kCRLF"
    using append_spec [OF b3(2)] by blast
  show ?case
    using Cons.IH [OF b4(2)] Cons.prems(2) v b1 b2 b3 b4 by (simp add: header_lines_def)
qed (simp add: header_lines_def)

lemma appendToBuffer_text:
  assumes "oinv b" and "response_ok r" and "key_order r keys"
  shows "\<exists>b'. appendToBuffer C keys r b = Some b' \<and> oinv b' \<and>
    ocontent b' = ocontent b @ response_text keys r"
proof -
  obtain v code msg where st: "vec_at gHttpVersions (HttpVersion_index (resp_version r)) = Some v"
    "vec_at gHttpStatusCodes (HttpStatusCode_index (resp_status_code r)) = Some code"
    "vec_at gHttpStatusMessages (HttpStatusCode_index (resp_status_code r)) = Some msg"
    "c_str (snprintf resp_buf_size (gHttpPrefix @ v @ '' '' @ decimal_int code @ '' '' @ msg @ kCRLF)) =
      status_line (resp_version r) (resp_status_code r) @ kCRLF"
    using status_line_fits [OF assms(2)] by blast
  let ?st = "status_line (resp_version r) (resp_status_code r) @ kCRLF"
  obtain b1 where b1: "bt_append C ?st b = Some b1" "oinv b1" "ocontent b1 = ocontent b @ ?st"
    using append_spec [OF assms(1)] by blast
  have cl: "c_str (snprintf resp_buf_size (''Content-Length: '' @ decimal (length (resp_body r)) @ kCRLF)) =
    ''Content-Length: '' @ decimal (length (resp_body r)) @ kCRLF"
    using assms(2) by (intro length_line_fits) (simp add: response_ok_def)
  obtain b2 where b2: "(if resp_close_connection r then bt_append C (''Connection: close'' @ kCRLF) b1
      else do { b' \<leftarrow> bt_append C (''Content-Length: '' @ decimal (length (resp_body r)) @ kCRLF) b1;
        bt_append C (''Connection: Keep-Alive'' @ kCRLF) b' }) = Some b2"
    "oinv b2" "ocontent b2 = ocontent b1 @ lines_text (connection_lines r)"
  proof (cases "resp_close_connection r")
    case True
    with append_spec [OF b1(2), of "''Connection: close'' @ kCRLF"] that show ?thesis
      by (auto simp: connection_lines_def)
  next
    case False
    obtain b' where b': "bt_append C (''Content-Length: '' @ decimal (length (resp_body r)) @ kCRLF) b1 = Some b'"
      "oinv b'" "ocontent b' = ocontent b1 @ ''Content-Length: '' @ decimal (length (resp_body r)) @ kCRLF"
      using append_spec [OF b1(2)] by blast
    with False append_spec [OF b'(2), of "''Connection: Keep-Alive'' @ kCRLF"] that show ?thesis
      by (auto simp: connection_lines_def)
  qed
  obtain b3 where b3: "append_headers C (resp_headers r) keys b2 = Some b3" "oinv b3"
    "ocontent b3 = ocontent b2 @ lines_text (header_lines (resp_headers r) keys)"
    using append_headers_text [OF b2(2), of keys "resp_headers r"] assms(3) by (auto simp: key_order_def)
  obtain b4 where b4: "bt_append C kCRLF b3 = Some b4" "oinv b4" "ocontent b4 = ocontent b3 @ kCRLF"
    using append_spec [OF b3(2)] by blast
  obtain b5 where b5: "bt_append C (resp_body r) b4 = Some b5" "oinv b5" "ocontent b5 = ocontent b4 @ resp_body r"
    using append_spec [OF b4(2)] by blast
  have "appendToBuffer C keys r b = Some b5"
    unfolding appendToBuffer_def st(1-3) Let_def
    by (simp only: st(4) bind.bind_lunit b1(1) cl b2(1) b3(1) b4(1) b5(1))
  with b1(3) b2(3) b3(3) b4(3) b5 show ?thesis
    by (simp add: response_text_def response_lines_def del: status_line.simps)
qed

end

section \<open>A client reads the response back\<close>

text \<open>
  A client reads lines up to the first empty one; the second line gives the length of the
  body.
\<close>

function client_lines :: "string \<Rightarrow> (string list \<times> string) option" where
  "client_lines s =
     (case first_line s of
        None \<Rightarrow> None
      | Some (line, rest) \<Rightarrow>
          if line = [] then Some ([], rest)
          else map_option (map_prod (Cons line) id) (client_lines rest))"
  by auto

termination
  by (relation "measure length") (auto dest: first_line_shorter)

declare client_lines.simps [simp del]

definition client_read :: "string \<Rightarrow> (string list \<times> string \<times> string) option" where
  "client_read s =
     do {
       (ls, rest) \<leftarrow> client_lines s;
       l \<leftarrow> vec_at ls 1;
       if prefix ''Content-Length: '' l then
         (let n = undecimal (drop 16 l) in Some (ls, take n rest, drop n rest))
       else None
     }"

lemma client_lines_text:
  assumes "\<forall>l \<in> set ls. l \<noteq> [] \<and> CHR 0x0D \<notin> set l"
  shows "client_lines (lines_text ls @ kCRLF @ rest) = Some (ls, rest)"
  using assms
proof (induction ls)
  case Nil
  show ?case using first_line_CRLF [of "[]" rest] by (simp add: client_lines.simps)
next
  case (Cons l ls)
  then show ?case
    using first_line_CRLF [of l "lines_text ls @ kCRLF @ rest"]
    by (simp add: client_lines.simps [of "l @ kCRLF @ lines_text ls @ kCRLF @ rest"])
qed

definition plain_headers :: "http_response \<Rightarrow> bool" where
  "plain_headers r \<longleftrightarrow> (\<forall>k v. resp_headers r k = Some v \<longrightarrow> CHR 0x0D \<notin> set (k @ v))"

lemma response_lines_plain:
  assumes "response_ok r" and "key_order r keys" and "plain_headers r"
  shows "\<forall>l \<in> set (response_lines keys r). l \<noteq> [] \<and> CHR 0x0D \<notin> set l"
proof -
  have "CHR 0x0D \<notin> set (status_line (resp_version r) (resp_status_code r))"
    by (cases "resp_version r"; cases "resp_status_code r") simp_all
  moreover have "CHR 0x0D \<notin> set (k @ '': '' @ the (resp_headers r k))" if "k \<in> set keys" for k
    using that assms(2,3) by (auto simp: key_order_def plain_headers_def)
  ultimately show ?thesis
    by (auto simp: response_lines_def connection_lines_def header_lines_def)
qed

lemma client_reads_response:
  assumes "response_ok r" and "key_order r keys" and "plain_headers r" and "\<not> resp_close_connection r"
  shows "client_read (response_text keys r @ rest) = Some (response_lines keys r, resp_body r, rest)"
proof -
  have "client_lines (response_text keys r @ rest) = Some (response_lines keys r, resp_body r @ rest)"
    using client_lines_text [OF response_lines_plain [OF assms(1-3)], of "resp_body r @ rest"]
    by (simp add: response_text_def)
  moreover have "vec_at (response_lines keys r) 1 = Some (''Content-Length: '' @ decimal (length (resp_body r)))"
    using assms(4) by (simp add: vec_at_def response_lines_def connection_lines_def)
  ultimately show ?thesis by (simp add: client_read_def)
qed

text \<open>A client that reads \<open>n\<close> responses, one behind the other.\<close>

fun client_reads :: "nat \<Rightarrow> string \<Rightarrow> ((string list \<times> string) list \<times> string) option" where
  "client_reads 0 s = Some ([], s)"
| "client_reads (Suc n) s =
     do {
       (ls, body, s) \<leftarrow> client_read s;
       (rs, s) \<leftarrow> client_reads n s;
       Some ((ls, body) # rs, s)
     }"

lemma client_reads_responses:
  assumes "list_all (\<lambda>r. response_ok r \<and> key_order r (order r) \<and> plain_headers r \<and> \<not> resp_close_connection r) rs"
  shows "client_reads (length rs) (concat (map (\<lambda>r. response_text (order r) r) rs) @ rest) =
    Some (map (\<lambda>r. (response_lines (order r) r, resp_body r)) rs, rest)"
  using assms by (induction rs) (simp_all add: client_reads_response)

section \<open>Properties\<close>

definition wit_response :: http_response where
  "wit_response = setBody ''hello'' (addHeader ''Server'' ''w'' (setStatusCode k200Ok HTTPResponse_new))"

lemma wit_response_ok: "response_ok wit_response" "key_order wit_response [''Server'']" "plain_headers wit_response"
  by (simp_all add: wit_response_def setBody_def addHeader_def setStatusCode_def HTTPResponse_new_def
      response_ok_def key_order_def plain_headers_def)

text \<open>
  C16: \<open>appendToBuffer\<close> prints a response the same way into both buffer types, at the end
  of what is already there: status line, connection lines, headers in the order of the
  table, an empty line and the body. The two buffers of 64 characters on the stack never
  cut a line short.
\<close>

theorem response_printed:
  assumes "response_ok r" and "key_order r keys" and "Buffer_inv b" and "lb_inv l"
  shows "(\<exists>b'. appendToBuffer Buffer_type keys r b = Some b' \<and> Buffer_inv b' \<and>
      Buffer_content b' = Buffer_content b @ response_text keys r)
    \<and> (\<exists>l'. appendToBuffer LinkedBuffer_type keys r l = Some l' \<and> lb_inv l' \<and>
      lb_content l' = lb_content l @ response_text keys r)"
  using buf_out.appendToBuffer_text [OF assms(3,1,2)] linked_out.appendToBuffer_text [OF assms(4,1,2)] by blast

theorem response_printed_witness:
  "\<exists>l'. appendToBuffer LinkedBuffer_type [''Server''] wit_response LinkedBuffer_new = Some l' \<and>
     lb_content l' = ''HTTP/1.1 200 OK'' @ kCRLF @ ''Content-Length: 5'' @ kCRLF @ ''Connection: Keep-Alive'' @ kCRLF @
       ''Server: w'' @ kCRLF @ kCRLF @ ''hello''"
  using response_printed [OF wit_response_ok(1,2) Buffer_new_inv lb_inv_new(1)]
  by (auto simp: lb_inv_new response_text_def response_lines_def connection_lines_def header_lines_def
      wit_response_def setBody_def addHeader_def setStatusCode_def HTTPResponse_new_def decimal_rec digit_char_def
      char_of_def bit_0)

text \<open>
  A kept-alive response can be told from what follows it. A client that reads lines up
  to the empty one and then as many bytes as the second line announces gets exactly the
  lines and the body of the response and is left with exactly the bytes behind it,
  provided no header contains a carriage return.
\<close>

theorem response_read_back:
  assumes "response_ok r" and "key_order r keys" and "plain_headers r" and "\<not> resp_close_connection r"
    and "lb_inv l" and "lb_content l = []"
  shows "\<exists>l'. appendToBuffer LinkedBuffer_type keys r l = Some l' \<and>
    client_read (lb_content l' @ rest) = Some (response_lines keys r, resp_body r, rest)"
  using linked_out.appendToBuffer_text [OF assms(5,1,2)] client_reads_response [OF assms(1-4)] assms(6) by auto

theorem response_read_back_witness:
  "\<exists>l'. appendToBuffer LinkedBuffer_type [''Server''] wit_response LinkedBuffer_new = Some l' \<and>
    client_read (lb_content l' @ ''HTTP/1.1'') = Some (response_lines [''Server''] wit_response, ''hello'', ''HTTP/1.1'')"
  using response_read_back [OF wit_response_ok _ lb_inv_new, of "''HTTP/1.1''"]
  by (simp add: wit_response_def setBody_def addHeader_def setStatusCode_def HTTPResponse_new_def)

text \<open>
  Printing a response whose status was never set is undefined: the constructor leaves
  \<open>kUnknown\<close>, whose index lies behind the end of both tables, whatever else is set.
\<close>

theorem unset_status_undefined:
  "appendToBuffer C keys (setBody body (setCloseConnection cl (HTTPResponse_setVersion v HTTPResponse_new))) b = None"
  by (cases v) (simp_all add: appendToBuffer_def setBody_def setCloseConnection_def HTTPResponse_setVersion_def
      HTTPResponse_new_def vec_at_def gHttpVersions_def gHttpStatusCodes_def)

end
