(* ===== verification/Response_Cache.thy ===== *)
theory Response_Cache
  imports Prelude
begin

text \<open>
  The response cache of \<open>net::HTTPServer\<close> (\<open>addRespCache\<close> and \<open>getRespCache\<close> of
  \<open>srcs/net/server/http/http_server.cc\<close>): a list of nodes in order of use, most recent
  first, and a hash table from requests to places in the list.

  Requests and responses are shared pointers, here numbers. The table compares and hashes
  the objects its keys point to at the time of the call, with \<open>boost::hash\<close>; the parameter
  \<open>h\<close> gives the hash value of the object a request pointer points to at that time. As in
  the standard library of the build, the table keeps with every entry the hash value the
  key had when it was inserted, and an entry is found when that value and the value of its
  key now both equal the one asked for. A list iterator is the identity of its node; using
  one whose node is gone is undefined.
\<close>

section \<open>The cache\<close>

record cache_node =
  cn_id :: nat
  cn_req :: nat
  cn_resp :: nat

record resp_cache =
  cache_node_list :: "cache_node list"
  req_to_cache_node_iter :: "(hash \<times> nat \<times> nat) list"
  next_node :: nat

definition resp_cache_new :: resp_cache where
  "resp_cache_new = \<lparr>cache_node_list = [], req_to_cache_node_iter = [], next_node = 0\<rparr>"

definition kMaxReqCached :: nat where
  [cpp_consts]: "kMaxReqCached = 1024"

definition table_find :: "(nat \<Rightarrow> hash) \<Rightarrow> (hash \<times> nat \<times> nat) list \<Rightarrow> nat \<Rightarrow> (hash \<times> nat \<times> nat) option" where
  "table_find h t req = find (\<lambda>(code, q, it). code = h req \<and> h q = h req) t"

definition table_erase :: "(nat \<Rightarrow> hash) \<Rightarrow> (hash \<times> nat \<times> nat) list \<Rightarrow> nat \<Rightarrow> (hash \<times> nat \<times> nat) list" where
  "table_erase h t req = (case table_find h t req of None \<Rightarrow> t | Some e \<Rightarrow> remove1 e t)"

definition table_emplace :: "(nat \<Rightarrow> hash) \<Rightarrow> (hash \<times> nat \<times> nat) list \<Rightarrow> nat \<Rightarrow> nat \<Rightarrow> (hash \<times> nat \<times> nat) list" where
  "table_emplace h t req it = (if table_find h t req = None then (h req, req, it) # t else t)"

definition addRespCache :: "(nat \<Rightarrow> hash) \<Rightarrow> nat \<Rightarrow> nat \<Rightarrow> resp_cache \<Rightarrow> resp_cache option" where
  "addRespCache h req resp ca =
     do {
       ca1 \<leftarrow> (if length (req_to_cache_node_iter ca) \<ge> kMaxReqCached then
                (if cache_node_list ca = [] then None
                 else Some (ca\<lparr>req_to_cache_node_iter :=
                        table_erase h (req_to_cache_node_iter ca) (cn_req (last (cache_node_list ca))),
                      cache_node_list := butlast (cache_node_list ca)\<rparr>))
              else Some ca);
       let node = \<lparr>cn_id = next_node ca1, cn_req = req, cn_resp = resp\<rparr>;
       Some (ca1\<lparr>cache_node_list := node # cache_node_list ca1,
         req_to_cache_node_iter := table_emplace h (req_to_cache_node_iter ca1) req (next_node ca1),
         next_node := Suc (next_node ca1)\<rparr>)
     }"

text \<open>The result is the response stored, or \<open>None\<close> when the code returns \<open>false\<close>.\<close>

definition getRespCache :: "(nat \<Rightarrow> hash) \<Rightarrow> nat \<Rightarrow> resp_cache \<Rightarrow> (nat option \<times> resp_cache) option" where
  "getRespCache h req ca =
     (case table_find h (req_to_cache_node_iter ca) req of
        None \<Rightarrow> Some (None, ca)
      | Some (code, q, it) \<Rightarrow>
          do {
            n \<leftarrow> find (\<lambda>n. cn_id n = it) (cache_node_list ca);
            let ca1 = (if cn_id (hd (cache_node_list ca)) \<noteq> it
                       then ca\<lparr>cache_node_list := n # remove1 n (cache_node_list ca)\<rparr> else ca);
            Some (Some (cn_resp (hd (cache_node_list ca1))), ca1)
          })"

section \<open>Least recently used\<close>

text \<open>
  The contract: an association list from hash values to responses in order of use. A
  lookup moves the entry to the front; an insertion into a full cache drops the last.
\<close>

definition lru_get :: "hash \<Rightarrow> (hash \<times> nat) list \<Rightarrow> nat option \<times> (hash \<times> nat) list" where
  "lru_get k l =
     (case map_of l k of None \<Rightarrow> (None, l) | Some r \<Rightarrow> (Some r, (k, r) # filter (\<lambda>e. fst e \<noteq> k) l))"

definition lru_add :: "hash \<Rightarrow> nat \<Rightarrow> (hash \<times> nat) list \<Rightarrow> (hash \<times> nat) list" where
  "lru_add k r l = (k, r) # (if kMaxReqCached \<le> length l then butlast l else l)"

definition node_entry :: "(nat \<Rightarrow> hash) \<Rightarrow> cache_node \<Rightarrow> hash \<times> nat \<times> nat" where
  "node_entry h n = (h (cn_req n), cn_req n, cn_id n)"

definition lru_of :: "(nat \<Rightarrow> hash) \<Rightarrow> resp_cache \<Rightarrow> (hash \<times> nat) list" where
  "lru_of h ca = map (\<lambda>n. (h (cn_req n), cn_resp n)) (cache_node_list ca)"

text \<open>
  The invariant, as long as no key changes: the table has exactly one entry per node, no
  two keys have the same hash value, and the cache is not over its bound.
\<close>

definition cache_inv :: "(nat \<Rightarrow> hash) \<Rightarrow> resp_cache \<Rightarrow> bool" where
  "cache_inv h ca \<longleftrightarrow>
     distinct (map (\<lambda>n. h (cn_req n)) (cache_node_list ca)) \<and>
     distinct (map cn_id (cache_node_list ca)) \<and>
     (\<forall>n \<in> set (cache_node_list ca). cn_id n < next_node ca) \<and>
     distinct (req_to_cache_node_iter ca) \<and>
     set (req_to_cache_node_iter ca) = node_entry h ` set (cache_node_list ca) \<and>
     length (cache_node_list ca) \<le> kMaxReqCached"

lemma cache_inv_new: "cache_inv h resp_cache_new"
  by (simp add: cache_inv_def resp_cache_new_def)

lemma node_entry_inj: "distinct (map cn_id l) \<Longrightarrow> inj_on (node_entry h) (set l)"
  by (auto simp: inj_on_def node_entry_def distinct_map)

lemma cache_inv_length:
  assumes "cache_inv h ca"
  shows "length (req_to_cache_node_iter ca) = length (cache_node_list ca)"
proof -
  have "length (req_to_cache_node_iter ca) = card (set (req_to_cache_node_iter ca))"
    using assms by (intro distinct_card [symmetric]) (simp add: cache_inv_def)
  also have "\<dots> = card (set (cache_node_list ca))"
    using assms by (simp add: cache_inv_def card_image node_entry_inj)
  also have "\<dots> = length (cache_node_list ca)"
    using assms by (simp add: cache_inv_def distinct_map distinct_card)
  finally show ?thesis .
qed

lemma find_unique:
  assumes "x \<in> set xs" and "P x" and "\<And>y. y \<in> set xs \<Longrightarrow> P y \<Longrightarrow> y = x"
  shows "find P xs = Some x"
proof -
  have "find P xs \<noteq> None" using assms(1,2) by (auto simp: find_None_iff)
  then obtain y where "find P xs = Some y" by auto
  moreover from this have "y \<in> set xs" "P y" by (auto simp: find_Some_iff)
  ultimately show ?thesis using assms(3) by auto
qed

lemma table_find_node:
  assumes "cache_inv h ca" and "n \<in> set (cache_node_list ca)" and "h req = h (cn_req n)"
  shows "table_find h (req_to_cache_node_iter ca) req = Some (node_entry h n)"
  unfolding table_find_def
proof (rule find_unique)
  show "node_entry h n \<in> set (req_to_cache_node_iter ca)"
    using assms by (simp add: cache_inv_def)
  show "case node_entry h n of (code, q, it) \<Rightarrow> code = h req \<and> h q = h req"
    using assms(3) by (simp add: node_entry_def)
  fix e
  assume "e \<in> set (req_to_cache_node_iter ca)" and e: "case e of (code, q, it) \<Rightarrow> code = h req \<and> h q = h req"
  then obtain m where "m \<in> set (cache_node_list ca)" "e = node_entry h m"
    using assms(1) by (auto simp: cache_inv_def)
  moreover from this e assms(3) have "h (cn_req m) = h (cn_req n)" by (simp add: node_entry_def)
  ultimately show "e = node_entry h n"
    using assms(1,2) by (auto simp: cache_inv_def distinct_map inj_on_def)
qed

lemma table_find_none:
  assumes "cache_inv h ca" and "h req \<notin> fst ` set (lru_of h ca)"
  shows "table_find h (req_to_cache_node_iter ca) req = None"
  using assms by (auto simp: table_find_def find_None_iff cache_inv_def lru_of_def node_entry_def image_iff)

lemma cache_inv_distinct: "cache_inv h ca \<Longrightarrow> distinct (cache_node_list ca)"
  by (simp add: cache_inv_def distinct_map)

lemma same_key_node:
  "cache_inv h ca \<Longrightarrow> m \<in> set (cache_node_list ca) \<Longrightarrow> n \<in> set (cache_node_list ca) \<Longrightarrow>
   h (cn_req m) = h (cn_req n) \<longleftrightarrow> m = n"
  by (auto simp: cache_inv_def distinct_map inj_on_def)

lemma find_node:
  "cache_inv h ca \<Longrightarrow> n \<in> set (cache_node_list ca) \<Longrightarrow>
   find (\<lambda>m. cn_id m = cn_id n) (cache_node_list ca) = Some n"
  by (rule find_unique) (auto simp: cache_inv_def distinct_map inj_on_def)

lemma hd_remove1: "l \<noteq> [] \<Longrightarrow> hd l # remove1 (hd l) l = l"
  by (cases l) simp_all

lemma getRespCache_hit:
  assumes "cache_inv h ca" and "n \<in> set (cache_node_list ca)" and "h req = h (cn_req n)"
  shows "getRespCache h req ca =
    Some (Some (cn_resp n), ca\<lparr>cache_node_list := n # remove1 n (cache_node_list ca)\<rparr>)"
proof -
  let ?l = "cache_node_list ca"
  have ne: "?l \<noteq> []" using assms(2) by auto
  have "cn_id (hd ?l) = cn_id n \<longleftrightarrow> hd ?l = n"
    using assms(1,2) hd_in_set [OF ne] by (auto simp: cache_inv_def distinct_map inj_on_def)
  moreover have "ca\<lparr>cache_node_list := hd ?l # remove1 (hd ?l) ?l\<rparr> = ca"
    using hd_remove1 [OF ne] by simp
  ultimately show ?thesis
    using find_node [OF assms(1,2)]
    by (auto simp: getRespCache_def table_find_node [OF assms] node_entry_def Let_def)
qed

lemma cache_inv_move:
  assumes "cache_inv h ca" and "n \<in> set (cache_node_list ca)"
  shows "cache_inv h (ca\<lparr>cache_node_list := n # remove1 n (cache_node_list ca)\<rparr>)"
    "lru_of h (ca\<lparr>cache_node_list := n # remove1 n (cache_node_list ca)\<rparr>) =
     (h (cn_req n), cn_resp n) # filter (\<lambda>e. fst e \<noteq> h (cn_req n)) (lru_of h ca)"
proof -
  let ?l = "cache_node_list ca"
  have d: "distinct ?l" using assms(1) by (rule cache_inv_distinct)
  have rm: "remove1 n ?l = filter (\<lambda>m. h (cn_req m) \<noteq> h (cn_req n)) ?l"
    using d same_key_node [OF assms(1) _ assms(2)]
    by (simp add: distinct_remove1_removeAll removeAll_filter_not_eq) (auto intro: filter_cong)
  have len: "Suc (length (remove1 n ?l)) = length ?l"
    using assms(2) length_pos_if_in_set [OF assms(2)] by (simp add: length_remove1)
  have ins: "insert n (set (remove1 n ?l)) = set ?l" using assms(2) d by auto
  have "distinct (map f (remove1 n ?l)) \<and> f n \<notin> f ` set (remove1 n ?l)" if "distinct (map f ?l)" for f :: "cache_node \<Rightarrow> 'a"
    using that d assms(2) by (auto simp: distinct_map inj_on_def)
  with assms len ins show "cache_inv h (ca\<lparr>cache_node_list := n # remove1 n ?l\<rparr>)"
    by (simp add: cache_inv_def) (auto simp: cache_inv_def distinct_map inj_on_def)
  show "lru_of h (ca\<lparr>cache_node_list := n # remove1 n ?l\<rparr>) =
     (h (cn_req n), cn_resp n) # filter (\<lambda>e. fst e \<noteq> h (cn_req n)) (lru_of h ca)"
    by (simp add: lru_of_def rm filter_map comp_def)
qed

lemma getRespCache_refines:
  assumes "cache_inv h ca"
  shows "\<exists>r ca'. getRespCache h req ca = Some (r, ca') \<and> cache_inv h ca' \<and>
    lru_get (h req) (lru_of h ca) = (r, lru_of h ca')"
proof (cases "map_of (lru_of h ca) (h req)")
  case None
  then have "table_find h (req_to_cache_node_iter ca) req = None"
    by (intro table_find_none [OF assms]) (simp add: map_of_eq_None_iff)
  with None assms show ?thesis by (simp add: getRespCache_def lru_get_def)
next
  case (Some r)
  then obtain n where n: "n \<in> set (cache_node_list ca)" "h req = h (cn_req n)" "r = cn_resp n"
    by (auto simp: lru_of_def dest!: map_of_SomeD)
  show ?thesis
    using getRespCache_hit [OF assms n(1,2)] cache_inv_move [OF assms n(1)] Some n
    by (simp add: lru_get_def)
qed

text \<open>An insertion after a miss: room is made if needed, then the new node goes to the front.\<close>

lemma cache_inv_drop_last:
  assumes "cache_inv h ca" and "cache_node_list ca \<noteq> []"
  shows "cache_inv h (ca\<lparr>req_to_cache_node_iter :=
      table_erase h (req_to_cache_node_iter ca) (cn_req (last (cache_node_list ca))),
    cache_node_list := butlast (cache_node_list ca)\<rparr>)"
proof -
  let ?l = "cache_node_list ca" and ?n = "last (cache_node_list ca)"
  have n: "?n \<in> set ?l" using assms(2) by simp
  have erase: "table_erase h (req_to_cache_node_iter ca) (cn_req ?n) =
      remove1 (node_entry h ?n) (req_to_cache_node_iter ca)"
    using table_find_node [OF assms(1) n refl] by (simp add: table_erase_def)
  have l: "?l = butlast ?l @ [?n]" using assms(2) by simp
  have d: "distinct (map f (butlast ?l))" "f ?n \<notin> f ` set (butlast ?l)" if "distinct (map f ?l)"
    for f :: "cache_node \<Rightarrow> 'a"
    using that by (subst (asm) l, simp)+
  have sub: "set (butlast ?l) = set ?l - {?n}"
    using cache_inv_distinct [OF assms(1)] by (subst (asm) l, subst (2) l) auto
  have inj: "inj_on (node_entry h) (set ?l)"
    using assms(1) by (simp add: cache_inv_def node_entry_inj)
  have "node_entry h ` set (butlast ?l) = node_entry h ` set ?l - {node_entry h ?n}"
    unfolding sub using inj n by (auto simp: inj_on_def)
  with assms(1) show ?thesis
    by (auto simp: cache_inv_def erase map_butlast distinct_butlast dest: in_set_butlastD)
qed

lemma addRespCache_refines:
  assumes "cache_inv h ca" and "h req \<notin> fst ` set (lru_of h ca)"
  shows "\<exists>ca'. addRespCache h req resp ca = Some ca' \<and> cache_inv h ca' \<and>
    lru_of h ca' = lru_add (h req) resp (lru_of h ca)"
proof -
  have len: "length (req_to_cache_node_iter ca) = length (lru_of h ca)"
    using cache_inv_length [OF assms(1)] by (simp add: lru_of_def)
  define ca1 where "ca1 = (if kMaxReqCached \<le> length (lru_of h ca)
     then ca\<lparr>req_to_cache_node_iter := table_erase h (req_to_cache_node_iter ca) (cn_req (last (cache_node_list ca))),
       cache_node_list := butlast (cache_node_list ca)\<rparr> else ca)"
  have ne: "cache_node_list ca \<noteq> []" if "kMaxReqCached \<le> length (lru_of h ca)"
    using that by (auto simp: lru_of_def kMaxReqCached_def)
  have ca1: "cache_inv h ca1" "length (cache_node_list ca1) < kMaxReqCached"
    "lru_of h ca1 = (if kMaxReqCached \<le> length (lru_of h ca) then butlast (lru_of h ca) else lru_of h ca)"
    using assms(1) cache_inv_drop_last [OF assms(1)] ne
    by (auto simp: ca1_def cache_inv_def lru_of_def map_butlast kMaxReqCached_def)
  have "h req \<notin> fst ` set (lru_of h ca1)"
    using assms(2) by (auto simp: ca1(3) dest: in_set_butlastD)
  with ca1(1) have none: "table_find h (req_to_cache_node_iter ca1) req = None"
    by (rule table_find_none)
  let ?n = "\<lparr>cn_id = next_node ca1, cn_req = req, cn_resp = resp\<rparr>"
  let ?ca = "ca1\<lparr>cache_node_list := ?n # cache_node_list ca1,
    req_to_cache_node_iter := (h req, req, next_node ca1) # req_to_cache_node_iter ca1,
    next_node := Suc (next_node ca1)\<rparr>"
  have "(if length (req_to_cache_node_iter ca) \<ge> kMaxReqCached then
      (if cache_node_list ca = [] then None
       else Some (ca\<lparr>req_to_cache_node_iter :=
              table_erase h (req_to_cache_node_iter ca) (cn_req (last (cache_node_list ca))),
            cache_node_list := butlast (cache_node_list ca)\<rparr>))
      else Some ca) = Some ca1"
    using ne len by (simp add: ca1_def)
  then have "addRespCache h req resp ca = Some ?ca"
    using none by (simp only: addRespCache_def bind.bind_lunit table_emplace_def Let_def) simp
  moreover have "cache_inv h ?ca"
    using ca1(1,2) \<open>h req \<notin> fst ` set (lru_of h ca1)\<close>
    by (auto simp: cache_inv_def node_entry_def lru_of_def image_iff less_Suc_eq)
  moreover have "lru_of h ?ca = lru_add (h req) resp (lru_of h ca)"
    using ca1(3) by (simp add: lru_of_def lru_add_def)
  ultimately show ?thesis by blast
qed

section \<open>Properties\<close>

text \<open>
  C8: the list and the hash table together are a least-recently-used cache. While the
  requests used as keys do not change, a lookup finds exactly the response stored for a
  request with the same hash value and makes it the most recent, an insertion after a miss
  puts the response in front and drops the least recently used one when 1024 are stored,
  no iterator ever dangles, and the bound is kept.
\<close>

theorem cache_is_lru:
  assumes "cache_inv h ca"
  shows "(\<exists>r ca'. getRespCache h req ca = Some (r, ca') \<and> cache_inv h ca' \<and>
      lru_get (h req) (lru_of h ca) = (r, lru_of h ca')) \<and>
    (fst (lru_get (h req) (lru_of h ca)) = None \<longrightarrow>
      (\<exists>ca'. addRespCache h req resp ca = Some ca' \<and> cache_inv h ca' \<and>
        lru_of h ca' = lru_add (h req) resp (lru_of h ca) \<and> length (cache_node_list ca') \<le> kMaxReqCached))"
proof (intro conjI impI)
  show "\<exists>r ca'. getRespCache h req ca = Some (r, ca') \<and> cache_inv h ca' \<and>
      lru_get (h req) (lru_of h ca) = (r, lru_of h ca')"
    using assms by (rule getRespCache_refines)
  assume "fst (lru_get (h req) (lru_of h ca)) = None"
  then have "h req \<notin> fst ` set (lru_of h ca)"
    by (auto simp: lru_get_def map_of_eq_None_iff split: option.splits)
  from addRespCache_refines [OF assms this, of resp]
  show "\<exists>ca'. addRespCache h req resp ca = Some ca' \<and> cache_inv h ca' \<and>
      lru_of h ca' = lru_add (h req) resp (lru_of h ca) \<and> length (cache_node_list ca') \<le> kMaxReqCached"
    by (auto simp: cache_inv_def)
qed

theorem cache_is_lru_witness:
  "\<exists>ca'. addRespCache (\<lambda>_. 5) 1 9 resp_cache_new = Some ca' \<and> lru_of (\<lambda>_. 5) ca' = [(5, 9)]"
  using cache_is_lru [OF cache_inv_new, of "\<lambda>_. 5" 1 9]
  by (auto simp: lru_of_def lru_get_def lru_add_def resp_cache_new_def kMaxReqCached_def)

text \<open>
  C40: a key that changes leaves a dangling iterator behind. A kept-alive connection reuses
  its request object, which the cache holds as a key. When the cache is full and the key of
  its last node has changed since it was inserted, dropping that node erases another entry
  or none: its own entry stays in the table. When the connection repeats its old request,
  the lookup finds that entry and follows an iterator to a node that is gone.
\<close>

theorem changed_key_dangles:
  assumes "cache_inv h ca" and "length (cache_node_list ca) = kMaxReqCached" and "n = last (cache_node_list ca)"
    and "h' (cn_req n) \<noteq> h (cn_req n)" and "h' req \<noteq> h (cn_req n)"
  shows "\<exists>ca'. addRespCache h' req resp ca = Some ca' \<and> getRespCache h (cn_req n) ca' = None"
proof -
  let ?l = "cache_node_list ca" and ?t = "req_to_cache_node_iter ca"
  have ne: "?l \<noteq> []" using assms(2) by (auto simp: kMaxReqCached_def)
  then have n: "n \<in> set ?l" using assms(3) by simp
  let ?t1 = "table_erase h' ?t (cn_req n)"
  let ?ca = "ca\<lparr>cache_node_list := \<lparr>cn_id = next_node ca, cn_req = req, cn_resp = resp\<rparr> # butlast ?l,
    req_to_cache_node_iter := table_emplace h' ?t1 req (next_node ca), next_node := Suc (next_node ca)\<rparr>"
  have add: "addRespCache h' req resp ca = Some ?ca"
    using assms(2,3) ne cache_inv_length [OF assms(1)] by (simp add: addRespCache_def Let_def)
  have keep: "node_entry h n \<in> set ?t1"
  proof -
    have "table_find h' ?t (cn_req n) \<noteq> Some (node_entry h n)"
      using assms(4) by (auto simp: table_find_def node_entry_def find_Some_iff)
    moreover have "node_entry h n \<in> set ?t"
      using assms(1) n by (simp add: cache_inv_def)
    ultimately show ?thesis by (auto simp: table_erase_def split: option.split)
  qed
  have sub: "set (req_to_cache_node_iter ?ca) \<subseteq> insert (h' req, req, next_node ca) (set ?t)"
    by (auto simp: table_emplace_def table_erase_def dest: notin_set_remove1 split: option.splits if_splits)
  have "table_find h (req_to_cache_node_iter ?ca) (cn_req n) = Some (node_entry h n)"
    unfolding table_find_def
  proof (rule find_unique)
    show "node_entry h n \<in> set (req_to_cache_node_iter ?ca)"
      using keep by (simp add: table_emplace_def)
    fix e
    assume "e \<in> set (req_to_cache_node_iter ?ca)"
      and e: "case e of (code, q, it) \<Rightarrow> code = h (cn_req n) \<and> h q = h (cn_req n)"
    then have "e \<in> set ?t" using sub assms(5) by auto
    with e show "e = node_entry h n"
      using assms(1) n same_key_node [OF assms(1) _ n] by (auto simp: cache_inv_def node_entry_def)
  qed (simp add: node_entry_def)
  moreover have "find (\<lambda>m. cn_id m = cn_id n) (cache_node_list ?ca) = None"
  proof -
    have "cn_id n < next_node ca" using assms(1) n by (simp add: cache_inv_def)
    moreover have "distinct (map cn_id (butlast ?l @ [n]))"
      using assms(1,3) ne by (simp add: cache_inv_def)
    ultimately show ?thesis by (auto simp: find_None_iff image_iff)
  qed
  ultimately show ?thesis using add by (simp add: getRespCache_def node_entry_def)
qed

text \<open>A full cache: 1024 requests with hash values 0 to 1023, the first of them used least recently.\<close>

definition wit_full :: resp_cache where
  "wit_full = \<lparr>cache_node_list = map (\<lambda>i. \<lparr>cn_id = i, cn_req = i, cn_resp = i\<rparr>) (rev [0..<kMaxReqCached]),
     req_to_cache_node_iter = map (\<lambda>i. (word_of_nat i, i, i)) [0..<kMaxReqCached], next_node = kMaxReqCached\<rparr>"

lemma wit_full_inv: "cache_inv word_of_nat wit_full"
proof -
  have "inj_on (word_of_nat :: nat \<Rightarrow> hash) {0..<kMaxReqCached}"
    by (auto simp: inj_on_def kMaxReqCached_def of_nat_eq_iff word_unat_eq_iff unat_of_nat take_bit_nat_eq_self)
  then show ?thesis
    by (auto simp: cache_inv_def wit_full_def distinct_map comp_def rev_map [symmetric] inj_on_def node_entry_def
        image_image)
qed

theorem changed_key_dangles_witness:
  "\<exists>ca'. addRespCache (word_of_nat(0 := 5000)) 2000 7 wit_full = Some ca' \<and> getRespCache word_of_nat 0 ca' = None"
  using changed_key_dangles [OF wit_full_inv, of "\<lparr>cn_id = 0, cn_req = 0, cn_resp = 0\<rparr>" "word_of_nat(0 := 5000)" 2000 7]
  by (simp add: wit_full_def kMaxReqCached_def last_map last_rev)

end
