(* ===== verification/Http_Server.thy ===== *)
theory Http_Server
  imports Tcp_Connection Http_Parser Http_Response Response_Cache
begin

text \<open>
  \<open>net::HTTPServer\<close> (\<open>srcs/net/server/http/http_server.h\<close>, \<open>http_server.cc\<close>): the callbacks
  it installs on every connection. \<open>connectionOnCreate\<close> gives the connection a parser;
  \<open>connectionOnRead\<close> parses what has arrived, finds or makes the response, decides whether
  to close, prints the response into the connection and shuts it down if so.

  Responses are shared pointers: the two fixed ones of the server, and those made for
  requests, which the cache may hold as well, kept here in the order they were made. A
  handler is a function of the request and of the new response. What the server uses of
  code outside the repository, and of objects of other connections, is the record
  \<open>http_env\<close>: the order in which an \<open>unordered_map\<close> is visited, the hash function of
  \<open>boost\<close>, the request objects of the other connections, and the pointer of this one's.
\<close>

section \<open>State\<close>

type_synonym handler = "http_request \<Rightarrow> http_response \<Rightarrow> http_response"

record http_server =
  responseCallbacks :: "string \<rightharpoonup> handler"
  kUseRespCache :: bool
  srv_cache :: resp_cache
  srv_responses :: "http_response list"

record http_env =
  he_order :: "http_response \<Rightarrow> string list"
  he_boost :: boost_hash
  he_others :: "nat \<Rightarrow> http_request"
  he_self :: nat

datatype resp_ref = BadRequestResp | NotFoundResp | RespPtr nat

text \<open>The static member \<open>kUseRespCache\<close> is set from the environment when the program starts.\<close>

definition initUseRespCache :: "string option \<Rightarrow> bool" where
  "initUseRespCache env = (case env of None \<Rightarrow> False | Some s \<Rightarrow> strtol s \<noteq> 0)"

definition HTTPServer_new :: "bool \<Rightarrow> http_server" where
  "HTTPServer_new use_cache = \<lparr>responseCallbacks = Map.empty, kUseRespCache = use_cache,
     srv_cache = resp_cache_new, srv_responses = []\<rparr>"

definition setResponseCallback :: "string \<Rightarrow> handler \<Rightarrow> http_server \<Rightarrow> http_server" where
  "setResponseCallback path cb srv = srv\<lparr>responseCallbacks := (responseCallbacks srv)(path \<mapsto> cb)\<rparr>"

definition bad_request_resp :: http_response where
  "bad_request_resp = setCloseConnection True (setStatusCode k400BadRequest HTTPResponse_new)"

definition not_found_resp :: http_response where
  "not_found_resp = setCloseConnection True (setStatusCode k404NotFound HTTPResponse_new)"

definition deref_resp :: "http_server \<Rightarrow> resp_ref \<Rightarrow> http_response option" where
  "deref_resp srv ref =
     (case ref of BadRequestResp \<Rightarrow> Some bad_request_resp | NotFoundResp \<Rightarrow> Some not_found_resp
      | RespPtr p \<Rightarrow> vec_at (srv_responses srv) p)"

section \<open>Callbacks\<close>

definition connectionOnCreate :: "('b, http_context) tcp_connection \<Rightarrow> ('b, http_context) tcp_connection option" where
  "connectionOnCreate c = Some (setContext HTTPContext_new c)"

definition make_response :: "handler \<Rightarrow> http_request \<Rightarrow> http_server \<Rightarrow> nat \<times> http_server" where
  "make_response cb req srv =
     (length (srv_responses srv), srv\<lparr>srv_responses := srv_responses srv @ [cb req HTTPResponse_new]\<rparr>)"

definition request_hash :: "http_env \<Rightarrow> http_request \<Rightarrow> nat \<Rightarrow> hash" where
  "request_hash E req = HTTPRequstPtrHash (he_boost E) (\<lambda>p. if p = he_self E then req else he_others E p)"

definition find_response :: "http_env \<Rightarrow> handler \<Rightarrow> http_request \<Rightarrow> http_server \<Rightarrow> (nat \<times> http_server) option" where
  "find_response E cb req srv =
     (if kUseRespCache srv then
        do {
          (hit, ca) \<leftarrow> getRespCache (request_hash E req) (he_self E) (srv_cache srv);
          (case hit of
             Some p \<Rightarrow> Some (p, srv\<lparr>srv_cache := ca\<rparr>)
           | None \<Rightarrow>
               do {
                 let (p, srv1) = make_response cb req (srv\<lparr>srv_cache := ca\<rparr>);
                 ca1 \<leftarrow> addRespCache (request_hash E req) (he_self E) p (srv_cache srv1);
                 Some (p, srv1\<lparr>srv_cache := ca1\<rparr>)
               })
        }
      else Some (make_response cb req srv))"

definition decide_close :: "http_request \<Rightarrow> nat \<Rightarrow> http_server \<Rightarrow> http_server option" where
  "decide_close req p srv =
     (if hasHeader ''Connection'' req then
        do {
          conn_value \<leftarrow> getHeader ''Connection'' req;
          let to_close = (conn_value = ''close'' \<or> (req_version req = kHttp10 \<and> conn_value = ''Keep-Alive''));
          r \<leftarrow> vec_at (srv_responses srv) p;
          Some (srv\<lparr>srv_responses := (srv_responses srv)[p := setCloseConnection to_close r]\<rparr>)
        }
      else Some srv)"

text \<open>
  The three parts of \<open>connectionOnRead\<close>: after the parser has run, the response is chosen
  (\<open>None\<close> when there is nothing to send yet), and then delivered.
\<close>

definition choose_response ::
  "http_env \<Rightarrow> bool \<Rightarrow> http_context \<Rightarrow> http_server \<Rightarrow> (resp_ref option \<times> http_server \<times> http_context) option" where
  "choose_response E ok ctx srv =
     (if parseFinished ctx then
        (let ctx1 = resetState ctx; req = ctx_request ctx in
         case responseCallbacks srv (req_path req) of
           Some cb \<Rightarrow>
             do {
               (p, srv1) \<leftarrow> find_response E cb req srv;
               srv2 \<leftarrow> decide_close req p srv1;
               Some (Some (RespPtr p), srv2, ctx1)
             }
         | None \<Rightarrow> Some (Some NotFoundResp, srv, ctx1))
      else Some (if \<not> ok then Some BadRequestResp else None, srv, ctx))"

definition deliver ::
  "('b, 'i) buffer_type \<Rightarrow> http_env \<Rightarrow> io_env \<Rightarrow> resp_ref option \<Rightarrow> (http_server, 'b, http_context) read_callback" where
  "deliver C E e resp srv c =
     (case resp of
        None \<Rightarrow> Some (srv, c)
      | Some ref \<Rightarrow>
          do {
            r \<leftarrow> deref_resp srv ref;
            c1 \<leftarrow> send C e (appendToBuffer C (he_order E r) r) c;
            c2 \<leftarrow> (if resp_close_connection r then shutdown e c1 else Some c1);
            Some (srv, c2)
          })"

definition connectionOnRead ::
  "('b, 'i) buffer_type \<Rightarrow> http_env \<Rightarrow> io_env \<Rightarrow> (http_server, 'b, http_context) read_callback" where
  "connectionOnRead C E e srv c =
     do {
       ctx \<leftarrow> conn_context c;
       (ok, ctx1, b) \<leftarrow> parseRequest (io_ndebug e) C ctx (conn_in c);
       (resp, srv1, ctx2) \<leftarrow> choose_response E ok ctx1 srv;
       deliver C E e resp srv1 (c\<lparr>conn_in := b, conn_context := Some ctx2\<rparr>)
     }"

text \<open>
  A connection of a running server calls it with another environment each time, since the requests of the other
  connections change. \<open>http_conn\<close> holds of the states such a connection can reach.
\<close>

definition http_read :: "('b, 'i) buffer_type \<Rightarrow> io_env \<Rightarrow> (http_server \<times> http_env, 'b, http_context) read_callback" where
  "http_read C e w c = map_option (\<lambda>(srv, c'). ((srv, snd w), c')) (connectionOnRead C (snd w) e (fst w) c)"

definition http_conn :: "('b, 'i) buffer_type \<Rightarrow> ('b, http_context) tcp_connection \<Rightarrow> bool" where
  "http_conn C = conn_reach C connectionOnCreate (http_read C)"

lemma http_read_run:
  "http_read C e w c = Some (w', c') \<longleftrightarrow> connectionOnRead C (snd w) e (fst w) c = Some (fst w', c') \<and> snd w' = snd w"
  by (cases w') (auto simp: http_read_def)

section \<open>The read callback is acceptable\<close>

context out_buffer
begin

lemma appends_trans:
  assumes "bt_append C xs b = Some b'" and "oinv b"
  shows "oinv b'" and "ocontent b' = ocontent b @ xs"
  using append_spec [OF assms(2), of xs] assms(1) by auto

lemma append_headers_extends:
  assumes "append_headers C hs keys b = Some b'" and "oinv b"
  shows "oinv b' \<and> (\<exists>s. ocontent b' = ocontent b @ s)"
  using assms
proof (induction keys arbitrary: b)
  case (Cons k keys)
  then obtain v b1 b2 b3 b4 where "bt_append C k b = Some b1" "bt_append C '': '' b1 = Some b2"
    "bt_append C v b2 = Some b3" "bt_append C kCRLF b3 = Some b4" "append_headers C hs keys b4 = Some b'"
    by (auto simp: bind_eq_Some_conv)
  with Cons show ?case using appends_trans by fastforce
qed simp

lemma appendToBuffer_extends:
  assumes "appendToBuffer C keys r b = Some b'" and "oinv b"
  shows "oinv b' \<and> (\<exists>s. s \<noteq> [] \<and> ocontent b' = ocontent b @ s)"
proof -
  obtain s1 b1 where b1: "bt_append C s1 b = Some b1"
    and "\<exists>b2 b3 b4. ((\<exists>s. bt_append C s b1 = Some b2) \<or> (\<exists>s s' b''. bt_append C s b1 = Some b'' \<and> bt_append C s' b'' = Some b2)) \<and>
      append_headers C (resp_headers r) keys b2 = Some b3 \<and> bt_append C kCRLF b3 = Some b4 \<and>
      bt_append C (resp_body r) b4 = Some b'"
    using assms(1) by (auto simp: appendToBuffer_def bind_eq_Some_conv Let_def split: if_splits; blast)
  then obtain b2 b3 b4 where b2: "(\<exists>s. bt_append C s b1 = Some b2) \<or>
      (\<exists>s s' b''. bt_append C s b1 = Some b'' \<and> bt_append C s' b'' = Some b2)"
    and b3: "append_headers C (resp_headers r) keys b2 = Some b3" and b4: "bt_append C kCRLF b3 = Some b4"
    and b5: "bt_append C (resp_body r) b4 = Some b'" by blast
  note o1 = appends_trans [OF b1 assms(2)]
  from b2 have o2: "oinv b2 \<and> (\<exists>s. ocontent b2 = ocontent b1 @ s)"
    using appends_trans o1 by (metis append_assoc)
  then obtain s3 where o3: "oinv b3" "ocontent b3 = ocontent b2 @ s3"
    using append_headers_extends [OF b3] by blast
  note o4 = appends_trans [OF b4 o3(1)]
  note o5 = appends_trans [OF b5 o4(1)]
  from o1 o2 o3 o4 o5 show ?thesis by (auto simp: kCRLF_def)
qed

end

context conn_buffers
begin

lemma parsed_ready:
  assumes "ready b" and "parseRequest nd C ctx b = Some (ok, ctx', b')"
  shows "ready b'"
  using parseRequest_at [OF assms(1), of nd ctx] assms(2) by (auto split: option.splits)

lemma send_response_sim:
  assumes "rel c a" and "a_status a = kConnected \<or> a_status a = kDisconnecting" and "env_ok e"
    and "send C e (appendToBuffer C keys r) c = Some c'"
    and "(if resp_close_connection r then shutdown e c' else Some c') = Some c''"
  shows "conn_sim iinv oinv ocontent c a c''"
proof (rule conn_sim_trans)
  have o: "oinv (conn_out c)" "ocontent (conn_out c) = a_pending a"
    using assms(1) by (simp_all add: conn_rel_def)
  from assms(4) obtain b where b: "appendToBuffer C keys r (conn_out c) = Some b" "io_ndebug e \<or> io_in_loop e"
    by (auto simp: send_def bind_eq_Some_conv)
  then obtain s where s: "s \<noteq> []" "oinv b" "ocontent b = a_pending a @ s"
    using appendToBuffer_extends [OF b(1) o(1)] o(2) by auto
  from send_refines [where cb = "appendToBuffer C keys r", OF assms(1) b(1) s(2,3,1) _ b(2)] assms(3,4)
  obtain n where n: "n \<le> int (length (a_pending a @ s))" "rel c' (abs_send s n a)" "conn_frame c c'"
    by (auto simp: env_ok_def)
  show "conn_sim iinv oinv ocontent c a c'"
    by (rule conn_sim_step [OF abs_step_send [OF _ s(1) n(1)] n(2)])
      (use assms(2) n(3) in \<open>auto simp: abs_send_def Let_def conn_frame_def\<close>)
next
  fix a'
  assume "abs_step\<^sup>*\<^sup>* a a'" "rel c' a'"
  moreover from this assms(2) have "a_status a' \<noteq> kConnecting"
    by (metis abs_steps_status conn_status.distinct(1,3))
  ultimately show "conn_sim iinv oinv ocontent c' a' c''"
    using assms(5) by (cases "resp_close_connection r") (auto intro: shutdown_sim conn_sim_refl)
qed

lemma http_read_ok: "read_callback_ok iinv ready oinv ocontent (http_read C)"
  unfolding read_callback_ok_def
proof (intro allI impI)
  fix e w c a w' c'
  assume env: "env_ok e" and rd: "ready (conn_in c)" and r: "rel c a"
    and st: "a_status a = kConnected \<or> a_status a = kDisconnecting"
    and "http_read C e w c = Some (w', c')"
  then obtain E srv srv' where run: "connectionOnRead C E e srv c = Some (srv', c')" by (auto simp: http_read_run)
  obtain ctx ok ctx1 b where p: "conn_context c = Some ctx"
    "parseRequest (io_ndebug e) C ctx (conn_in c) = Some (ok, ctx1, b)"
    using run by (auto simp: connectionOnRead_def bind_eq_Some_conv)
  have c2: "rel (c\<lparr>conn_in := b, conn_context := x\<rparr>) a" for x
    using r ready_inv [OF parsed_ready [OF rd p(2)]] by (simp add: conn_rel_def)
  obtain resp srv1 x where "deliver C E e resp srv1 (c\<lparr>conn_in := b, conn_context := Some x\<rparr>) = Some (srv', c')"
    using run p by (auto simp: connectionOnRead_def bind_eq_Some_conv)
  then have "conn_sim iinv oinv ocontent (c\<lparr>conn_in := b, conn_context := Some x\<rparr>) a c'"
    using send_response_sim [OF c2 st env] conn_sim_refl [OF c2]
    by (cases resp) (auto simp: deliver_def bind_eq_Some_conv)
  then show "conn_sim iinv oinv ocontent c a c'"
    by (simp add: conn_sim_def)
qed

end

lemma http_create_ok: "create_callback_ok iinv oinv oc connectionOnCreate"
  by (simp add: create_callback_ok_def connectionOnCreate_def setContext_def conn_rel_def)

context conn_buffers
begin

lemma http_conn_refines: "http_conn C c \<Longrightarrow> \<exists>a. abs_reach a \<and> rel c a"
  unfolding http_conn_def by (rule conn_reach_refines [OF _ http_read_ok http_create_ok])

end

section \<open>One response\<close>

text \<open>A kernel that takes a given text whole, and fails when it is offered anything else.\<close>

definition kernel_takes :: "string \<Rightarrow> sys_writev" where
  "kernel_takes t vs = (if concat vs = t then int (length t) else - 1)"

lemma kernel_takes_ok: "writev_contract (kernel_takes t)"
  by (auto simp: writev_contract_def kernel_takes_def)

definition sent_whole ::
  "('b \<Rightarrow> bool) \<Rightarrow> ('b \<Rightarrow> string) \<Rightarrow> string \<Rightarrow> bool \<Rightarrow> ('b, 'c) tcp_connection \<Rightarrow> ('b, 'c) tcp_connection \<Rightarrow> bool" where
  "sent_whole oinv ocontent t close c c' \<longleftrightarrow>
     ocontent (conn_out c') = [] \<and> conn_in c' = conn_in c \<and> conn_context c' = conn_context c \<and>
     oinv (conn_out c') \<and> conn_channel c' = conn_channel c \<and>
     conn_trace c' = conn_trace c @ Written (int (length t)) # (if close then [ShutdownWr] else []) \<and>
     conn_status c' = (if close then kDisconnecting else conn_status c)"

context out_buffer
begin

lemma deliver_whole:
  assumes "deref_resp srv ref = Some r" and "response_ok r" and "key_order r (he_order E r)"
    and "io_writev e = kernel_takes (response_text (he_order E r) r)" and "io_ndebug e \<or> io_in_loop e"
    and "oinv (conn_out c)" and "ocontent (conn_out c) = []"
    and "\<not> isWriting (conn_channel c)" and "conn_status c = kConnected"
  shows "\<exists>c'. deliver C E e (Some ref) srv c = Some (srv, c') \<and>
    sent_whole oinv ocontent (response_text (he_order E r) r) (resp_close_connection r) c c'"
proof -
  let ?t = "response_text (he_order E r) r"
  obtain b where b: "appendToBuffer C (he_order E r) r (conn_out c) = Some b" "oinv b" "ocontent b = ?t"
    using appendToBuffer_text [OF assms(6,2,3)] assms(7) by auto
  have "?t \<noteq> []" by (simp add: response_text_def kCRLF_def)
  then obtain vs b' where "concat vs = ?t" "bt_readToFD C (kernel_takes ?t) b = Some (kernel_takes ?t vs, b')" "oinv b'"
    "ocontent b' = drop (nat (kernel_takes ?t vs)) ?t" "bt_readableSize C b' = Some (length (ocontent b'))"
    using readToFD_spec [OF b(2) _ kernel_takes_ok [of ?t]] b(3) by auto
  then have b': "bt_readToFD C (kernel_takes ?t) b = Some (int (length ?t), b')" "oinv b'" "ocontent b' = []"
    "bt_readableSize C b' = Some 0"
    by (simp_all add: kernel_takes_def)
  show ?thesis
    using assms b(1) b'
    by (auto simp: deliver_def send_def shutdown_def cpp_assert_def Let_def sent_whole_def)
qed

end

section \<open>Properties\<close>


definition wit_boost :: boost_hash where
  "wit_boost = \<lparr>hash_combine = (\<lambda>seed h. 31 * seed + h), hash_method = (\<lambda>_. 1), hash_version = (\<lambda>_. 2),
     hash_string = (\<lambda>s. word_of_nat (length s)), hash_headers = (\<lambda>_. 3)\<rparr>"

definition wit_env :: http_env where
  "wit_env = \<lparr>he_order = (\<lambda>_. []), he_boost = wit_boost,
     he_others = (\<lambda>_. HTTPRequest_new), he_self = 0\<rparr>"


text \<open>
  Without the cache, a complete request for a path with a handler is answered by that handler's response, its
  close flag set by the \<open>Connection\<close> header of the request, if there is one.
\<close>

definition response_to :: "handler \<Rightarrow> http_request \<Rightarrow> http_response" where
  "response_to cb req =
     (case req_headers req ''Connection'' of
        None \<Rightarrow> cb req HTTPResponse_new
      | Some x \<Rightarrow> setCloseConnection (x = ''close'' \<or> req_version req = kHttp10 \<and> x = ''Keep-Alive'') (cb req HTTPResponse_new))"

lemma response_chosen:
  assumes "responseCallbacks srv (req_path req) = Some cb" and "\<not> kUseRespCache srv"
  shows "choose_response E True \<lparr>ctx_state = kGotAll, ctx_request = req\<rparr> srv =
    Some (Some (RespPtr (length (srv_responses srv))), srv\<lparr>srv_responses := srv_responses srv @ [response_to cb req]\<rparr>,
      \<lparr>ctx_state = kExpectRequestLine, ctx_request = req\<rparr>)"
  using assms
  by (auto simp: choose_response_def parseFinished_def resetState_def find_response_def response_to_def
      make_response_def decide_close_def hasHeader_def getHeader_def vec_at_def Let_def split: option.splits)

lemma response_to_rendered:
  assumes "v \<in> set gHttpVersions" and "req = request_of m path q v hs"
  shows "response_to cb req = (case map_of hs ''Connection'' of None \<Rightarrow> cb req HTTPResponse_new
      | Some x \<Rightarrow> setCloseConnection (x = ''close'' \<or> v = ''1.0'' \<and> x = ''Keep-Alive'') (cb req HTTPResponse_new))"
proof -
  have "req_version req = kHttp10 \<longleftrightarrow> v = ''1.0''"
    using assms by (auto simp: request_of_def gHttpVersions_def HttpVersions_def vec_find_def)
  moreover have "req_headers req = map_of hs" using assms(2) by (simp add: request_of_def)
  ultimately show ?thesis by (simp add: response_to_def split: option.split)
qed

lemma handler_chosen:
  assumes "v \<in> set gHttpVersions" and "req = request_of m path q v hs"
    and "responseCallbacks srv path = Some cb" and "\<not> kUseRespCache srv"
    and "r = (case map_of hs ''Connection'' of None \<Rightarrow> cb req HTTPResponse_new
        | Some x \<Rightarrow> setCloseConnection (x = ''close'' \<or> v = ''1.0'' \<and> x = ''Keep-Alive'') (cb req HTTPResponse_new))"
  shows "choose_response E True \<lparr>ctx_state = kGotAll, ctx_request = req\<rparr> srv =
    Some (Some (RespPtr (length (srv_responses srv))), srv\<lparr>srv_responses := srv_responses srv @ [r]\<rparr>,
      \<lparr>ctx_state = kExpectRequestLine, ctx_request = req\<rparr>)"
proof -
  have "req_path req = path" using assms(2) by (simp add: request_of_def)
  with response_chosen [of srv req cb E] response_to_rendered [OF assms(1,2), of cb] assms(3-5) show ?thesis by simp
qed

text \<open>
  C4: a complete request is answered. When a fresh connection has received a request in
  the usual wire form for a path with a handler, and the kernel takes the output whole, the
  handler's response to exactly that request is what is sent, with the close flag decided by
  the \<open>Connection\<close> header; the connection is shut down if and only if the flag is set; the
  parser is ready for the next request; and the bytes behind the request stay unread, also
  when they are a complete request.
\<close>

theorem request_answered:
  assumes "m \<in> set gHttpMethods" and "m \<noteq> ''POST''" and "path_ok path" and "query_ok q"
    and "v \<in> set gHttpVersions" and "headers_ok hs" and "req = request_of m path q v hs"
    and "responseCallbacks srv path = Some cb" and "\<not> kUseRespCache srv"
    and "r = (case map_of hs ''Connection'' of None \<Rightarrow> cb req HTTPResponse_new
        | Some x \<Rightarrow> setCloseConnection (x = ''close'' \<or> v = ''1.0'' \<and> x = ''Keep-Alive'') (cb req HTTPResponse_new))"
    and "response_ok r" and "key_order r (he_order E r)"
    and "io_writev e = kernel_takes (response_text (he_order E r) r)" and "io_ndebug e \<or> io_in_loop e"
    and "conn_context c = Some HTTPContext_new" and "conn_status c = kConnected" and "\<not> isWriting (conn_channel c)"
    and "lb_ready (conn_in c)" and "lb_content (conn_in c) = render_request m path q v hs @ rest"
    and "lb_inv (conn_out c)" and "lb_content (conn_out c) = []"
  shows "\<exists>srv' c' l. connectionOnRead LinkedBuffer_type E e srv c = Some (srv', c') \<and>
    lb_ready l \<and> lb_content l = rest \<and>
    sent_whole lb_inv lb_content (response_text (he_order E r) r) (resp_close_connection r)
      (c\<lparr>conn_in := l, conn_context := Some \<lparr>ctx_state = kExpectRequestLine, ctx_request = req\<rparr>\<rparr>) c'"
proof -
  let ?ctx = "\<lparr>ctx_state = kGotAll, ctx_request = req\<rparr>"
  obtain l where l: "parseRequest (io_ndebug e) LinkedBuffer_type HTTPContext_new (conn_in c) = Some (True, ?ctx, l)"
    "lb_ready l" "lb_content l = rest"
    using linked_in.parseRequest_SomeI [OF assms(18)] parse_rendered [OF assms(1,3,4,5,6,2)] assms(7,19) by metis
  let ?p = "length (srv_responses srv)"
  let ?srv = "srv\<lparr>srv_responses := srv_responses srv @ [r]\<rparr>"
  have "choose_response E True ?ctx srv = Some (Some (RespPtr ?p), ?srv, ?ctx\<lparr>ctx_state := kExpectRequestLine\<rparr>)"
    using handler_chosen [OF assms(5,7-10)] by simp
  moreover have "deref_resp ?srv (RespPtr ?p) = Some r"
    by (simp add: deref_resp_def vec_at_def)
  ultimately show ?thesis
    using linked_out.deliver_whole [of ?srv "RespPtr ?p" r E e
        "c\<lparr>conn_in := l, conn_context := Some (?ctx\<lparr>ctx_state := kExpectRequestLine\<rparr>)\<rparr>"] assms(11-17,20,21) l
    by (auto simp: connectionOnRead_def)
qed

text \<open>A server with one handler, a connection that has received a text, a kernel that takes one.\<close>

definition wit_handler :: handler where
  "wit_handler req r = setBody (req_path req) (setStatusCode k200Ok r)"

definition wit_server :: http_server where
  "wit_server = setResponseCallback ''/a'' wit_handler (HTTPServer_new False)"

definition wit_conn :: "string \<Rightarrow> (linked_buffer, http_context) tcp_connection" where
  "wit_conn s = (TCPConnection_new LinkedBuffer_type 7 ''a'')\<lparr>conn_in := wit_linked s, conn_status := kConnected,
     conn_context := Some HTTPContext_new\<rparr>"

definition wit_io :: "string \<Rightarrow> io_env" where
  "wit_io t = \<lparr>io_ndebug = True, io_in_loop = True, io_readv = (\<lambda>_. SysErr), io_writev = kernel_takes t\<rparr>"

lemma wit_conn_simps [simp]:
  "conn_context (wit_conn s) = Some HTTPContext_new" "conn_status (wit_conn s) = kConnected"
  "\<not> isWriting (conn_channel (wit_conn s))" "conn_in (wit_conn s) = wit_linked s"
  "conn_out (wit_conn s) = LinkedBuffer_new" "conn_trace (wit_conn s) = []"
  "io_writev (wit_io t) = kernel_takes t" "io_ndebug (wit_io t)"
  by (simp_all add: wit_conn_def TCPConnection_new_def wit_io_def)

lemmas wit_server_defs = wit_server_def setResponseCallback_def HTTPServer_new_def wit_handler_def wit_env_def
  setBody_def setStatusCode_def HTTPResponse_new_def

definition wit_hello :: http_response where
  "wit_hello = wit_handler (request_of ''GET'' ''/a'' None ''1.1'' []) HTTPResponse_new"

theorem request_answered_witness:
  "\<exists>srv' c'. connectionOnRead LinkedBuffer_type wit_env (wit_io (response_text [] wit_hello)) wit_server
      (wit_conn (render_request ''GET'' ''/a'' None ''1.1'' [] @ ''GET'')) = Some (srv', c') \<and>
    conn_trace c' = [Written (int (length (response_text [] wit_hello)))] \<and> lb_content (conn_in c') = ''GET''"
proof -
  have r: "response_ok wit_hello" "key_order wit_hello (he_order wit_env wit_hello)" "\<not> resp_close_connection wit_hello"
    "he_order wit_env wit_hello = []"
    by (simp_all add: wit_hello_def wit_server_defs response_ok_def key_order_def request_of_def)
  show ?thesis
    using request_answered [of "''GET''" "''/a''" None "''1.1''" "[]" "request_of ''GET'' ''/a'' None ''1.1'' []"
        wit_server wit_handler wit_hello wit_env "wit_io (response_text [] wit_hello)"
        "wit_conn (render_request ''GET'' ''/a'' None ''1.1'' [] @ ''GET'')" "''GET''"] r
    by (auto simp: gHttpMethods_def gHttpVersions_def path_ok_def query_ok_def headers_ok_def wit_linked_ok lb_inv_new
        wit_hello_def sent_whole_def wit_server_def setResponseCallback_def HTTPServer_new_def)
qed

text \<open>
  C17: a request for a path without a handler is answered with the 404 response and the
  connection is shut down; the parser is ready again.
\<close>

theorem unknown_path_not_found:
  assumes "m \<in> set gHttpMethods" and "m \<noteq> ''POST''" and "path_ok path" and "query_ok q"
    and "v \<in> set gHttpVersions" and "headers_ok hs" and "responseCallbacks srv path = None"
    and "he_order E not_found_resp = []"
    and "io_writev e = kernel_takes (response_text [] not_found_resp)" and "io_ndebug e \<or> io_in_loop e"
    and "conn_context c = Some HTTPContext_new" and "conn_status c = kConnected" and "\<not> isWriting (conn_channel c)"
    and "lb_ready (conn_in c)" and "lb_content (conn_in c) = render_request m path q v hs @ rest"
    and "lb_inv (conn_out c)" and "lb_content (conn_out c) = []"
  shows "\<exists>c' l. connectionOnRead LinkedBuffer_type E e srv c = Some (srv, c') \<and> lb_content l = rest \<and>
    sent_whole lb_inv lb_content (response_text [] not_found_resp) True
      (c\<lparr>conn_in := l, conn_context := Some \<lparr>ctx_state = kExpectRequestLine, ctx_request = request_of m path q v hs\<rparr>\<rparr>) c'"
proof -
  let ?ctx = "\<lparr>ctx_state = kGotAll, ctx_request = request_of m path q v hs\<rparr>"
  obtain l where l: "parseRequest (io_ndebug e) LinkedBuffer_type HTTPContext_new (conn_in c) = Some (True, ?ctx, l)"
    "lb_content l = rest"
    using linked_in.parseRequest_SomeI [OF assms(14)] parse_rendered [OF assms(1,3,4,5,6,2)] assms(15) by metis
  have "choose_response E True ?ctx srv = Some (Some NotFoundResp, srv, ?ctx\<lparr>ctx_state := kExpectRequestLine\<rparr>)"
    using assms(7) by (simp add: choose_response_def parseFinished_def resetState_def request_of_def Let_def)
  moreover have "response_ok not_found_resp" "key_order not_found_resp []" "resp_close_connection not_found_resp"
    by (simp_all add: not_found_resp_def response_ok_def key_order_def setCloseConnection_def setStatusCode_def
        HTTPResponse_new_def)
  ultimately show ?thesis
    using linked_out.deliver_whole [of srv NotFoundResp not_found_resp E e
        "c\<lparr>conn_in := l, conn_context := Some (?ctx\<lparr>ctx_state := kExpectRequestLine\<rparr>)\<rparr>"] assms(8-13,16,17) l
    by (auto simp: connectionOnRead_def deref_resp_def)
qed

theorem unknown_path_not_found_witness:
  "\<exists>c'. connectionOnRead LinkedBuffer_type wit_env (wit_io (response_text [] not_found_resp)) wit_server
      (wit_conn (render_request ''GET'' ''/b'' None ''1.1'' [])) = Some (wit_server, c') \<and> ShutdownWr \<in> set (conn_trace c')"
  using unknown_path_not_found [of "''GET''" "''/b''" None "''1.1''" "[]" wit_server wit_env
      "wit_io (response_text [] not_found_resp)" "wit_conn (render_request ''GET'' ''/b'' None ''1.1'' [])" "[]"]
  by (auto simp: gHttpMethods_def gHttpVersions_def path_ok_def query_ok_def headers_ok_def wit_linked_ok lb_inv_new
      sent_whole_def wit_server_defs)

text \<open>
  C19: a request line that does not start with a known method and a space is answered with
  the 400 response and the connection is shut down. Nothing of the input is consumed and
  the parser still expects a request line, so any further byte from the client makes the
  server answer the same line again, on a socket whose write side is shut down.
\<close>

definition bad_line :: "string \<Rightarrow> bool" where
  "bad_line l \<longleftrightarrow> CHR 0x0D \<notin> set l \<and>
     (CHR '' '' \<notin> set l \<or> takeWhile (\<lambda>x. x \<noteq> CHR '' '') l \<notin> set gHttpMethods)"

lemma bad_line_spec: "bad_line l \<Longrightarrow> request_line_spec l req = Some (False, req)"
proof (cases "CHR '' '' \<in> set l")
  case False
  then have "takeWhile (\<lambda>x. x \<noteq> CHR '' '') l = l" by (auto simp: takeWhile_eq_all_conv)
  then have "find_index (CHR '' '') l = length l" by (simp only: find_index_takeWhile)
  then show ?thesis by (simp add: request_line_spec_def Let_def)
next
  case True
  moreover assume "bad_line l"
  ultimately have "vec_find gHttpMethods (takeWhile (\<lambda>x. x \<noteq> CHR '' '') l) = length gHttpMethods"
    by (intro vec_find_notin) (simp add: bad_line_def)
  then show ?thesis
    by (simp add: request_line_spec_def find_index_takeWhile method_spec_def takeWhile_eq_take [symmetric] Let_def)
qed

theorem bad_request_repeats:
  assumes "bad_line l" and "conn_context c = Some \<lparr>ctx_state = kExpectRequestLine, ctx_request = req\<rparr>"
    and "he_order E bad_request_resp = []"
    and "io_writev e = kernel_takes (response_text [] bad_request_resp)" and "io_ndebug e \<or> io_in_loop e"
    and "conn_status c = kConnected" and "\<not> isWriting (conn_channel c)"
    and "lb_ready (conn_in c)" and "lb_content (conn_in c) = l @ kCRLF @ rest"
    and "lb_inv (conn_out c)" and "lb_content (conn_out c) = []"
  shows "\<exists>c' b. connectionOnRead LinkedBuffer_type E e srv c = Some (srv, c') \<and> lb_content b = l @ kCRLF @ rest \<and>
    sent_whole lb_inv lb_content (response_text [] bad_request_resp) True (c\<lparr>conn_in := b\<rparr>) c'"
proof -
  let ?ctx = "\<lparr>ctx_state = kExpectRequestLine, ctx_request = req\<rparr>"
  have "parse_spec (io_ndebug e) ?ctx (l @ kCRLF @ rest) = Some (False, ?ctx, l @ kCRLF @ rest)"
    using parse_spec_line [of ?ctx l "io_ndebug e" rest] assms(1) bad_line_spec [OF assms(1)]
    by (simp add: line_spec_def bad_line_def)
  then obtain b where b: "parseRequest (io_ndebug e) LinkedBuffer_type ?ctx (conn_in c) = Some (False, ?ctx, b)"
    "lb_content b = l @ kCRLF @ rest"
    using linked_in.parseRequest_SomeI [OF assms(8)] assms(9) by metis
  have "choose_response E False ?ctx srv = Some (Some BadRequestResp, srv, ?ctx)"
    by (simp add: choose_response_def parseFinished_def)
  moreover have "response_ok bad_request_resp" "key_order bad_request_resp []" "resp_close_connection bad_request_resp"
    by (simp_all add: bad_request_resp_def response_ok_def key_order_def setCloseConnection_def setStatusCode_def
        HTTPResponse_new_def)
  ultimately show ?thesis
    using linked_out.deliver_whole [of srv BadRequestResp bad_request_resp E e
        "c\<lparr>conn_in := b, conn_context := Some ?ctx\<rparr>"] assms(2-7,10,11) b
    by (auto simp: connectionOnRead_def deref_resp_def sent_whole_def)
qed

theorem bad_request_repeats_witness:
  "\<exists>c'. connectionOnRead LinkedBuffer_type wit_env (wit_io (response_text [] bad_request_resp)) wit_server
      (wit_conn (''FETCH /a'' @ kCRLF @ [])) = Some (wit_server, c') \<and> ShutdownWr \<in> set (conn_trace c')"
  using bad_request_repeats [of "''FETCH /a''" "wit_conn (''FETCH /a'' @ kCRLF @ [])" HTTPRequest_new wit_env
      "wit_io (response_text [] bad_request_resp)" "[]" wit_server]
  by (auto simp: bad_line_def gHttpMethods_def HTTPContext_new_def wit_linked_ok lb_inv_new sent_whole_def wit_env_def)

text \<open>
  Which responses close the connection. A request with a \<open>Connection\<close> header decides:
  \<open>close\<close> closes, \<open>Keep-Alive\<close> keeps an HTTP/1.1 connection and closes an HTTP/1.0 one, any
  other value keeps. Without the header the handler's choice stands, for HTTP/1.0 as well.
\<close>

theorem keep_alive_decision:
  assumes "p < length (srv_responses srv)"
  shows "\<exists>srv'. decide_close req p srv = Some srv' \<and> length (srv_responses srv') = length (srv_responses srv) \<and>
    resp_close_connection (srv_responses srv' ! p) =
      (case req_headers req ''Connection'' of
         None \<Rightarrow> resp_close_connection (srv_responses srv ! p)
       | Some x \<Rightarrow> x = ''close'' \<or> req_version req = kHttp10 \<and> x = ''Keep-Alive'')"
  using assms
  by (auto simp: decide_close_def hasHeader_def getHeader_def vec_at_def setCloseConnection_def Let_def
      split: option.splits)

theorem keep_alive_decision_witness:
  "\<exists>srv'. decide_close (request_of ''GET'' ''/a'' None ''1.0'' [(''Connection'', ''Keep-Alive'')]) 0
      (wit_server\<lparr>srv_responses := [wit_hello]\<rparr>) = Some srv' \<and> resp_close_connection (srv_responses srv' ! 0)"
  using keep_alive_decision [of 0 "wit_server\<lparr>srv_responses := [wit_hello]\<rparr>"
      "request_of ''GET'' ''/a'' None ''1.0'' [(''Connection'', ''Keep-Alive'')]"]
  by (auto simp: request_of_def gHttpVersions_def HttpVersions_def vec_find_def)

text \<open>
  The cache answers a request whose hash value it knows with the stored response object
  and does not run the handler; otherwise the handler runs once, on a new response, which is
  then stored. The response object is shared: no copy is made.
\<close>

theorem cached_response:
  assumes "kUseRespCache srv" and "cache_inv (request_hash E req) (srv_cache srv)"
  shows "\<exists>p srv'. find_response E cb req srv = Some (p, srv') \<and> cache_inv (request_hash E req) (srv_cache srv') \<and>
    map_of (lru_of (request_hash E req) (srv_cache srv')) (to_hash_value (he_boost E) req) = Some p \<and>
    (case map_of (lru_of (request_hash E req) (srv_cache srv)) (to_hash_value (he_boost E) req) of
       Some q \<Rightarrow> p = q \<and> srv_responses srv' = srv_responses srv
     | None \<Rightarrow> p = length (srv_responses srv) \<and>
         srv_responses srv' = srv_responses srv @ [cb req HTTPResponse_new])"
proof -
  let ?h = "request_hash E req"
  have self: "?h (he_self E) = to_hash_value (he_boost E) req" by (simp add: request_hash_def HTTPRequstPtrHash_def)
  obtain r ca where ca: "getRespCache ?h (he_self E) (srv_cache srv) = Some (r, ca)" "cache_inv ?h ca"
    "lru_get (?h (he_self E)) (lru_of ?h (srv_cache srv)) = (r, lru_of ?h ca)"
    using getRespCache_refines [OF assms(2)] by blast
  show ?thesis
  proof (cases r)
    case (Some p)
    with ca(3) have "map_of (lru_of ?h (srv_cache srv)) (to_hash_value (he_boost E) req) = Some p"
      "lru_of ?h ca = (to_hash_value (he_boost E) req, p) # filter (\<lambda>e. fst e \<noteq> to_hash_value (he_boost E) req) (lru_of ?h (srv_cache srv))"
      by (auto simp: lru_get_def self split: option.splits)
    with Some ca(1,2) assms(1) show ?thesis by (simp add: find_response_def)
  next
    case None
    with ca(3) have miss: "map_of (lru_of ?h (srv_cache srv)) (?h (he_self E)) = None"
      and same: "lru_of ?h ca = lru_of ?h (srv_cache srv)"
      by (auto simp: lru_get_def split: option.splits)
    then have "?h (he_self E) \<notin> fst ` set (lru_of ?h ca)" by (simp add: map_of_eq_None_iff)
    from addRespCache_refines [OF ca(2) this, of "length (srv_responses srv)"] None ca(1) miss assms(1) show ?thesis
      by (auto simp: find_response_def make_response_def lru_add_def self Let_def)
  qed
qed

theorem cached_response_witness:
  "\<exists>p srv'. find_response wit_env wit_handler HTTPRequest_new (HTTPServer_new True) = Some (p, srv') \<and>
    srv_responses srv' = [wit_handler HTTPRequest_new HTTPResponse_new]"
  using cached_response [of "HTTPServer_new True" wit_env HTTPRequest_new wit_handler]
  by (auto simp: HTTPServer_new_def cache_inv_new lru_of_def resp_cache_new_def cache_inv_new [unfolded resp_cache_new_def])

end
