(* ===== verification/Cache_Valid.thy ===== *)
theory Cache_Valid
  imports Http_Server
begin

text \<open>
  What clients get from a server that uses its response cache. Requests are the keys of the cache through their hash values, so the cache is a
  memory of the handlers as long as the requests in play have different hash values; and since
  the request objects that are its keys change with the next request of their connection, as long as no entry has to be dropped. Under these two
  conditions every request is answered as the handler would answer it.
\<close>

section \<open>Validity\<close>

text \<open>
  Every entry of the table leads to a node, and the response stored there is the one of the handler to a request with
  the hash value of the entry. The keys may have changed since. There is room for \<open>n\<close> more entries.
\<close>

definition entry_valid :: "boost_hash \<Rightarrow> http_request set \<Rightarrow> http_server \<Rightarrow> hash \<times> nat \<times> nat \<Rightarrow> bool" where
  "entry_valid B U srv = (\<lambda>(code, q, it).
     \<exists>nd \<in> set (cache_node_list (srv_cache srv)). cn_id nd = it \<and>
       (\<exists>req \<in> U. to_hash_value B req = code \<and>
         (\<exists>cb. responseCallbacks srv (req_path req) = Some cb \<and>
           vec_at (srv_responses srv) (cn_resp nd) = Some (response_to cb req))))"

definition cache_valid :: "boost_hash \<Rightarrow> http_request set \<Rightarrow> nat \<Rightarrow> http_server \<Rightarrow> bool" where
  "cache_valid B U n srv \<longleftrightarrow> (kUseRespCache srv \<longrightarrow>
     inj_on (to_hash_value B) U \<and>
     distinct (map cn_id (cache_node_list (srv_cache srv))) \<and>
     (\<forall>nd \<in> set (cache_node_list (srv_cache srv)). cn_id nd < next_node (srv_cache srv)) \<and>
     length (req_to_cache_node_iter (srv_cache srv)) + n \<le> kMaxReqCached \<and>
     (\<forall>en \<in> set (req_to_cache_node_iter (srv_cache srv)). entry_valid B U srv en))"

lemma cache_valid_off: "\<not> kUseRespCache srv \<Longrightarrow> cache_valid B U n srv"
  by (simp add: cache_valid_def)

lemma cache_valid_new:
  "srv_cache srv = resp_cache_new \<Longrightarrow> inj_on (to_hash_value B) U \<Longrightarrow> n \<le> kMaxReqCached \<Longrightarrow> cache_valid B U n srv"
  by (simp add: cache_valid_def resp_cache_new_def)

lemma cache_valid_less: "cache_valid B U (Suc n) srv \<Longrightarrow> cache_valid B U n srv"
  by (auto simp: cache_valid_def)

lemma find_in_set: "find P xs = Some x \<Longrightarrow> x \<in> set xs \<and> P x"
  by (metis find_Some_iff nth_mem)

lemma entry_valid_mono:
  assumes "entry_valid B U srv en" and "set (cache_node_list (srv_cache srv)) \<subseteq> set (cache_node_list (srv_cache srv'))"
    and "responseCallbacks srv' = responseCallbacks srv"
    and "\<And>p r. vec_at (srv_responses srv) p = Some r \<Longrightarrow> vec_at (srv_responses srv') p = Some r"
  shows "entry_valid B U srv' en"
  using assms unfolding entry_valid_def by (auto split: prod.splits) (metis subsetD)

section \<open>Hits and misses\<close>

lemma splice_set:
  assumes "n \<in> set l" "distinct (map cn_id l)"
  shows "set (n # remove1 n l) = set l" "distinct (map cn_id (n # remove1 n l))"
  using assms by (auto simp: distinct_map inj_on_def)

text \<open>A hit gives a response that is valid for the request, and only moves a node.\<close>

lemma cache_hit:
  assumes "cache_valid (he_boost E) U n srv" "kUseRespCache srv" "req \<in> U"
    and "getRespCache (request_hash E req) (he_self E) (srv_cache srv) = Some (Some p, ca)"
    and "responseCallbacks srv (req_path req) = Some cb"
  shows "vec_at (srv_responses srv) p = Some (response_to cb req)" "cache_valid (he_boost E) U n (srv\<lparr>srv_cache := ca\<rparr>)"
proof -
  let ?l = "cache_node_list (srv_cache srv)"
  have v: "inj_on (to_hash_value (he_boost E)) U" "distinct (map cn_id ?l)"
    "\<And>en. en \<in> set (req_to_cache_node_iter (srv_cache srv)) \<Longrightarrow> entry_valid (he_boost E) U srv en"
    using assms(1,2) by (auto simp: cache_valid_def)
  from assms(4) obtain code q it nd where
    tf: "table_find (request_hash E req) (req_to_cache_node_iter (srv_cache srv)) (he_self E) = Some (code, q, it)"
    and nd: "find (\<lambda>nd. cn_id nd = it) ?l = Some nd"
    and ca: "ca = (if cn_id (hd ?l) \<noteq> it then (srv_cache srv)\<lparr>cache_node_list := nd # remove1 nd ?l\<rparr> else srv_cache srv)"
    and p: "p = cn_resp (hd (cache_node_list ca))"
    by (auto simp: getRespCache_def bind_eq_Some_conv Let_def split: option.splits)
  have nd': "nd \<in> set ?l" "cn_id nd = it" using nd by (auto simp: find_Some_iff)
  then have hd: "cn_id (hd ?l) = it \<Longrightarrow> hd ?l = nd"
    using v(2) by (metis distinct_map hd_in_set inj_onD list.set_cases neq_Nil_conv)
  have en: "(code, q, it) \<in> set (req_to_cache_node_iter (srv_cache srv))" "code = to_hash_value (he_boost E) req"
    using tf by (auto simp: table_find_def find_Some_iff request_hash_def HTTPRequstPtrHash_def in_set_conv_nth)
  from v(3) [OF en(1)] obtain nd2 req2 cb2 where e: "nd2 \<in> set ?l" "cn_id nd2 = it" "req2 \<in> U" "to_hash_value (he_boost E) req2 = code"
    "responseCallbacks srv (req_path req2) = Some cb2" "vec_at (srv_responses srv) (cn_resp nd2) = Some (response_to cb2 req2)"
    by (auto simp: entry_valid_def)
  have "req2 = req" using v(1) e(3,4) en(2) assms(3) by (auto dest: inj_onD)
  moreover have "nd2 = nd" using v(2) e(1,2) nd' by (metis distinct_map inj_onD)
  moreover have "p = cn_resp nd" using p ca hd by (auto split: if_splits)
  ultimately show "vec_at (srv_responses srv) p = Some (response_to cb req)" using e(5,6) assms(5) by simp
  have l: "set (cache_node_list ca) = set ?l" "distinct (map cn_id (cache_node_list ca))" "next_node ca = next_node (srv_cache srv)"
    "req_to_cache_node_iter ca = req_to_cache_node_iter (srv_cache srv)"
    using splice_set [OF nd'(1) v(2)] v(2) ca by auto
  then show "cache_valid (he_boost E) U n (srv\<lparr>srv_cache := ca\<rparr>)"
    using assms(1) by (auto simp: cache_valid_def intro: entry_valid_mono)
qed

text \<open>A miss stores the new response.\<close>

lemma cache_miss:
  assumes "cache_valid (he_boost E) U (Suc n) srv" "kUseRespCache srv" "req \<in> U"
    and "getRespCache (request_hash E req) (he_self E) (srv_cache srv) = Some (None, ca)"
    and "responseCallbacks srv (req_path req) = Some cb"
  shows "\<exists>ca'. addRespCache (request_hash E req) (he_self E) (length (srv_responses srv)) ca = Some ca' \<and>
    cache_valid (he_boost E) U n (srv\<lparr>srv_cache := ca', srv_responses := srv_responses srv @ [response_to cb req]\<rparr>)"
proof -
  have ca: "ca = srv_cache srv" "table_find (request_hash E req) (req_to_cache_node_iter ca) (he_self E) = None"
    using assms(4) by (auto simp: getRespCache_def bind_eq_Some_conv Let_def split: option.splits)
  have room: "\<not> kMaxReqCached \<le> length (req_to_cache_node_iter ca)" using assms(1,2) ca(1) by (auto simp: cache_valid_def)
  let ?nd = "\<lparr>cn_id = next_node ca, cn_req = he_self E, cn_resp = length (srv_responses srv)\<rparr>"
  let ?en = "(to_hash_value (he_boost E) req, he_self E, next_node ca)"
  let ?ca = "ca\<lparr>cache_node_list := ?nd # cache_node_list ca, req_to_cache_node_iter := ?en # req_to_cache_node_iter ca,
    next_node := Suc (next_node ca)\<rparr>"
  let ?srv = "srv\<lparr>srv_cache := ?ca, srv_responses := srv_responses srv @ [response_to cb req]\<rparr>"
  have run: "addRespCache (request_hash E req) (he_self E) (length (srv_responses srv)) ca = Some ?ca"
    using room ca(2) by (simp add: addRespCache_def table_emplace_def request_hash_def HTTPRequstPtrHash_def)
  have "entry_valid (he_boost E) U ?srv ?en"
    using assms(3,5) by (auto simp: entry_valid_def vec_at_def)
  moreover have "entry_valid (he_boost E) U ?srv en" if "en \<in> set (req_to_cache_node_iter ca)" for en
  proof (rule entry_valid_mono)
    show "entry_valid (he_boost E) U srv en" using assms(1,2) that ca(1) by (auto simp: cache_valid_def)
  qed (auto simp: ca(1) vec_at_def nth_append split: if_splits)
  ultimately have "cache_valid (he_boost E) U n ?srv"
    using assms(1,2) by (auto simp: cache_valid_def ca(1))
  with run show ?thesis by blast
qed

section \<open>Every request gets the answer of its handler\<close>

text \<open>
  \<open>setCloseConnection\<close> is applied to the shared object again at each hit, with the flag it has already: requests with equal hash
  values have equal headers.
\<close>

lemma decide_close_same:
  assumes "vec_at (srv_responses srv) p = Some (response_to cb req)"
  shows "decide_close req p srv = Some srv"
proof -
  have p: "p < length (srv_responses srv)" "srv_responses srv ! p = response_to cb req"
    using assms by (auto simp: vec_at_def split: if_splits)
  have "setCloseConnection (x = ''close'' \<or> req_version req = kHttp10 \<and> x = ''Keep-Alive'') (response_to cb req) = response_to cb req"
    if "req_headers req ''Connection'' = Some x" for x
    using that by (simp add: response_to_def setCloseConnection_def)
  with p show ?thesis
    by (cases "req_headers req ''Connection''")
      (auto simp: decide_close_def hasHeader_def getHeader_def vec_at_def Let_def p(2) [symmetric])
qed

lemma decide_close_new:
  assumes "srv_responses srv = rs @ [cb req HTTPResponse_new]"
  shows "decide_close req (length rs) srv = Some (srv\<lparr>srv_responses := rs @ [response_to cb req]\<rparr>)"
  using assms
  by (cases "req_headers req ''Connection''")
    (auto simp: decide_close_def hasHeader_def getHeader_def vec_at_def Let_def response_to_def)

lemma request_served:
  assumes "cache_valid (he_boost E) U (Suc n) srv" "req \<in> U" "responseCallbacks srv (req_path req) = Some cb"
  shows "\<exists>p srv'. choose_response E True \<lparr>ctx_state = kGotAll, ctx_request = req\<rparr> srv =
      Some (Some (RespPtr p), srv', \<lparr>ctx_state = kExpectRequestLine, ctx_request = req\<rparr>) \<and>
    deref_resp srv' (RespPtr p) = Some (response_to cb req) \<and> cache_valid (he_boost E) U n srv' \<and>
    responseCallbacks srv' = responseCallbacks srv \<and> kUseRespCache srv' = kUseRespCache srv"
proof -
  have ch: "choose_response E True \<lparr>ctx_state = kGotAll, ctx_request = req\<rparr> srv =
      do { (p, srv1) \<leftarrow> find_response E cb req srv; srv2 \<leftarrow> decide_close req p srv1;
        Some (Some (RespPtr p), srv2, \<lparr>ctx_state = kExpectRequestLine, ctx_request = req\<rparr>) }"
    using assms(3) by (simp add: choose_response_def parseFinished_def resetState_def Let_def)
  show ?thesis
  proof (cases "kUseRespCache srv")
    case False
    with response_chosen [OF assms(3)] show ?thesis
      by (auto simp: deref_resp_def vec_at_def intro: cache_valid_off)
  next
    case True
    let ?h = "request_hash E req"
    show ?thesis
    proof (cases "table_find ?h (req_to_cache_node_iter (srv_cache srv)) (he_self E)")
      case None
      then have g: "getRespCache ?h (he_self E) (srv_cache srv) = Some (None, srv_cache srv)" by (simp add: getRespCache_def)
      from cache_miss [OF assms(1) True assms(2) g assms(3)] obtain ca' where
        ca': "addRespCache ?h (he_self E) (length (srv_responses srv)) (srv_cache srv) = Some ca'"
        "cache_valid (he_boost E) U n (srv\<lparr>srv_cache := ca', srv_responses := srv_responses srv @ [response_to cb req]\<rparr>)" by blast
      have "find_response E cb req srv = Some (length (srv_responses srv),
          srv\<lparr>srv_responses := srv_responses srv @ [cb req HTTPResponse_new], srv_cache := ca'\<rparr>)"
        using True g ca'(1) by (simp add: find_response_def make_response_def)
      with ca'(2) show ?thesis
        by (simp add: ch decide_close_new deref_resp_def vec_at_def)
    next
      case (Some en)
      have "entry_valid (he_boost E) U srv en"
        using assms(1) True find_in_set [OF Some [unfolded table_find_def]] by (simp add: cache_valid_def)
      then obtain nd where "nd \<in> set (cache_node_list (srv_cache srv))" "cn_id nd = snd (snd en)"
        by (auto simp: entry_valid_def split: prod.splits)
      then have "find (\<lambda>nd. cn_id nd = snd (snd en)) (cache_node_list (srv_cache srv)) \<noteq> None" by (auto simp: find_None_iff)
      with Some obtain p ca where g: "getRespCache ?h (he_self E) (srv_cache srv) = Some (Some p, ca)"
        by (cases en) (auto simp: getRespCache_def Let_def)
      note hit = cache_hit [OF assms(1) True assms(2) g assms(3)]
      have "find_response E cb req srv = Some (p, srv\<lparr>srv_cache := ca\<rparr>)" using True g by (simp add: find_response_def)
      moreover have "decide_close req p (srv\<lparr>srv_cache := ca\<rparr>) = Some (srv\<lparr>srv_cache := ca\<rparr>)"
        by (rule decide_close_same) (simp add: hit(1))
      ultimately show ?thesis using hit cache_valid_less by (simp add: ch deref_resp_def)
    qed
  qed
qed

section \<open>Many requests of many connections\<close>

text \<open>
  Complete requests, one after the other, each with the environment of its connection at that moment: which connection it is, and the
  requests the others have by then. The result are the responses at the time they are sent.
\<close>

fun serve_all :: "(http_env \<times> http_request) list \<Rightarrow> http_server \<Rightarrow> (http_response list \<times> http_server) option" where
  "serve_all [] srv = Some ([], srv)"
| "serve_all ((E, req) # xs) srv =
     do {
       (ref, srv1, _) \<leftarrow> choose_response E True \<lparr>ctx_state = kGotAll, ctx_request = req\<rparr> srv;
       ref \<leftarrow> ref;
       r \<leftarrow> deref_resp srv1 ref;
       (rs, srv2) \<leftarrow> serve_all xs srv1;
       Some (r # rs, srv2)
     }"

lemma serve_all_answers:
  assumes "cache_valid B U (length xs) srv"
    and "\<forall>(E, req) \<in> set xs. he_boost E = B \<and> req \<in> U \<and> req_path req \<in> dom (responseCallbacks srv)"
  shows "\<exists>srv'. serve_all xs srv =
    Some (map (\<lambda>(E, req). response_to (the (responseCallbacks srv (req_path req))) req) xs, srv')"
  using assms
proof (induction xs arbitrary: srv)
  case (Cons x xs)
  obtain E req where x: "x = (E, req)" by (cases x)
  with Cons.prems(2) obtain cb where cb: "he_boost E = B" "req \<in> U" "responseCallbacks srv (req_path req) = Some cb" by auto
  from Cons.prems(1) have "cache_valid (he_boost E) U (Suc (length xs)) srv" by (simp add: cb(1))
  from request_served [OF this cb(2,3)] obtain p srv1 where
    s1: "choose_response E True \<lparr>ctx_state = kGotAll, ctx_request = req\<rparr> srv =
      Some (Some (RespPtr p), srv1, \<lparr>ctx_state = kExpectRequestLine, ctx_request = req\<rparr>)"
    "deref_resp srv1 (RespPtr p) = Some (response_to cb req)" "cache_valid B U (length xs) srv1"
    "responseCallbacks srv1 = responseCallbacks srv" using cb(1) by auto
  from Cons.IH [OF s1(3)] Cons.prems(2) s1(4) obtain srv' where
    "serve_all xs srv1 = Some (map (\<lambda>(E, req). response_to (the (responseCallbacks srv (req_path req))) req) xs, srv')" by auto
  with s1 cb(3) x show ?case by simp
qed simp

section \<open>Properties\<close>

text \<open>
  C5: the cache cannot be noticed. Requests come in any order from any connections, for paths with handlers. A server with a cache
  that is valid (a new one is) answers them with the same responses as one without, those of the handlers, provided that no two
  different requests have the same hash value and that the cache has room for all.
\<close>

theorem cache_transparent:
  assumes "cache_valid B U (length xs) srv"
    and "\<forall>(E, req) \<in> set xs. he_boost E = B \<and> req \<in> U \<and> req_path req \<in> dom (responseCallbacks srv)"
  shows "\<exists>srv1 srv2. serve_all xs srv = Some (map (\<lambda>(E, req). response_to (the (responseCallbacks srv (req_path req))) req) xs, srv1) \<and>
    serve_all xs (srv\<lparr>kUseRespCache := False\<rparr>) = Some (map (\<lambda>(E, req). response_to (the (responseCallbacks srv (req_path req))) req) xs, srv2)"
proof -
  have "cache_valid B U (length xs) (srv\<lparr>kUseRespCache := False\<rparr>)" by (simp add: cache_valid_def)
  from serve_all_answers [OF this] assms(2) have
    "\<exists>srv'. serve_all xs (srv\<lparr>kUseRespCache := False\<rparr>) =
      Some (map (\<lambda>(E, req). response_to (the (responseCallbacks srv (req_path req))) req) xs, srv')" by simp
  with serve_all_answers [OF assms] show ?thesis by blast
qed

text \<open>Two connections, and a server with two handlers that answer with the path they were asked for.\<close>

definition wit_echo :: http_server where
  "wit_echo = setResponseCallback ''/b'' wit_handler (setResponseCallback ''/abc'' wit_handler (HTTPServer_new True))"

definition wit_asks :: "nat \<Rightarrow> string \<Rightarrow> http_env \<times> http_request" where
  "wit_asks i path = (wit_env\<lparr>he_self := i, he_others := \<lambda>_. HTTPRequest_new\<lparr>req_path := ''/a''\<rparr>\<rparr>, HTTPRequest_new\<lparr>req_path := path\<rparr>)"

theorem cache_transparent_witness:
  "\<exists>srv. serve_all [wit_asks 0 ''/b'', wit_asks 1 ''/abc'', wit_asks 1 ''/b''] wit_echo =
     Some ([wit_handler (snd (wit_asks 0 ''/b'')) HTTPResponse_new, wit_handler (snd (wit_asks 1 ''/abc'')) HTTPResponse_new,
       wit_handler (snd (wit_asks 1 ''/b'')) HTTPResponse_new], srv)"
proof -
  let ?xs = "[wit_asks 0 ''/b'', wit_asks 1 ''/abc'', wit_asks 1 ''/b'']" and ?U = "{snd (wit_asks 0 ''/b''), snd (wit_asks 1 ''/abc'')}"
  have "to_hash_value wit_boost (snd (wit_asks 0 ''/b'')) \<noteq> to_hash_value wit_boost (snd (wit_asks 1 ''/abc''))"
    by (simp add: to_hash_value_def wit_boost_def wit_asks_def HTTPRequest_new_def Let_def)
  then have "cache_valid wit_boost ?U (length ?xs) wit_echo"
    by (intro cache_valid_new) (auto simp: wit_echo_def setResponseCallback_def HTTPServer_new_def kMaxReqCached_def inj_on_def)
  moreover have "\<forall>(E, req) \<in> set ?xs. he_boost E = wit_boost \<and> req \<in> ?U \<and> req_path req \<in> dom (responseCallbacks wit_echo)"
    by (simp add: wit_asks_def wit_env_def wit_echo_def setResponseCallback_def)
  ultimately show ?thesis
    using cache_transparent [of wit_boost ?U ?xs wit_echo]
    by (auto simp: wit_asks_def wit_echo_def setResponseCallback_def HTTPServer_new_def response_to_def HTTPRequest_new_def)
qed

text \<open>With a hash function that maps two paths to one value, the second client gets the response to the first.\<close>

lemma collision_answers_wrong:
  "\<exists>srv. serve_all [wit_asks 0 ''/a'', wit_asks 1 ''/b''] (setResponseCallback ''/a'' wit_handler wit_echo) =
     Some ([wit_handler (snd (wit_asks 0 ''/a'')) HTTPResponse_new, wit_handler (snd (wit_asks 0 ''/a'')) HTTPResponse_new], srv)"
  by (simp add: wit_asks_def wit_echo_def setResponseCallback_def HTTPServer_new_def choose_response_def parseFinished_def
      find_response_def getRespCache_def table_find_def table_emplace_def resp_cache_new_def request_hash_def HTTPRequstPtrHash_def
      make_response_def addRespCache_def kMaxReqCached_def decide_close_def hasHeader_def deref_resp_def vec_at_def Let_def
      to_hash_value_def wit_boost_def wit_env_def HTTPRequest_new_def)

end
