(* ===== verification/Http_Session.thy ===== *)
theory Http_Session
  imports Cache_Valid
begin

text \<open>
  Requests from the socket to their responses: the channel of a connection (\<open>channel.cc\<close>), its read
  handler (\<open>tcp_connection.cc\<close>), its input buffer of either class, the parser (\<open>http_context.h\<close>) and the callbacks of
  the server (\<open>http_server.cc\<close>) together. The client's bytes arrive in pieces, one read
  event for each.
\<close>

section \<open>Read events\<close>

text \<open>A kernel that has a piece of input to deliver, and takes one given text as output.\<close>

definition session_env :: "bool \<Rightarrow> string \<Rightarrow> string \<Rightarrow> io_env" where
  "session_env nd out s =
     \<lparr>io_ndebug = nd, io_in_loop = True, io_readv = (\<lambda>lens. SysBytes (take (sum_list lens) s)), io_writev = kernel_takes out\<rparr>"

fun feed ::
  "('b, 'i) buffer_type \<Rightarrow> bool \<Rightarrow> http_env \<Rightarrow> string \<Rightarrow> string list \<Rightarrow> http_server \<times> ('b, http_context) tcp_connection \<Rightarrow>
   (http_server \<times> ('b, http_context) tcp_connection) option" where
  "feed C nd E out [] st = Some st"
| "feed C nd E out (s # ss) st =
     do {
       st \<leftarrow> conn_event C (session_env nd out s) (connectionOnRead C E (session_env nd out s)) POLLIN st;
       feed C nd E out ss st
     }"

definition piece_ok :: "string \<Rightarrow> bool" where
  "piece_ok s \<longleftrightarrow> s \<noteq> [] \<and> length s \<le> kReadSize"

text \<open>A connection between two requests, with a parser in state \<open>ctx\<close>.\<close>

definition idle_conn ::
  "('b \<Rightarrow> bool) \<Rightarrow> ('b \<Rightarrow> bool) \<Rightarrow> ('b \<Rightarrow> string) \<Rightarrow> http_context \<Rightarrow> ('b, http_context) tcp_connection \<Rightarrow> bool" where
  "idle_conn iinv oinv ocontent ctx c \<longleftrightarrow>
     conn_status c = kConnected \<and> \<not> isWriting (conn_channel c) \<and> conn_context c = Some ctx \<and>
     iinv (conn_in c) \<and> oinv (conn_out c) \<and> ocontent (conn_out c) = []"

lemma session_env_simps [simp]:
  "io_ndebug (session_env nd out s) = nd" "io_in_loop (session_env nd out s)"
  "io_writev (session_env nd out s) = kernel_takes out"
  by (simp_all add: session_env_def)

text \<open>A read event runs the read handler and no other.\<close>

lemma read_event:
  assumes "handleRead C e f srv (c\<lparr>conn_channel := set_revents_type POLLIN (conn_channel c)\<rparr>) = Some (srv', c')"
    and "revents_type (conn_channel c') = POLLIN"
  shows "conn_event C e f POLLIN (srv, c) = Some (srv', c')"
  using assms
  by (simp add: conn_event_def Channel_handleEvent_def call_if_def conn_callbacks_def set_revents_type_def cpp_consts)

text \<open>What has arrived of a request that will be complete leaves the parser unfinished.\<close>

lemma unfinished_prefix:
  assumes "parse_spec nd ctx (s @ t) = Some (True, ctxF, [])" and "t \<noteq> []"
  shows "\<exists>ctx' r. parse_spec nd ctx s = Some (True, ctx', r) \<and> ctx_state ctx' \<noteq> kGotAll \<and>
    parse_spec nd ctx' (r @ t) = Some (True, ctxF, [])"
proof -
  from assms(1) obtain ctx' r where p: "parse_spec nd ctx s = Some (True, ctx', r)"
    "parse_spec nd ctx' (r @ t) = Some (True, ctxF, [])"
    unfolding parse_spec_resume [of nd ctx s t] by (auto split: option.splits if_splits)
  moreover have "ctx_state ctx' \<noteq> kGotAll"
    using p(2) assms(2) by (auto simp: parse_spec.simps [of nd ctx' "r @ t"])
  ultimately show ?thesis by blast
qed

context conn_buffers
begin

abbreviation idle :: "http_context \<Rightarrow> ('b, http_context) tcp_connection \<Rightarrow> bool" where
  "idle \<equiv> idle_conn iinv oinv ocontent"

lemma idle_revents: "idle ctx (c\<lparr>conn_channel := set_revents_type ev (conn_channel c)\<rparr>) \<longleftrightarrow> idle ctx c"
  by (simp add: idle_conn_def set_revents_type_def isWriting_def)

lemma read_piece:
  assumes "idle ctx c" and "piece_ok s"
  shows "\<exists>b. ready b \<and> content b = content (conn_in c) @ s \<and>
    handleRead C (session_env nd out s) f srv c = f srv (c\<lparr>conn_in := b\<rparr>)"
proof -
  let ?rd = "io_readv (session_env nd out s)"
  have "readv_contract ?rd" by (auto simp: readv_contract_def session_env_def)
  moreover have "iinv (conn_in c)" using assms(1) by (simp add: idle_conn_def)
  ultimately obtain lens where lens: "kReadSize \<le> sum_list lens"
    "case ?rd lens of SysErr \<Rightarrow> bt_writeFromFD C ?rd (conn_in c) = Some (- 1, conn_in c)
     | SysBytes bs \<Rightarrow> \<exists>b'. bt_writeFromFD C ?rd (conn_in c) = Some (int (length bs), b') \<and>
         (if bs = [] then iinv b' \<and> content b' = content (conn_in c) else ready b' \<and> content b' = content (conn_in c) @ bs)"
    using writeFromFD_spec by blast
  have "?rd lens = SysBytes s" using assms(2) lens(1) by (simp add: session_env_def piece_ok_def)
  with lens(2) assms(2) obtain b where "bt_writeFromFD C ?rd (conn_in c) = Some (int (length s), b)" "ready b"
    "content b = content (conn_in c) @ s" by (auto simp: piece_ok_def)
  with assms show ?thesis by (auto simp: handleRead_def idle_conn_def piece_ok_def)
qed

text \<open>A piece that does not complete the request is taken in; nothing is sent.\<close>

lemma piece_taken:
  assumes "idle ctx c" and "piece_ok s"
    and "parse_spec nd ctx (content (conn_in c) @ s) = Some (True, ctx', r)" and "ctx_state ctx' \<noteq> kGotAll"
  shows "\<exists>c'. conn_event C (session_env nd out s)
      (connectionOnRead C E (session_env nd out s)) POLLIN (srv, c) = Some (srv, c') \<and>
    idle ctx' c' \<and> content (conn_in c') = r \<and> conn_trace c' = conn_trace c"
proof -
  let ?c = "c\<lparr>conn_channel := set_revents_type POLLIN (conn_channel c)\<rparr>"
  have i: "idle ctx ?c" using assms(1) by (simp add: idle_revents)
  from read_piece [OF i assms(2), of nd out "connectionOnRead C E (session_env nd out s)" srv]
  obtain b where b: "ready b" "content b = content (conn_in c) @ s"
    "handleRead C (session_env nd out s) (connectionOnRead C E (session_env nd out s)) srv ?c =
     connectionOnRead C E (session_env nd out s) srv (?c\<lparr>conn_in := b\<rparr>)" by auto
  from assms(3) b(2) have "parse_spec nd ctx (content b) = Some (True, ctx', r)" by simp
  from parseRequest_SomeI [OF b(1) this] obtain b' where
    b': "parseRequest nd C ctx b = Some (True, ctx', b')" "ready b'" "content b' = r" by blast
  let ?c' = "?c\<lparr>conn_in := b', conn_context := Some ctx'\<rparr>"
  have "connectionOnRead C E (session_env nd out s) srv (?c\<lparr>conn_in := b\<rparr>) = Some (srv, ?c')"
    using assms(1,4) b'(1)
    by (simp add: connectionOnRead_def idle_conn_def choose_response_def parseFinished_def deliver_def)
  with b(3) have "conn_event C (session_env nd out s)
      (connectionOnRead C E (session_env nd out s)) POLLIN (srv, c) = Some (srv, ?c')"
    by (intro read_event) (simp_all add: set_revents_type_def)
  moreover have "idle ctx' ?c'"
    using i ready_inv [OF b'(2)] by (simp add: idle_conn_def)
  ultimately show ?thesis using b'(3) by (intro exI [of _ ?c']) simp
qed

text \<open>The piece that completes it is answered.\<close>

lemma piece_answered:
  assumes "idle ctx c" and "piece_ok s"
    and "parse_spec nd ctx (content (conn_in c) @ s) = Some (True, ctx', [])"
    and "choose_response E True ctx' srv = Some (Some ref, srv', ctx2)" and "deref_resp srv' ref = Some r"
    and "response_ok r" and "key_order r (he_order E r)" and "out = response_text (he_order E r) r"
  shows "\<exists>c1 c'. conn_event C (session_env nd out s)
      (connectionOnRead C E (session_env nd out s)) POLLIN (srv, c) = Some (srv', c') \<and>
    sent_whole oinv ocontent out (resp_close_connection r) c1 c' \<and>
    content (conn_in c1) = [] \<and> idle ctx2 c1 \<and> conn_trace c1 = conn_trace c"
proof -
  let ?e = "session_env nd out s" and ?c = "c\<lparr>conn_channel := set_revents_type POLLIN (conn_channel c)\<rparr>"
  have i: "idle ctx ?c" using assms(1) by (simp add: idle_revents)
  from read_piece [OF i assms(2), of nd out "connectionOnRead C E ?e" srv]
  obtain b where b: "ready b" "content b = content (conn_in c) @ s"
    "handleRead C ?e (connectionOnRead C E ?e) srv ?c =
     connectionOnRead C E ?e srv (?c\<lparr>conn_in := b\<rparr>)" by auto
  from assms(3) b(2) have "parse_spec nd ctx (content b) = Some (True, ctx', [])" by simp
  from parseRequest_SomeI [OF b(1) this] obtain b' where
    b': "parseRequest nd C ctx b = Some (True, ctx', b')" "ready b'" "content b' = []" by blast
  let ?c1 = "?c\<lparr>conn_in := b', conn_context := Some ctx2\<rparr>"
  obtain c' where c': "deliver C E ?e (Some ref) srv' ?c1 = Some (srv', c')"
    "sent_whole oinv ocontent out (resp_close_connection r) ?c1 c'"
    using deliver_whole [OF assms(5-7), of ?e ?c1] i unfolding assms(8) by (auto simp: idle_conn_def)
  have "connectionOnRead C E ?e srv (?c\<lparr>conn_in := b\<rparr>) = Some (srv', c')"
    using i b'(1) assms(4) c'(1) by (simp add: connectionOnRead_def idle_conn_def)
  moreover have "revents_type (conn_channel c') = POLLIN"
    using c'(2) by (simp add: sent_whole_def set_revents_type_def)
  ultimately have "conn_event C ?e (connectionOnRead C E ?e) POLLIN (srv, c) = Some (srv', c')"
    using b(3) by (intro read_event) simp_all
  moreover have "idle ctx2 ?c1" using i ready_inv [OF b'(2)] by (simp add: idle_conn_def)
  ultimately show ?thesis using c'(2) b'(3) by (intro exI [of _ ?c1] exI [of _ c']) simp
qed

lemma feed_request:
  assumes "idle ctx c" and "pieces \<noteq> []" and "list_all piece_ok pieces"
    and "parse_spec nd ctx (content (conn_in c) @ concat pieces) = Some (True, ctxF, [])"
    and "choose_response E True ctxF srv = Some (Some ref, srv', ctx2)" and "deref_resp srv' ref = Some r"
    and "response_ok r" and "key_order r (he_order E r)" and "out = response_text (he_order E r) r"
  shows "\<exists>c1 c'. feed C nd E out pieces (srv, c) = Some (srv', c') \<and>
    sent_whole oinv ocontent out (resp_close_connection r) c1 c' \<and>
    content (conn_in c1) = [] \<and> idle ctx2 c1 \<and> conn_trace c1 = conn_trace c"
  using assms(1-4)
proof (induction pieces arbitrary: ctx c)
  case (Cons s pieces)
  have s: "piece_ok s" using Cons.prems(3) by simp
  show ?case
  proof (cases "pieces = []")
    case True
    with Cons.prems(4) have "parse_spec nd ctx (content (conn_in c) @ s) = Some (True, ctxF, [])" by simp
    from piece_answered [OF Cons.prems(1) s this assms(5-9)] obtain c1 c' where
      "conn_event C (session_env nd out s)
        (connectionOnRead C E (session_env nd out s)) POLLIN (srv, c) = Some (srv', c')"
      "sent_whole oinv ocontent out (resp_close_connection r) c1 c'"
      "content (conn_in c1) = []" "idle ctx2 c1" "conn_trace c1 = conn_trace c"
      by blast
    with True show ?thesis by (intro exI [of _ c1] exI [of _ c']) simp
  next
    case False
    then have "concat pieces \<noteq> []" using Cons.prems(3) by (cases pieces) (auto simp: piece_ok_def)
    with unfinished_prefix [of nd ctx "content (conn_in c) @ s" "concat pieces" ctxF] Cons.prems(4) obtain ctx' rest where
      p: "parse_spec nd ctx (content (conn_in c) @ s) = Some (True, ctx', rest)" "ctx_state ctx' \<noteq> kGotAll"
      "parse_spec nd ctx' (rest @ concat pieces) = Some (True, ctxF, [])" by auto
    from piece_taken [OF Cons.prems(1) s p(1,2)] obtain c2 where
      c2: "conn_event C (session_env nd out s)
        (connectionOnRead C E (session_env nd out s)) POLLIN (srv, c) = Some (srv, c2)"
      "idle ctx' c2" "content (conn_in c2) = rest" "conn_trace c2 = conn_trace c" by blast
    from Cons.IH [OF c2(2) False] Cons.prems(3) p(3) c2(3) obtain c1 c' where
      "feed C nd E out pieces (srv, c2) = Some (srv', c')"
      "sent_whole oinv ocontent out (resp_close_connection r) c1 c'"
      "content (conn_in c1) = []" "idle ctx2 c1" "conn_trace c1 = conn_trace c2"
      by auto
    with c2(1,4) show ?thesis by (intro exI [of _ c1] exI [of _ c']) simp
  qed
qed simp

lemma created_idle:
  "\<exists>c. handleCreate e connectionOnCreate (TCPConnection_new C fd name) = Some c \<and>
     idle HTTPContext_new c \<and> content (conn_in c) = [] \<and> conn_trace c = [PollAdd kReadEvent]"
  using inv_new content_new oinv_new ocontent_new
  by (auto simp: handleCreate_def connectionOnCreate_def setContext_def TCPConnection_new_def idle_conn_def
      Channel_new_def enableReading_def isWriting_def cpp_consts kNoneEvent_def kReadEvent_def kWriteEvent_def Let_def)

end

section \<open>Many requests on one connection\<close>

text \<open>
  What a client sends: a request in the usual wire form, cut into pieces. The next request follows when
  the answer to this one has been sent. \<open>session_requests\<close> are the request objects the handlers get: each is
  the one before, filled again.
\<close>

record wire_request =
  w_method :: string
  w_path :: string
  w_query :: "string option"
  w_version :: string
  w_headers :: "(string \<times> string) list"
  w_pieces :: "string list"

definition wire_text :: "wire_request \<Rightarrow> string" where
  "wire_text w = render_request (w_method w) (w_path w) (w_query w) (w_version w) (w_headers w)"

definition wire_ok :: "wire_request \<Rightarrow> bool" where
  "wire_ok w \<longleftrightarrow>
     w_method w \<in> set gHttpMethods \<and> w_method w \<noteq> ''POST'' \<and> path_ok (w_path w) \<and> query_ok (w_query w) \<and>
     w_version w \<in> set gHttpVersions \<and> list_all header_ok (w_headers w) \<and>
     concat (w_pieces w) = wire_text w \<and> list_all piece_ok (w_pieces w)"

definition wire_to_request :: "http_request \<Rightarrow> wire_request \<Rightarrow> http_request" where
  "wire_to_request old w = next_request old (w_method w) (w_path w) (w_query w) (w_version w) (w_headers w)"

fun session_requests :: "http_request \<Rightarrow> wire_request list \<Rightarrow> http_request list" where
  "session_requests old [] = []"
| "session_requests old (w # ws) = wire_to_request old w # session_requests (wire_to_request old w) ws"

lemma length_session_requests: "length (session_requests old ws) = length ws"
  by (induction ws arbitrary: old) simp_all

definition answer :: "http_server \<Rightarrow> http_request \<Rightarrow> http_response" where
  "answer srv req = response_to (the (responseCallbacks srv (req_path req))) req"

definition answer_ok :: "http_env \<Rightarrow> http_response \<Rightarrow> bool" where
  "answer_ok E r \<longleftrightarrow> response_ok r \<and> key_order r (he_order E r)"

text \<open>An exchange is the text the kernel takes and the pieces that arrive before.\<close>

fun session_run ::
  "('b, 'i) buffer_type \<Rightarrow> bool \<Rightarrow> http_env \<Rightarrow> (string \<times> string list) list \<Rightarrow>
   http_server \<times> ('b, http_context) tcp_connection \<Rightarrow> (http_server \<times> ('b, http_context) tcp_connection) option" where
  "session_run C nd E [] st = Some st"
| "session_run C nd E ((out, pieces) # xs) st = feed C nd E out pieces st \<bind> session_run C nd E xs"

text \<open>The whole life of a connection from its creation to the end of the last exchange.\<close>

definition session_served ::
  "('b, 'i) buffer_type \<Rightarrow> ('b \<Rightarrow> string) \<Rightarrow> int \<Rightarrow> string \<Rightarrow> bool \<Rightarrow> http_env \<Rightarrow> http_server \<Rightarrow>
   (string \<times> string list) list \<Rightarrow> http_request \<Rightarrow> bool \<Rightarrow> bool" where
  "session_served C content fd name nd E srv xs req close \<longleftrightarrow>
     (\<exists>c srv' c'. handleCreate (session_env nd [] []) connectionOnCreate (TCPConnection_new C fd name) = Some c \<and>
        session_run C nd E xs (srv, c) = Some (srv', c') \<and>
        conn_trace c' = PollAdd kReadEvent # map (\<lambda>(out, _). Written (int (length out))) xs @ (if close then [ShutdownWr] else []) \<and>
        conn_status c' = (if close then kDisconnecting else kConnected) \<and>
        conn_context c' = Some \<lparr>ctx_state = kExpectRequestLine, ctx_request = req\<rparr> \<and> content (conn_in c') = [])"

lemma wire_to_request_path [simp]: "req_path (wire_to_request old w) = w_path w"
  by (simp add: wire_to_request_def next_request_def add_headers_def)

context conn_buffers
begin

abbreviation waiting :: "http_request \<Rightarrow> ('b, http_context) tcp_connection \<Rightarrow> bool" where
  "waiting old c \<equiv> idle \<lparr>ctx_state = kExpectRequestLine, ctx_request = old\<rparr> c \<and> content (conn_in c) = []"

lemma exchange:
  assumes "waiting old c" and "wire_ok w" and "req = wire_to_request old w" and "w_path w \<in> dom (responseCallbacks srv)"
    and "cache_valid (he_boost E) U (Suc n) srv" and "req \<in> U"
    and "r = answer srv req" and "answer_ok E r" and "out = response_text (he_order E r) r"
  shows "\<exists>srv' c'. feed C nd E out (w_pieces w) (srv, c) = Some (srv', c') \<and>
    cache_valid (he_boost E) U n srv' \<and> responseCallbacks srv' = responseCallbacks srv \<and>
    conn_trace c' = conn_trace c @ Written (int (length out)) # (if resp_close_connection r then [ShutdownWr] else []) \<and>
    conn_status c' = (if resp_close_connection r then kDisconnecting else kConnected) \<and>
    conn_context c' = Some \<lparr>ctx_state = kExpectRequestLine, ctx_request = req\<rparr> \<and> content (conn_in c') = [] \<and>
    (resp_close_connection r \<or> waiting req c')"
proof -
  from assms(4) obtain cb where cb: "responseCallbacks srv (w_path w) = Some cb" by blast
  with assms(3,7) have r: "response_to cb req = r" by (simp add: answer_def)
  have w: "concat (w_pieces w) = wire_text w" "list_all piece_ok (w_pieces w)" using assms(2) by (simp_all add: wire_ok_def)
  then have "w_pieces w \<noteq> []" using render_request_nonempty by (metis concat.simps(1) wire_text_def)
  moreover have "parse_spec nd \<lparr>ctx_state = kExpectRequestLine, ctx_request = old\<rparr> (content (conn_in c) @ concat (w_pieces w)) =
      Some (True, \<lparr>ctx_state = kGotAll, ctx_request = req\<rparr>, [])"
    using parse_rendered_next [of "w_method w" "w_path w" "w_query w" "w_version w" "w_headers w" nd old "[]"] assms(1-3) w(1)
    by (simp add: wire_ok_def wire_text_def wire_to_request_def)
  moreover obtain p srv' where srv': "choose_response E True \<lparr>ctx_state = kGotAll, ctx_request = req\<rparr> srv =
      Some (Some (RespPtr p), srv', \<lparr>ctx_state = kExpectRequestLine, ctx_request = req\<rparr>)"
    "deref_resp srv' (RespPtr p) = Some r" "cache_valid (he_boost E) U n srv'" "responseCallbacks srv' = responseCallbacks srv"
    using request_served [OF assms(5,6)] cb assms(3) r by auto
  ultimately obtain c1 c' where "feed C nd E out (w_pieces w) (srv, c) = Some (srv', c')"
    "sent_whole oinv ocontent out (resp_close_connection r) c1 c'" "content (conn_in c1) = []"
    "idle \<lparr>ctx_state = kExpectRequestLine, ctx_request = req\<rparr> c1" "conn_trace c1 = conn_trace c"
    using feed_request [OF _ _ w(2), of _ c nd _ E srv _ _ _ r out] assms(1,8,9) unfolding answer_ok_def by metis
  with srv'(3,4) show ?thesis by (intro exI [of _ srv'] exI [of _ c']) (auto simp: sent_whole_def idle_conn_def)
qed

lemma exchanges:
  assumes "waiting old c" and "list_all wire_ok ws" and "ws \<noteq> []" and "\<forall>w \<in> set ws. w_path w \<in> dom (responseCallbacks srv)"
    and "cache_valid (he_boost E) U (length ws) srv" and "set (session_requests old ws) \<subseteq> U"
    and "rs = map (answer srv) (session_requests old ws)" and "list_all (answer_ok E) rs"
    and "list_all (\<lambda>r. \<not> resp_close_connection r) (butlast rs)"
    and "xs = zip (map (\<lambda>r. response_text (he_order E r) r) rs) (map w_pieces ws)"
  shows "\<exists>srv' c'. session_run C nd E xs (srv, c) = Some (srv', c') \<and>
    conn_trace c' = conn_trace c @ map (\<lambda>(out, _). Written (int (length out))) xs @
      (if resp_close_connection (last rs) then [ShutdownWr] else []) \<and>
    conn_status c' = (if resp_close_connection (last rs) then kDisconnecting else kConnected) \<and>
    conn_context c' = Some \<lparr>ctx_state = kExpectRequestLine, ctx_request = last (session_requests old ws)\<rparr> \<and> content (conn_in c') = []"
  using assms
proof (induction ws arbitrary: old c srv rs xs)
  case (Cons w ws)
  let ?req = "wire_to_request old w"
  let ?r = "answer srv ?req"
  let ?out = "response_text (he_order E ?r) ?r"
  from exchange [OF Cons.prems(1) _ refl _ _ _ refl _ refl, of w srv E U "length ws" nd] Cons.prems obtain srv2 c2 where
    c2: "feed C nd E ?out (w_pieces w) (srv, c) = Some (srv2, c2)"
    "conn_trace c2 = conn_trace c @ Written (int (length ?out)) # (if resp_close_connection ?r then [ShutdownWr] else [])"
    "conn_status c2 = (if resp_close_connection ?r then kDisconnecting else kConnected)"
    "conn_context c2 = Some \<lparr>ctx_state = kExpectRequestLine, ctx_request = ?req\<rparr>" "content (conn_in c2) = []"
    "resp_close_connection ?r \<or> waiting ?req c2"
    and srv2: "cache_valid (he_boost E) U (length ws) srv2" "responseCallbacks srv2 = responseCallbacks srv" by auto
  show ?case
  proof (cases "ws = []")
    case True
    with c2 Cons.prems(7,10) show ?thesis by (intro exI [of _ srv2] exI [of _ c2]) simp
  next
    case False
    then have ne: "session_requests ?req ws \<noteq> []" by (cases ws) auto
    with Cons.prems(7,9) have r: "\<not> resp_close_connection ?r" by simp
    have a: "answer srv2 = answer srv" by (simp add: fun_eq_iff answer_def srv2(2))
    from c2(6) r have "waiting ?req c2" by simp
    from Cons.IH [OF this _ False _ srv2(1) _ refl _ _ refl] Cons.prems ne False srv2(2) obtain srv' c' where
      "session_run C nd E (zip (map (\<lambda>r. response_text (he_order E r) r) (map (answer srv) (session_requests ?req ws)))
        (map w_pieces ws)) (srv2, c2) = Some (srv', c')"
      "conn_trace c' = conn_trace c2 @ map (\<lambda>(out, _). Written (int (length out)))
        (zip (map (\<lambda>r. response_text (he_order E r) r) (map (answer srv) (session_requests ?req ws))) (map w_pieces ws)) @
        (if resp_close_connection (last (map (answer srv) (session_requests ?req ws))) then [ShutdownWr] else [])"
      "conn_status c' = (if resp_close_connection (last (map (answer srv) (session_requests ?req ws))) then kDisconnecting else kConnected)"
      "conn_context c' = Some \<lparr>ctx_state = kExpectRequestLine, ctx_request = last (session_requests ?req ws)\<rparr>"
      "content (conn_in c') = []"
      by (auto simp: a)
    with c2 r ne Cons.prems(7,10) show ?thesis by (intro exI [of _ srv'] exI [of _ c']) simp
  qed
qed simp

lemma session:
  assumes "list_all wire_ok ws" and "ws \<noteq> []" and "\<forall>w \<in> set ws. w_path w \<in> dom (responseCallbacks srv)"
    and "cache_valid (he_boost E) U (length ws) srv" and "set (session_requests HTTPRequest_new ws) \<subseteq> U"
    and "rs = map (answer srv) (session_requests HTTPRequest_new ws)" and "list_all (answer_ok E) rs"
    and "list_all (\<lambda>r. \<not> resp_close_connection r) (butlast rs)"
  shows "session_served C content fd name nd E srv (zip (map (\<lambda>r. response_text (he_order E r) r) rs) (map w_pieces ws))
    (last (session_requests HTTPRequest_new ws)) (resp_close_connection (last rs))"
proof -
  obtain c where c: "handleCreate (session_env nd [] []) connectionOnCreate (TCPConnection_new C fd name) = Some c"
    "waiting HTTPRequest_new c" "conn_trace c = [PollAdd kReadEvent]"
    using created_idle unfolding HTTPContext_new_def by blast
  from exchanges [OF c(2) assms refl, of nd] c(1,3) show ?thesis
    by (auto simp: session_served_def)
qed

end

section \<open>Properties\<close>

text \<open>
  C1: clients get their answers. On a connection just created, of a server without cache, or with a cache that is valid, has room for the
  requests and no two of them with one hash value, and with
  either class of buffer, requests in the usual wire form arrive one after the other, each in any number of
  pieces, cut anywhere. Each is answered when its last piece arrives and not before: the response of the handler
  for its path is sent whole, in the order of the requests; the connection is shut down after the last response if and only if that
  response says so; no byte is left over, and the parser expects another request. From the bytes of kept-alive responses a client
  reads back exactly the lines and the body of each.
\<close>

theorem session_answered:
  assumes "list_all wire_ok ws" and "ws \<noteq> []" and "\<forall>w \<in> set ws. w_path w \<in> dom (responseCallbacks srv)"
    and "cache_valid (he_boost E) U (length ws) srv" and "set (session_requests HTTPRequest_new ws) \<subseteq> U"
    and "rs = map (answer srv) (session_requests HTTPRequest_new ws)" and "list_all (answer_ok E) rs"
    and "list_all (\<lambda>r. \<not> resp_close_connection r) (butlast rs)"
    and "xs = zip (map (\<lambda>r. response_text (he_order E r) r) rs) (map w_pieces ws)"
    and "req = last (session_requests HTTPRequest_new ws)" and "close = resp_close_connection (last rs)"
  shows "session_served Buffer_type Buffer_content fd name nd E srv xs req close \<and>
    session_served LinkedBuffer_type lb_content fd name nd E srv xs req close \<and>
    (\<not> close \<longrightarrow> list_all plain_headers rs \<longrightarrow>
      client_reads (length rs) (concat (map fst xs) @ rest) =
        Some (map (\<lambda>r. (response_lines (he_order E r) r, resp_body r)) rs, rest))"
proof (intro conjI impI)
  assume k: "\<not> close" "list_all plain_headers rs"
  have "rs \<noteq> []" using assms(2,6) by (cases ws) simp_all
  then have "set rs = insert (last rs) (set (butlast rs))"
    using set_append [of "butlast rs" "[last rs]"] by simp
  then have "list_all (\<lambda>r. response_ok r \<and> key_order r (he_order E r) \<and> plain_headers r \<and> \<not> resp_close_connection r) rs"
    using k assms(7,8,11) by (simp add: list_all_iff answer_ok_def)
  moreover have "map fst xs = map (\<lambda>r. response_text (he_order E r) r) rs"
    using assms(6,9) by (simp add: length_session_requests)
  ultimately show "client_reads (length rs) (concat (map fst xs) @ rest) =
      Some (map (\<lambda>r. (response_lines (he_order E r) r, resp_body r)) rs, rest)"
    using client_reads_responses [of "he_order E" rs rest] by simp
qed (use conn_buf.session [OF assms(1-8)] conn_linked.session [OF assms(1-8)] assms(9-11) in simp_all)

text \<open>The client of the witnesses: a \<open>GET\<close> request, cut in the middle of the method and of the line ends.\<close>

definition wit_get :: "string \<Rightarrow> wire_request" where
  "wit_get path = \<lparr>w_method = ''GET'', w_path = path, w_query = None, w_version = ''1.1'', w_headers = [],
     w_pieces = [''GE'', ''T '' @ path @ '' HTTP/1.1'' @ [CHR 0x0D], [CHR 0x0A, CHR 0x0D], [CHR 0x0A]]\<rparr>"

lemma wit_get_ok: "path_ok path \<Longrightarrow> length path \<le> 1000 \<Longrightarrow> wire_ok (wit_get path)"
  by (simp add: wire_ok_def wit_get_def wire_text_def render_request_def render_line_def render_headers_def gHttpMethods_def
      gHttpVersions_def gHttpPrefix_def kCRLF_def query_ok_def piece_ok_def kReadSize_def)

definition wit_caching :: http_server where
  "wit_caching = wit_server\<lparr>kUseRespCache := True\<rparr>"

text \<open>The second of two equal requests is answered from the cache.\<close>

theorem session_answered_witness:
  "session_served LinkedBuffer_type lb_content 5 ''a'' False wit_env wit_caching
     [(response_text [] wit_hello, w_pieces (wit_get ''/a'')), (response_text [] wit_hello, w_pieces (wit_get ''/a''))]
     (request_of ''GET'' ''/a'' None ''1.1'' []) False \<and>
   client_reads 2 (response_text [] wit_hello @ response_text [] wit_hello) =
     Some ([(response_lines [] wit_hello, ''/a''), (response_lines [] wit_hello, ''/a'')], [])"
proof -
  let ?w = "wit_get ''/a''" and ?req = "request_of ''GET'' ''/a'' None ''1.1'' []"
  have w: "list_all wire_ok [?w, ?w]" using wit_get_ok [of "''/a''"] by (simp add: path_ok_def)
  have n: "wire_to_request HTTPRequest_new ?w = ?req" "wire_to_request ?req ?w = ?req"
    by (simp_all add: wire_to_request_def wit_get_def next_request_new headers_ok_def)
      (simp add: next_request_def add_headers_def request_of_def)
  have r: "resp_body wit_hello = ''/a''" "\<not> resp_close_connection wit_hello" "he_order wit_env wit_hello = []"
    "response_ok wit_hello" "resp_headers wit_hello = Map.empty"
    by (simp_all add: wit_hello_def wit_server_defs response_ok_def request_of_def setBody_def setStatusCode_def HTTPResponse_new_def)
  have a: "answer wit_caching ?req = wit_hello"
    by (simp add: wit_caching_def answer_def response_to_def wit_server_def setResponseCallback_def HTTPServer_new_def request_of_def wit_hello_def)
  have s: "session_requests HTTPRequest_new [?w, ?w] = [?req, ?req]" by (simp add: n)
  have cb: "\<forall>w \<in> set [?w, ?w]. w_path w \<in> dom (responseCallbacks wit_caching)"
    by (simp_all add: wit_caching_def wit_get_def wit_server_def setResponseCallback_def HTTPServer_new_def)
  have "cache_valid (he_boost wit_env) {?req} 2 wit_caching"
    by (rule cache_valid_new) (simp_all add: wit_caching_def wit_server_def setResponseCallback_def HTTPServer_new_def kMaxReqCached_def)
  then have v: "cache_valid (he_boost wit_env) {?req} (length [?w, ?w]) wit_caching" by (simp add: numeral_2_eq_2)
  have ok: "list_all (answer_ok wit_env) (map (answer wit_caching) [?req, ?req])"
    "list_all (\<lambda>r. \<not> resp_close_connection r) (butlast (map (answer wit_caching) [?req, ?req]))"
    by (simp_all add: a answer_ok_def r key_order_def)
  from session_answered [OF w _ cb v _ refl, unfolded s, OF _ _ ok refl refl refl, of 5 "''a''" False "[]"] show ?thesis
    by (simp add: a r plain_headers_def numeral_2_eq_2)
qed

end
