(* ===== verification/Event_Loop.thy ===== *)
theory Event_Loop
  imports Channel
begin

text \<open>
  \<open>net::EventLoop\<close> and \<open>net::EventLoopThread\<close> (\<open>srcs/net/thread/event_loop.h\<close>, \<open>event_loop.cc\<close>,
  \<open>event_loop_thread.cc\<close>): the loop of one thread, and the queue through which other threads hand it
  callbacks.

  First the methods, on the fields of the class. Then the system of the thread that runs the
  loop and of any number of threads that call \<open>runInLoop\<close>, as a step relation: one step is what a
  thread does between two points where another may come in between. The mutex makes the
  push to the queue and the swap of the queue single steps; writing and reading the event
  descriptor are single kernel calls.

  Callbacks are opaque values of type \<open>'k\<close>. The poller is represented by the descriptors it
  watches, as the theory of the poller shows it to be. The counter of the event descriptor
  belongs to the kernel: what writing and reading make of it is a parameter.
\<close>

section \<open>The class\<close>

record 'k event_loop =
  thread_id :: nat
  looping :: bool
  wakeup_channel :: "channel option"
  wakeup_fd :: int
  wakeup_count :: nat
  poll_set :: "int \<rightharpoonup> events"
  pending_callbacks :: "'k list"

record eventfd_ops =
  efd_write :: "nat \<Rightarrow> nat"
  efd_read :: "nat \<Rightarrow> nat"

definition EventLoop_new :: "nat \<Rightarrow> int \<Rightarrow> 'k event_loop" where
  "EventLoop_new tid fd = \<lparr>thread_id = tid, looping = False, wakeup_channel = None, wakeup_fd = fd, wakeup_count = 0,
     poll_set = Map.empty, pending_callbacks = []\<rparr>"

definition addChannelInPoller :: "channel \<Rightarrow> 'k event_loop \<Rightarrow> 'k event_loop" where
  "addChannelInPoller ch l = l\<lparr>poll_set := (poll_set l)(ch_fd ch \<mapsto> events_type ch)\<rparr>"

definition updateChannelInPoller :: "channel \<Rightarrow> 'k event_loop \<Rightarrow> 'k event_loop" where
  "updateChannelInPoller ch l = l\<lparr>poll_set := (poll_set l)(ch_fd ch := map_option (\<lambda>_. events_type ch) (poll_set l (ch_fd ch)))\<rparr>"

definition removeChannelInPoller :: "channel \<Rightarrow> 'k event_loop \<Rightarrow> 'k event_loop" where
  "removeChannelInPoller ch l = l\<lparr>poll_set := (poll_set l)(ch_fd ch := None)\<rparr>"

definition setWakeupChannel :: "'k event_loop \<Rightarrow> 'k event_loop" where
  "setWakeupChannel l =
     (let ch = enableReading (Channel_new (wakeup_fd l)) in
      addChannelInPoller ch (l\<lparr>wakeup_channel := Some ch\<rparr>))"

definition wakeup :: "eventfd_ops \<Rightarrow> 'k event_loop \<Rightarrow> 'k event_loop" where
  "wakeup k l = l\<lparr>wakeup_count := efd_write k (wakeup_count l)\<rparr>"

definition wakeupCallback :: "eventfd_ops \<Rightarrow> 'k event_loop \<Rightarrow> 'k event_loop" where
  "wakeupCallback k l = l\<lparr>wakeup_count := efd_read k (wakeup_count l)\<rparr>"

definition isInLoopThread :: "nat \<Rightarrow> 'k event_loop \<Rightarrow> bool" where
  "isInLoopThread tid l \<longleftrightarrow> thread_id l = tid"

text \<open>What \<open>startLoop\<close> does before it enters \<open>loop\<close>, and the sections under the mutex.\<close>

definition startLoop :: "nat \<Rightarrow> 'k event_loop \<Rightarrow> 'k event_loop" where
  "startLoop tid l = l\<lparr>looping := True, thread_id := tid\<rparr>"

definition endLoop :: "'k event_loop \<Rightarrow> 'k event_loop" where
  "endLoop l = l\<lparr>looping := False\<rparr>"

definition push_pending :: "'k \<Rightarrow> 'k event_loop \<Rightarrow> 'k event_loop" where
  "push_pending cb l = l\<lparr>pending_callbacks := pending_callbacks l @ [cb]\<rparr>"

definition swap_pending :: "'k event_loop \<Rightarrow> 'k list \<times> 'k event_loop" where
  "swap_pending l = (pending_callbacks l, l\<lparr>pending_callbacks := []\<rparr>)"

definition queueInLoop :: "eventfd_ops \<Rightarrow> 'k \<Rightarrow> 'k event_loop \<Rightarrow> 'k event_loop" where
  "queueInLoop k cb l = wakeup k (push_pending cb l)"

text \<open>\<open>runInLoop\<close> gives the callback that the calling thread is to run at once, if any.\<close>

definition runInLoop :: "eventfd_ops \<Rightarrow> nat \<Rightarrow> 'k \<Rightarrow> 'k event_loop \<Rightarrow> 'k option \<times> 'k event_loop" where
  "runInLoop k tid cb l = (if isInLoopThread tid l then (Some cb, l) else (None, queueInLoop k cb l))"

definition EventLoopThread_new :: "nat \<Rightarrow> int \<Rightarrow> 'k event_loop" where
  "EventLoopThread_new tid fd = setWakeupChannel (EventLoop_new tid fd)"

section \<open>The threads\<close>

text \<open>
  Where the thread of the loop is: before \<open>startLoop\<close>, at the test of \<open>looping_\<close>, in \<open>poll\<close>, handling the
  active channels that are left, at the swap of the queue, running the callbacks that are
  left, or out of the loop. Where a thread that calls \<open>runInLoop\<close> is: not in it, before
  the push, before the write to the event descriptor.
\<close>

datatype 'k loop_pc = NotStarted | AtTest | AtPoll | AtHandle "int list" | AtSwap | AtRun "'k list" | Ended

datatype 'k call_pc = Idle | AtPush 'k | AtWakeup

text \<open>
  \<open>loop_owner\<close> is the thread \<open>EventLoopThread::startLoop\<close> creates. \<open>queued\<close>, \<open>ran\<close> and \<open>inlined\<close> are histories:
  the callbacks pushed to the queue, the queued callbacks that were run, and the callbacks
  \<open>runInLoop\<close> ran at once, with the thread that ran them.
\<close>

record 'k loop_system =
  the_loop :: "'k event_loop"
  loop_owner :: nat
  loop_at :: "'k loop_pc"
  call_at :: "nat \<Rightarrow> 'k call_pc"
  queued :: "'k list"
  ran :: "'k list"
  inlined :: "(nat \<times> 'k) list"

definition system_new :: "'k event_loop \<Rightarrow> nat \<Rightarrow> 'k loop_system" where
  "system_new l own = \<lparr>the_loop = l, loop_owner = own, loop_at = NotStarted, call_at = (\<lambda>_. Idle),
     queued = [], ran = [], inlined = []\<rparr>"

text \<open>
  What a handler or a callback may do to the loop it runs in: register, update and remove
  channels other than the wakeup channel, and run callbacks through \<open>runInLoop\<close>, which runs them
  at once in this thread.
\<close>

definition handler_effect :: "(int \<rightharpoonup> events) \<Rightarrow> 'k list \<Rightarrow> 'k loop_system \<Rightarrow> 'k loop_system" where
  "handler_effect ps cbs s =
     s\<lparr>the_loop := (the_loop s)\<lparr>poll_set := ps(wakeup_fd (the_loop s) := poll_set (the_loop s) (wakeup_fd (the_loop s)))\<rparr>,
       inlined := inlined s @ map (Pair (loop_owner s)) cbs\<rparr>"

text \<open>
  The steps of the loop's thread. A poll returns watched descriptors, the event descriptor
  only when its counter is not zero; it blocks when there is nothing to return, and may fail.
\<close>

inductive loop_step :: "eventfd_ops \<Rightarrow> 'k loop_system \<Rightarrow> 'k loop_system \<Rightarrow> bool" for k :: eventfd_ops where
  step_start: "loop_at s = NotStarted \<Longrightarrow>
    loop_step k s (s\<lparr>the_loop := startLoop (loop_owner s) (the_loop s), loop_at := AtTest\<rparr>)"
| step_test: "loop_at s = AtTest \<Longrightarrow>
    loop_step k s (s\<lparr>loop_at := (if looping (the_loop s) then AtPoll else Ended)\<rparr>)"
| step_poll: "loop_at s = AtPoll \<Longrightarrow> act \<noteq> [] \<Longrightarrow> set act \<subseteq> dom (poll_set (the_loop s)) \<Longrightarrow>
    (wakeup_fd (the_loop s) \<in> set act \<Longrightarrow> 0 < wakeup_count (the_loop s)) \<Longrightarrow>
    loop_step k s (s\<lparr>loop_at := AtHandle act\<rparr>)"
| step_poll_error: "loop_at s = AtPoll \<Longrightarrow> loop_step k s (s\<lparr>loop_at := AtHandle []\<rparr>)"
| step_wakeup: "loop_at s = AtHandle (fd # fds) \<Longrightarrow> fd = wakeup_fd (the_loop s) \<Longrightarrow>
    loop_step k s (s\<lparr>the_loop := wakeupCallback k (the_loop s), loop_at := AtHandle fds\<rparr>)"
| step_handle: "loop_at s = AtHandle (fd # fds) \<Longrightarrow> fd \<noteq> wakeup_fd (the_loop s) \<Longrightarrow>
    loop_step k s ((handler_effect ps cbs s)\<lparr>loop_at := AtHandle fds\<rparr>)"
| step_handled: "loop_at s = AtHandle [] \<Longrightarrow> loop_step k s (s\<lparr>loop_at := AtSwap\<rparr>)"
| step_swap: "loop_at s = AtSwap \<Longrightarrow> swap_pending (the_loop s) = (cbs, l) \<Longrightarrow>
    loop_step k s (s\<lparr>the_loop := l, loop_at := AtRun cbs\<rparr>)"
| step_run: "loop_at s = AtRun (cb # cbs) \<Longrightarrow>
    loop_step k s ((handler_effect ps cbs' s)\<lparr>loop_at := AtRun cbs, ran := ran s @ [cb]\<rparr>)"
| step_again: "loop_at s = AtRun [] \<Longrightarrow> loop_step k s (s\<lparr>loop_at := AtTest\<rparr>)"

text \<open>The steps of other threads, and of the owner before it has started the loop.\<close>

inductive caller_step :: "eventfd_ops \<Rightarrow> 'k loop_system \<Rightarrow> 'k loop_system \<Rightarrow> bool" for k :: eventfd_ops where
  call_inline: "call_at s t = Idle \<Longrightarrow> t \<noteq> loop_owner s \<or> loop_at s = NotStarted \<Longrightarrow> isInLoopThread t (the_loop s) \<Longrightarrow>
    caller_step k s (s\<lparr>inlined := inlined s @ [(t, cb)]\<rparr>)"
| call_queue: "call_at s t = Idle \<Longrightarrow> t \<noteq> loop_owner s \<or> loop_at s = NotStarted \<Longrightarrow> \<not> isInLoopThread t (the_loop s) \<Longrightarrow>
    caller_step k s (s\<lparr>call_at := (call_at s)(t := AtPush cb)\<rparr>)"
| call_push: "call_at s t = AtPush cb \<Longrightarrow>
    caller_step k s (s\<lparr>the_loop := push_pending cb (the_loop s), call_at := (call_at s)(t := AtWakeup), queued := queued s @ [cb]\<rparr>)"
| call_wakeup: "call_at s t = AtWakeup \<Longrightarrow>
    caller_step k s (s\<lparr>the_loop := wakeup k (the_loop s), call_at := (call_at s)(t := Idle)\<rparr>)"
| call_end: "caller_step k s (s\<lparr>the_loop := endLoop (the_loop s)\<rparr>)"

definition system_step :: "eventfd_ops \<Rightarrow> 'k loop_system \<Rightarrow> 'k loop_system \<Rightarrow> bool" where
  "system_step k s t \<longleftrightarrow> loop_step k s t \<or> caller_step k s t"

inductive system_reach :: "eventfd_ops \<Rightarrow> 'k loop_system \<Rightarrow> 'k loop_system \<Rightarrow> bool" for k :: eventfd_ops and s0 :: "'k loop_system" where
  reach_start: "system_reach k s0 s0"
| reach_step: "system_reach k s0 s \<Longrightarrow> system_step k s t \<Longrightarrow> system_reach k s0 t"

lemma reach_loop: "system_reach k s0 s \<Longrightarrow> loop_step k s t \<Longrightarrow> system_reach k s0 t"
  by (erule reach_step) (simp add: system_step_def)

lemma reach_caller: "system_reach k s0 s \<Longrightarrow> caller_step k s t \<Longrightarrow> system_reach k s0 t"
  by (erule reach_step) (simp add: system_step_def)

section \<open>Progress of one thread in a fair run\<close>

text \<open>
  A thread that takes infinitely many steps in a run reaches its goal when each of its own
  steps lowers a rank and the steps of others do not change it.
\<close>

locale fair_progress =
  fixes mine :: "'s \<Rightarrow> 's \<Rightarrow> bool" and other :: "'s \<Rightarrow> 's \<Rightarrow> bool" and inv :: "'s \<Rightarrow> bool"
    and goal :: "'s \<Rightarrow> bool" and rank :: "'s \<Rightarrow> nat \<times> nat"
  assumes mine_inv: "inv s \<Longrightarrow> mine s t \<Longrightarrow> inv t"
    and other_inv: "inv s \<Longrightarrow> other s t \<Longrightarrow> inv t"
    and mine_lowers: "inv s \<Longrightarrow> \<not> goal s \<Longrightarrow> mine s t \<Longrightarrow> goal t \<or> (rank t, rank s) \<in> less_than <*lex*> less_than"
    and other_keeps: "inv s \<Longrightarrow> \<not> goal s \<Longrightarrow> other s t \<Longrightarrow> goal t \<or> rank t = rank s"
begin

lemma before_next_step:
  assumes "\<And>i. mine (\<sigma> i) (\<sigma> (Suc i)) \<or> other (\<sigma> i) (\<sigma> (Suc i))" and "inv (\<sigma> i)"
    and "\<And>j. i \<le> j \<Longrightarrow> \<not> goal (\<sigma> j)" and "\<And>j. i \<le> j \<Longrightarrow> j < n \<Longrightarrow> \<not> mine (\<sigma> j) (\<sigma> (Suc j))" and "i \<le> m" "m \<le> n"
  shows "inv (\<sigma> m) \<and> rank (\<sigma> m) = rank (\<sigma> i)"
  using assms(5,6)
proof (induction m rule: dec_induct)
  case base
  then show ?case using assms(2) by simp
next
  case (step m)
  then have "other (\<sigma> m) (\<sigma> (Suc m))" using assms(1) [of m] assms(4) [of m] by simp
  with step other_inv other_keeps [of "\<sigma> m" "\<sigma> (Suc m)"] assms(3) [of m] assms(3) [of "Suc m"] show ?case by auto
qed

lemma eventually_goal:
  assumes run: "\<And>i. mine (\<sigma> i) (\<sigma> (Suc i)) \<or> other (\<sigma> i) (\<sigma> (Suc i))" and fair: "\<And>i. \<exists>j\<ge>i. mine (\<sigma> j) (\<sigma> (Suc j))"
    and "inv (\<sigma> i)"
  shows "\<exists>j\<ge>i. goal (\<sigma> j)"
proof -
  have "\<forall>i. inv (\<sigma> i) \<longrightarrow> rank (\<sigma> i) = r \<longrightarrow> (\<exists>j\<ge>i. goal (\<sigma> j))" for r
  proof (induction r rule: wf_induct_rule [OF wf_lex_prod [OF wf_less_than wf_less_than]])
    case (1 r)
    show ?case
    proof (intro allI impI, rule ccontr)
      fix i
      assume inv: "inv (\<sigma> i)" and r: "rank (\<sigma> i) = r" and "\<not> (\<exists>j\<ge>i. goal (\<sigma> j))"
      then have ng: "\<And>j. i \<le> j \<Longrightarrow> \<not> goal (\<sigma> j)" by blast
      define n where "n = (LEAST j. i \<le> j \<and> mine (\<sigma> j) (\<sigma> (Suc j)))"
      from fair [of i] have n: "i \<le> n" "mine (\<sigma> n) (\<sigma> (Suc n))"
        unfolding n_def by (metis (mono_tags, lifting) LeastI)+
      have "\<And>j. i \<le> j \<Longrightarrow> j < n \<Longrightarrow> \<not> mine (\<sigma> j) (\<sigma> (Suc j))"
        unfolding n_def using not_less_Least by blast
      from before_next_step [OF run inv ng this n(1) order_refl] have m: "inv (\<sigma> n)" "rank (\<sigma> n) = r" using r by simp_all
      from mine_lowers [OF m(1) ng [OF n(1)] n(2)] ng [of "Suc n"] n(1) m(2)
      have "(rank (\<sigma> (Suc n)), r) \<in> less_than <*lex*> less_than" by simp
      with 1 mine_inv [OF m(1) n(2)] obtain j where "Suc n \<le> j" "goal (\<sigma> j)" by blast
      with ng n(1) show False by simp
    qed
  qed
  with assms(3) show ?thesis by blast
qed

end

section \<open>Invariants\<close>

text \<open>Documented behaviour of an event descriptor: after a write its counter is not zero.\<close>

definition eventfd_contract :: "eventfd_ops \<Rightarrow> bool" where
  "eventfd_contract k \<longleftrightarrow> (\<forall>c. 0 < efd_write k c)"

fun running :: "'k loop_pc \<Rightarrow> 'k list" where
  "running (AtRun cbs) = cbs"
| "running _ = []"

fun will_swap :: "'k loop_pc \<Rightarrow> bool" where
  "will_swap (AtHandle fds) = True"
| "will_swap AtSwap = True"
| "will_swap _ = False"

text \<open>
  Nothing is lost or run twice; a callback in the queue is announced by the counter, by a
  thread about to write it, or the swap is yet to come; the wakeup channel stays registered;
  the loop knows its thread once it has started.
\<close>

definition queue_inv :: "'k loop_system \<Rightarrow> bool" where
  "queue_inv s \<longleftrightarrow> queued s = ran s @ running (loop_at s) @ pending_callbacks (the_loop s)"

definition wakeup_inv :: "'k loop_system \<Rightarrow> bool" where
  "wakeup_inv s \<longleftrightarrow> (pending_callbacks (the_loop s) \<noteq> [] \<longrightarrow>
     0 < wakeup_count (the_loop s) \<or> will_swap (loop_at s) \<or> (\<exists>t. call_at s t = AtWakeup))"

definition owner_inv :: "'k loop_system \<Rightarrow> bool" where
  "owner_inv s \<longleftrightarrow> (loop_at s \<noteq> NotStarted \<longrightarrow> thread_id (the_loop s) = loop_owner s)"

definition registered :: "'k loop_system \<Rightarrow> bool" where
  "registered s \<longleftrightarrow> poll_set (the_loop s) (wakeup_fd (the_loop s)) \<noteq> None"

lemmas loop_defs = startLoop_def endLoop_def push_pending_def swap_pending_def wakeup_def wakeupCallback_def
  handler_effect_def

lemma queue_inv_step: "queue_inv s \<Longrightarrow> system_step k s t \<Longrightarrow> queue_inv t"
  unfolding system_step_def
  by (elim disjE loop_step.cases caller_step.cases) (auto simp: queue_inv_def loop_defs)

lemma wakeup_inv_step:
  assumes "eventfd_contract k" and "wakeup_inv s" and "system_step k s t"
  shows "wakeup_inv t"
  using assms(3) unfolding system_step_def
proof
  assume "loop_step k s t"
  then show ?thesis using assms(2) by cases (auto simp: wakeup_inv_def loop_defs)
next
  assume "caller_step k s t"
  then show ?thesis
  proof cases
    case (call_queue t' cb)
    then have eq: "the_loop t = the_loop s" "loop_at t = loop_at s" by simp_all
    have "\<exists>u. call_at t u = AtWakeup" if "call_at s u = AtWakeup" for u
      using that call_queue by (intro exI [of _ u]) auto
    with assms(2) show ?thesis unfolding wakeup_inv_def eq by blast
  qed (use assms(1,2) in \<open>auto simp: wakeup_inv_def loop_defs eventfd_contract_def split: if_splits\<close>)
qed

lemma owner_inv_step: "owner_inv s \<Longrightarrow> system_step k s t \<Longrightarrow> owner_inv t"
  unfolding system_step_def
  by (elim disjE loop_step.cases caller_step.cases) (auto simp: owner_inv_def loop_defs)

lemma registered_step: "registered s \<Longrightarrow> system_step k s t \<Longrightarrow> registered t"
  unfolding system_step_def
  by (elim disjE loop_step.cases caller_step.cases) (auto simp: registered_def loop_defs)

lemma system_inv_reach:
  assumes "eventfd_contract k" and "system_reach k (system_new l own) s" and "pending_callbacks l = []"
  shows "queue_inv s \<and> wakeup_inv s \<and> owner_inv s"
  using assms(2)
proof (induction rule: system_reach.induct)
  case reach_start
  show ?case using assms(3) by (simp add: queue_inv_def wakeup_inv_def owner_inv_def system_new_def)
next
  case (reach_step s t)
  then show ?case using queue_inv_step wakeup_inv_step [OF assms(1)] owner_inv_step by blast
qed

lemma registered_reach:
  assumes "system_reach k s0 s" and "registered s0"
  shows "registered s"
  using assms by (induction rule: system_reach.induct) (auto intro: registered_step)

lemma EventLoopThread_new_simps [simp]:
  "pending_callbacks (EventLoopThread_new tid fd) = []"
  "wakeup_fd (EventLoopThread_new tid fd) = fd"
  "registered (system_new (EventLoopThread_new tid fd) own)"
  by (simp_all add: EventLoopThread_new_def setWakeupChannel_def EventLoop_new_def addChannelInPoller_def Let_def registered_def
      system_new_def enableReading_def Channel_new_def)

section \<open>Every queued callback runs\<close>

text \<open>How far the loop is from having run the first \<open>n\<close> queued callbacks.\<close>

fun phase :: "'k loop_pc \<Rightarrow> nat \<times> nat" where
  "phase Ended = (0, 1)"
| "phase AtSwap = (2, 0)"
| "phase (AtHandle fds) = (3, length fds)"
| "phase AtPoll = (4, 0)"
| "phase AtTest = (5, 0)"
| "phase NotStarted = (6, 0)"
| "phase (AtRun cbs) = (7, length cbs)"

definition run_rank :: "nat \<Rightarrow> 'k loop_system \<Rightarrow> nat \<times> nat" where
  "run_rank n s =
     (if n \<le> length (ran s) + length (running (loop_at s)) then (1, length (running (loop_at s))) else phase (loop_at s))"

definition queue_has :: "nat \<Rightarrow> 'k loop_system \<Rightarrow> bool" where
  "queue_has n s \<longleftrightarrow> queue_inv s \<and> n \<le> length (queued s)"

definition has_run :: "nat \<Rightarrow> 'k loop_system \<Rightarrow> bool" where
  "has_run n s \<longleftrightarrow> n \<le> length (ran s)"

lemma queued_grows: "system_step k s t \<Longrightarrow> prefix (queued s) (queued t)"
  unfolding system_step_def
  by (elim disjE loop_step.cases caller_step.cases) (auto simp: loop_defs)

lemma queue_has_step: "queue_has n s \<Longrightarrow> system_step k s t \<Longrightarrow> queue_has n t"
  unfolding queue_has_def using queue_inv_step [of s k t] prefix_length_le [OF queued_grows, of k s t] by auto

lemma loop_step_rank:
  assumes "queue_has n s" and "\<not> has_run n s" and "loop_step k s t"
  shows "has_run n t \<or> (run_rank n t, run_rank n s) \<in> less_than <*lex*> less_than"
  using assms(3,1,2) by cases (auto simp: queue_has_def queue_inv_def has_run_def run_rank_def loop_defs)

lemma caller_step_rank: "caller_step k s t \<Longrightarrow> run_rank n t = run_rank n s"
  by (erule caller_step.cases) (simp_all add: run_rank_def)

interpretation queue_run: fair_progress "loop_step k" "caller_step k" "queue_has n" "has_run n" "run_rank n" for k n
proof
  show "queue_has n t" if "queue_has n s" "loop_step k s t" for s t :: "'a loop_system"
    using that queue_has_step [of n s k t] by (simp add: system_step_def)
  show "queue_has n t" if "queue_has n s" "caller_step k s t" for s t :: "'a loop_system"
    using that queue_has_step [of n s k t] by (simp add: system_step_def)
qed (auto simp: caller_step_rank dest: loop_step_rank)

lemma inlined_by_owner:
  assumes "owner_inv s" and "loop_at s \<noteq> NotStarted" and "system_step k s t"
  shows "\<exists>cbs. inlined t = inlined s @ map (Pair (loop_owner s)) cbs"
  using assms(3) unfolding system_step_def
proof
  assume "loop_step k s t"
  then show ?thesis by cases (auto simp: loop_defs)
next
  assume "caller_step k s t"
  then show ?thesis using assms(1,2) by cases (auto simp: owner_inv_def isInLoopThread_def)
qed

lemma poll_not_blocked:
  assumes "wakeup_inv s" and "registered s" and "loop_at s = AtPoll" and "pending_callbacks (the_loop s) \<noteq> []"
    and "\<And>t. call_at s t \<noteq> AtWakeup"
  shows "loop_step k s (s\<lparr>loop_at := AtHandle [wakeup_fd (the_loop s)]\<rparr>)"
  using assms by (intro step_poll) (auto simp: wakeup_inv_def registered_def)

section \<open>The thread of the loop between its steps\<close>

text \<open>Whether the thread of the loop can go on, when nothing but the event descriptor makes a poll return.\<close>

definition not_blocked :: "'k loop_system \<Rightarrow> bool" where
  "not_blocked s \<longleftrightarrow> loop_at s \<noteq> Ended \<and> (loop_at s = AtPoll \<longrightarrow> 0 < wakeup_count (the_loop s))"

lemma caller_not_blocked:
  "eventfd_contract k \<Longrightarrow> caller_step k s t \<Longrightarrow> not_blocked s \<Longrightarrow> not_blocked t"
  by (erule caller_step.cases) (auto simp: not_blocked_def eventfd_contract_def loop_defs)

lemma caller_loop_at: "caller_step k s t \<Longrightarrow> loop_at t = loop_at s"
  by (erule caller_step.cases) simp_all

lemma caller_writes:
  "eventfd_contract k \<Longrightarrow> caller_step k s t \<Longrightarrow> call_at s u = AtWakeup \<Longrightarrow> call_at t u \<noteq> AtWakeup \<Longrightarrow>
   0 < wakeup_count (the_loop t)"
  by (erule caller_step.cases) (auto simp: eventfd_contract_def loop_defs split: if_splits)

lemma quiet_not_blocked:
  assumes "eventfd_contract k" and "\<And>j. m \<le> j \<Longrightarrow> caller_step k (\<sigma> j) (\<sigma> (Suc j))" and "m \<le> j" "j \<le> l" and "not_blocked (\<sigma> j)"
  shows "not_blocked (\<sigma> l)"
  using assms(4)
proof (induction l rule: dec_induct)
  case (step l)
  then show ?case using caller_not_blocked [OF assms(1) assms(2) [of l]] assms(3) by simp
qed (rule assms(5))

lemma quiet_loop_at:
  assumes "\<And>j. m \<le> j \<Longrightarrow> caller_step k (\<sigma> j) (\<sigma> (Suc j))" and "m \<le> l"
  shows "loop_at (\<sigma> l) = loop_at (\<sigma> m)"
  using assms(2)
proof (induction l rule: dec_induct)
  case (step l)
  then show ?case using caller_loop_at [OF assms(1) [of l]] by simp
qed simp

text \<open>While only the callers move, a loop with callbacks in its queue does not stay blocked.\<close>

lemma quiet_unblocks:
  assumes "eventfd_contract k" and "\<And>j. m \<le> j \<Longrightarrow> caller_step k (\<sigma> j) (\<sigma> (Suc j))" and "wakeup_inv (\<sigma> m)"
    and "loop_at (\<sigma> m) \<noteq> Ended" and "loop_at (\<sigma> m) = AtPoll \<Longrightarrow> pending_callbacks (the_loop (\<sigma> m)) \<noteq> []"
    and "\<And>t. call_at (\<sigma> m) t = AtWakeup \<Longrightarrow> \<exists>j\<ge>m. call_at (\<sigma> j) t \<noteq> AtWakeup"
  obtains j where "m \<le> j" "not_blocked (\<sigma> j)"
proof (cases "not_blocked (\<sigma> m)")
  case False
  with assms(3-5) obtain t where t: "call_at (\<sigma> m) t = AtWakeup" by (auto simp: not_blocked_def wakeup_inv_def)
  define j where "j = (LEAST j. m \<le> j \<and> call_at (\<sigma> j) t \<noteq> AtWakeup)"
  from assms(6) [OF t] have j: "m \<le> j" "call_at (\<sigma> j) t \<noteq> AtWakeup"
    unfolding j_def by (metis (mono_tags, lifting) LeastI)+
  with t have "m < j" using le_neq_implies_less by blast
  then obtain l where l: "j = Suc l" "m \<le> l" by (cases j) simp_all
  then have "call_at (\<sigma> l) t = AtWakeup" using not_less_Least [of l "\<lambda>j. m \<le> j \<and> call_at (\<sigma> j) t \<noteq> AtWakeup"] by (simp add: j_def)
  with caller_writes [OF assms(1) assms(2) [OF l(2)]] j(2) l(1) have "0 < wakeup_count (the_loop (\<sigma> j))" by simp
  moreover have "loop_at (\<sigma> j) = loop_at (\<sigma> m)" using assms(2) j(1) by (rule quiet_loop_at)
  ultimately show ?thesis using assms(4) j(1) by (intro that [of j]) (simp_all add: not_blocked_def)
qed (use that in blast)

lemma run_reach:
  assumes "system_reach k s0 (\<sigma> 0)" and "\<And>i. loop_step k (\<sigma> i) (\<sigma> (Suc i)) \<or> caller_step k (\<sigma> i) (\<sigma> (Suc i))"
  shows "system_reach k s0 (\<sigma> j)"
  using assms by (induction j) (auto intro: reach_step simp: system_step_def)

lemma run_queued:
  assumes "\<And>i. loop_step k (\<sigma> i) (\<sigma> (Suc i)) \<or> caller_step k (\<sigma> i) (\<sigma> (Suc i))" and "i \<le> j"
  shows "prefix (queued (\<sigma> i)) (queued (\<sigma> j))"
  using assms(2)
proof (induction j rule: dec_induct)
  case (step j)
  then show ?case
    using queued_grows [of k "\<sigma> j" "\<sigma> (Suc j)"] assms(1) [of j] by (auto simp: system_step_def intro: prefix_order.trans)
qed simp

lemma ran_prefix: "queue_inv s \<Longrightarrow> prefix q (queued s) \<Longrightarrow> length q \<le> length (ran s) \<Longrightarrow> prefix q (ran s)"
  unfolding queue_inv_def using prefix_length_prefix [of q "queued s" "ran s"] by simp

section \<open>A deterministic schedule\<close>

text \<open>The loop's thread alone, with the event descriptor as the only source of events.\<close>

definition drive :: "eventfd_ops \<Rightarrow> 'k loop_system \<Rightarrow> 'k loop_system" where
  "drive k s =
     (case loop_at s of
        NotStarted \<Rightarrow> s\<lparr>the_loop := startLoop (loop_owner s) (the_loop s), loop_at := AtTest\<rparr>
      | AtTest \<Rightarrow> s\<lparr>loop_at := (if looping (the_loop s) then AtPoll else Ended)\<rparr>
      | AtPoll \<Rightarrow> s\<lparr>loop_at := AtHandle (if 0 < wakeup_count (the_loop s) then [wakeup_fd (the_loop s)] else [])\<rparr>
      | AtHandle [] \<Rightarrow> s\<lparr>loop_at := AtSwap\<rparr>
      | AtHandle (fd # fds) \<Rightarrow> s\<lparr>the_loop := wakeupCallback k (the_loop s), loop_at := AtHandle fds\<rparr>
      | AtSwap \<Rightarrow> (let (cbs, l) = swap_pending (the_loop s) in s\<lparr>the_loop := l, loop_at := AtRun cbs\<rparr>)
      | AtRun [] \<Rightarrow> s\<lparr>loop_at := AtTest\<rparr>
      | AtRun (cb # cbs) \<Rightarrow> s\<lparr>loop_at := AtRun cbs, ran := ran s @ [cb]\<rparr>
      | Ended \<Rightarrow> s)"

fun handles :: "'k loop_pc \<Rightarrow> int list" where
  "handles (AtHandle fds) = fds"
| "handles _ = []"

definition driven :: "'k loop_system \<Rightarrow> bool" where
  "driven s \<longleftrightarrow> registered s \<and> set (handles (loop_at s)) \<subseteq> {wakeup_fd (the_loop s)} \<and> loop_at s \<noteq> Ended \<and>
     (loop_at s = NotStarted \<or> looping (the_loop s))"

lemma handler_effect_none: "handler_effect (poll_set (the_loop s)) [] s = s"
  by (simp add: handler_effect_def)

lemma drive_step:
  assumes "driven s"
  shows "loop_step k s (drive k s)"
proof (cases "loop_at s")
  case NotStarted
  then show ?thesis by (simp add: drive_def step_start)
next
  case AtTest
  then show ?thesis using step_test [of s k] by (simp add: drive_def)
next
  case AtPoll
  then show ?thesis
    using assms step_poll [of s "[wakeup_fd (the_loop s)]" k] step_poll_error [of s k]
    by (auto simp: drive_def driven_def registered_def)
next
  case (AtHandle fds)
  then show ?thesis
    using assms by (cases fds) (auto simp: drive_def driven_def intro: step_handled step_wakeup)
next
  case AtSwap
  then show ?thesis by (auto simp: drive_def intro: step_swap split: prod.split)
next
  case (AtRun cbs)
  then show ?thesis
    using step_run [of s "hd cbs" "tl cbs" k "poll_set (the_loop s)" "[]"]
    by (cases cbs) (simp_all add: drive_def handler_effect_none step_again)
next
  case Ended
  then show ?thesis using assms by (simp add: driven_def)
qed

lemma drive_call_at:
  fixes s :: "'k loop_system"
  shows "call_at ((drive k ^^ i) s) = call_at s"
proof (induction i)
  case (Suc i)
  have "call_at (drive k s') = call_at s'" for s' :: "'k loop_system"
    by (simp add: drive_def swap_pending_def split: loop_pc.split list.split)
  with Suc show ?case by simp
qed simp

lemma drive_driven: "driven s \<Longrightarrow> driven (drive k s)"
  by (auto simp: driven_def drive_def loop_defs registered_def split: loop_pc.split list.split)

lemma drive_run: "driven s \<Longrightarrow> loop_step k ((drive k ^^ i) s) ((drive k ^^ Suc i) s)"
proof -
  assume "driven s"
  then have "driven ((drive k ^^ i) s)" by (induction i) (simp_all add: drive_driven)
  then show ?thesis by (simp add: drive_step)
qed

section \<open>Properties\<close>

text \<open>
  C23: callbacks handed to a loop from other threads run exactly once and in the order in
  which they were queued: at any moment the queued callbacks are those that have run, then
  those being run, then those still pending. Once the loop has started, every callback runs
  in the thread of the loop.
\<close>

theorem callbacks_run_in_order:
  assumes "eventfd_contract k" and "system_reach k (system_new (EventLoopThread_new tid fd) own) s"
  shows "queued s = ran s @ running (loop_at s) @ pending_callbacks (the_loop s) \<and>
    (loop_at s \<noteq> NotStarted \<longrightarrow> system_step k s t \<longrightarrow> (\<exists>cbs. inlined t = inlined s @ map (Pair (loop_owner s)) cbs))"
  using system_inv_reach [OF assms] inlined_by_owner [of s k t] by (simp add: queue_inv_def)

definition own_eventfd :: eventfd_ops where
  "own_eventfd = \<lparr>efd_write = Suc, efd_read = (\<lambda>c. 0)\<rparr>"

lemma own_eventfd_ok: "eventfd_contract own_eventfd"
  by (simp add: eventfd_contract_def own_eventfd_def)

text \<open>Thread 2 has queued a callback of a loop that thread 0 created and thread 1 is to run.\<close>

definition wit_queued :: "string loop_system" where
  "wit_queued = (system_new (EventLoopThread_new 0 9) 1)\<lparr>the_loop := queueInLoop own_eventfd ''job'' (EventLoopThread_new 0 9),
     queued := [''job'']\<rparr>"

lemma wit_queued_reach: "system_reach own_eventfd (system_new (EventLoopThread_new 0 9) 1) wit_queued"
proof -
  let ?l = "EventLoopThread_new 0 9 :: string event_loop"
  let ?s0 = "system_new ?l 1"
  let ?s1 = "?s0\<lparr>call_at := (call_at ?s0)(2 := AtPush ''job'')\<rparr>"
  let ?s2 = "?s1\<lparr>the_loop := push_pending ''job'' (the_loop ?s1), call_at := (call_at ?s1)(2 := AtWakeup), queued := queued ?s1 @ [''job'']\<rparr>"
  let ?s3 = "?s2\<lparr>the_loop := wakeup own_eventfd (the_loop ?s2), call_at := (call_at ?s2)(2 := Idle)\<rparr>"
  have t: "thread_id ?l = 0"
    by (simp add: EventLoopThread_new_def setWakeupChannel_def addChannelInPoller_def EventLoop_new_def Let_def)
  have "system_reach own_eventfd ?s0 ?s0" by (rule reach_start)
  moreover have "caller_step own_eventfd ?s0 ?s1"
    using t by (intro call_queue) (simp_all add: system_new_def isInLoopThread_def)
  moreover have "caller_step own_eventfd ?s1 ?s2" by (intro call_push) simp
  moreover have "caller_step own_eventfd ?s2 ?s3" by (intro call_wakeup) simp
  ultimately have "system_reach own_eventfd ?s0 ?s3"
    by (blast intro: reach_caller)
  moreover have "?s3 = wit_queued"
    by (simp add: wit_queued_def system_new_def queueInLoop_def fun_eq_iff)
  ultimately show ?thesis by simp
qed

theorem callbacks_run_in_order_witness:
  "queued wit_queued = ran wit_queued @ running (loop_at wit_queued) @ pending_callbacks (the_loop wit_queued)"
  using callbacks_run_in_order [OF own_eventfd_ok wit_queued_reach, of wit_queued] by simp

text \<open>
  C22: no wakeup is lost. When a loop is about to block in the poller with callbacks in its queue,
  and no thread is still on its way to write the event descriptor, the poll returns at
  once with the wakeup channel.
\<close>

theorem no_lost_wakeup:
  assumes "eventfd_contract k" and "system_reach k (system_new (EventLoopThread_new tid fd) own) s"
    and "loop_at s = AtPoll" and "pending_callbacks (the_loop s) \<noteq> []" and "\<And>t. call_at s t \<noteq> AtWakeup"
  shows "0 < wakeup_count (the_loop s) \<and> loop_step k s (s\<lparr>loop_at := AtHandle [wakeup_fd (the_loop s)]\<rparr>)"
proof -
  have w: "wakeup_inv s" using system_inv_reach [OF assms(1,2)] by simp
  have r: "registered s" using registered_reach [OF assms(2)] by simp
  have "0 < wakeup_count (the_loop s)" using w assms(3-5) by (simp add: wakeup_inv_def)
  with poll_not_blocked [OF w r assms(3-5)] show ?thesis by simp
qed

theorem no_lost_wakeup_witness:
  "0 < wakeup_count (the_loop ((drive own_eventfd ^^ 2) wit_queued)) \<and>
   loop_step own_eventfd ((drive own_eventfd ^^ 2) wit_queued)
     (((drive own_eventfd ^^ 2) wit_queued)\<lparr>loop_at := AtHandle [wakeup_fd (the_loop ((drive own_eventfd ^^ 2) wit_queued))]\<rparr>)"
proof (rule no_lost_wakeup [OF own_eventfd_ok])
  let ?s = "(drive own_eventfd ^^ 2) wit_queued"
  have d: "driven wit_queued"
    using EventLoopThread_new_simps(3) [of 0 9 1]
    by (simp add: driven_def wit_queued_def system_new_def registered_def queueInLoop_def loop_defs)
  have "system_reach own_eventfd (system_new (EventLoopThread_new 0 9) 1) (drive own_eventfd (drive own_eventfd wit_queued))"
    by (rule reach_loop [OF reach_loop [OF wit_queued_reach drive_step [OF d]] drive_step [OF drive_driven [OF d]]])
  then show "system_reach own_eventfd (system_new (EventLoopThread_new 0 9) 1) ?s" by (simp add: numeral_2_eq_2)
  show "loop_at ?s = AtPoll" "pending_callbacks (the_loop ?s) \<noteq> []" "call_at ?s t \<noteq> AtWakeup" for t
    by (simp_all add: numeral_2_eq_2 drive_def wit_queued_def system_new_def loop_defs queueInLoop_def)
qed

text \<open>
  C21: every queued callback is run. In every run of the system, whatever the other threads do in
  between, the callbacks queued at some moment have all been run, in order, at a later one,
  unless the loop has been ended. It is assumed that a thread that can go on for ever does go on:
  the thread of the loop when it does not wait in the poll for an event descriptor
  that nobody has written, and a caller that has pushed its callback.
\<close>

theorem queued_callbacks_run:
  fixes \<sigma> :: "nat \<Rightarrow> 'k loop_system"
  assumes "eventfd_contract k" and "system_reach k (system_new (EventLoopThread_new tid fd) own) (\<sigma> 0)"
    and "\<And>i. loop_step k (\<sigma> i) (\<sigma> (Suc i)) \<or> caller_step k (\<sigma> i) (\<sigma> (Suc i))"
    and "\<And>i. (\<And>j. i \<le> j \<Longrightarrow> not_blocked (\<sigma> j)) \<Longrightarrow> \<exists>j\<ge>i. loop_step k (\<sigma> j) (\<sigma> (Suc j))"
    and "\<And>i t. call_at (\<sigma> i) t = AtWakeup \<Longrightarrow> \<exists>j\<ge>i. call_at (\<sigma> j) t \<noteq> AtWakeup"
  shows "\<exists>j\<ge>i. prefix (queued (\<sigma> i)) (ran (\<sigma> j)) \<or> loop_at (\<sigma> j) = Ended"
proof (rule ccontr)
  let ?n = "length (queued (\<sigma> i))"
  assume "\<not> ?thesis"
  then have no: "\<not> prefix (queued (\<sigma> i)) (ran (\<sigma> j))" "loop_at (\<sigma> j) \<noteq> Ended" if "i \<le> j" for j
    using that by blast+
  have inv: "queue_inv (\<sigma> j) \<and> wakeup_inv (\<sigma> j)" for j
    using system_inv_reach [OF assms(1) run_reach [where \<sigma> = \<sigma>, OF assms(2,3)]] by simp
  have has: "queue_has ?n (\<sigma> j)" if "i \<le> j" for j
    using inv prefix_length_le [OF run_queued [where \<sigma> = \<sigma>, OF assms(3) that]] by (simp add: queue_has_def)
  have late: "\<not> has_run ?n (\<sigma> j)" if "i \<le> j" for j
    using ran_prefix [of "\<sigma> j" "queued (\<sigma> i)"] inv run_queued [where \<sigma> = \<sigma>, OF assms(3) that] no(1) [OF that]
    by (auto simp: has_run_def)
  have fair: "\<exists>j\<ge>m. loop_step k (\<sigma> j) (\<sigma> (Suc j))" if m: "i \<le> m" for m
  proof (rule ccontr)
    assume "\<not> ?thesis"
    then have other: "caller_step k (\<sigma> j) (\<sigma> (Suc j))" if "m \<le> j" for j using assms(3) [of j] that by blast
    obtain j where j: "m \<le> j" "not_blocked (\<sigma> j)"
    proof (rule quiet_unblocks [where \<sigma> = \<sigma>, OF assms(1) other])
      show "wakeup_inv (\<sigma> m)" "loop_at (\<sigma> m) \<noteq> Ended" using inv no(2) [OF m] by simp_all
      show "pending_callbacks (the_loop (\<sigma> m)) \<noteq> []" if "loop_at (\<sigma> m) = AtPoll"
        using that has [OF m] late [OF m] by (auto simp: queue_has_def queue_inv_def has_run_def)
    qed (use assms(5) in blast)+
    then have "not_blocked (\<sigma> l)" if "j \<le> l" for l
      using quiet_not_blocked [where \<sigma> = \<sigma>, OF assms(1) other _ that] that by simp
    from assms(4) [OF this, of j] j(1) \<open>\<not> (\<exists>j\<ge>m. _ j)\<close> show False by (meson order_trans)
  qed
  have "\<exists>j\<ge>0. has_run ?n (\<sigma> (i + j))"
  proof (rule queue_run.eventually_goal)
    show "loop_step k (\<sigma> (i + j)) (\<sigma> (i + Suc j)) \<or> caller_step k (\<sigma> (i + j)) (\<sigma> (i + Suc j))" for j
      using assms(3) [of "i + j"] by simp
    show "\<exists>l\<ge>j. loop_step k (\<sigma> (i + l)) (\<sigma> (i + Suc l))" for j
      using fair [of "i + j"] by (metis add_Suc_right le_add1 nat_add_left_cancel_le le_iff_add order_trans)
    show "queue_has ?n (\<sigma> (i + 0))" using has by simp
  qed
  with late show False by auto
qed

theorem queued_callbacks_run_witness:
  "\<exists>j\<ge>0. prefix (queued ((drive own_eventfd ^^ 0) wit_queued)) (ran ((drive own_eventfd ^^ j) wit_queued)) \<or>
     loop_at ((drive own_eventfd ^^ j) wit_queued) = Ended"
proof (rule queued_callbacks_run [OF own_eventfd_ok])
  let ?run = "\<lambda>i. (drive own_eventfd ^^ i) wit_queued"
  have d: "driven wit_queued"
    using EventLoopThread_new_simps(3) [of 0 9 1]
    by (simp add: driven_def wit_queued_def system_new_def registered_def queueInLoop_def loop_defs)
  show "system_reach own_eventfd (system_new (EventLoopThread_new 0 9) 1) (?run 0)"
    using wit_queued_reach by simp
  show "loop_step own_eventfd (?run i) (?run (Suc i)) \<or> caller_step own_eventfd (?run i) (?run (Suc i))" for i
    using drive_run [OF d] by blast
  show "\<exists>j\<ge>i. loop_step own_eventfd (?run j) (?run (Suc j))" for i
    using drive_run [OF d] by blast
  show "\<exists>j\<ge>i. call_at (?run j) t \<noteq> AtWakeup" for i t
    using drive_call_at [of i own_eventfd wit_queued] by (auto simp: wit_queued_def system_new_def)
qed

text \<open>
  Two limits of the code. A loop that was given no wakeup channel, as the loop of the main thread, is
  not woken by a queued callback: its poll never returns the event descriptor. And a loop that
  has not started yet takes the thread that created it for its own, so that a callback runs
  there at once.
\<close>

lemma no_wakeup_channel_sleeps:
  assumes "poll_set (the_loop s) (wakeup_fd (the_loop s)) = None" and "loop_at s = AtPoll" and "loop_step k s t"
  shows "\<exists>act. loop_at t = AtHandle act \<and> wakeup_fd (the_loop s) \<notin> set act"
  using assms(3,1,2) by cases auto

lemma EventLoop_new_no_wakeup: "poll_set (EventLoop_new tid fd) fd = None"
  by (simp add: EventLoop_new_def)

lemma callback_before_start:
  "\<exists>s. system_reach k (system_new (EventLoopThread_new 0 fd) 1) s \<and> inlined s = [(0, cb)] \<and> loop_owner s = 1"
proof -
  let ?s = "system_new (EventLoopThread_new 0 fd) 1"
  have "caller_step k ?s (?s\<lparr>inlined := inlined ?s @ [(0, cb)]\<rparr>)"
    by (intro call_inline) (simp_all add: system_new_def isInLoopThread_def EventLoopThread_new_def setWakeupChannel_def
      addChannelInPoller_def EventLoop_new_def Let_def)
  from reach_caller [OF reach_start this] show ?thesis
    by (rule exI [where x = "?s\<lparr>inlined := inlined ?s @ [(0, cb)]\<rparr>", OF conjI]) (simp add: system_new_def)
qed

end
