(* ===== verification/Thread_Pool.thy ===== *)
theory Thread_Pool
  imports Event_Loop
begin

text \<open>
  \<open>net::EventLoopThreadPool\<close> (\<open>srcs/net/thread/event_loop_thread_pool.h\<close>, \<open>.cc\<close>): a fixed number of
  threads, each with a loop of its own, handed out in turn.
\<close>

section \<open>The pool\<close>

text \<open>
  \<open>tid\<close> is the thread that constructs the pool, \<open>fds\<close> the event descriptor the kernel gives to the
  loop with a number. Each loop is constructed, stored and then started in a thread of its own.
\<close>

record 'k thread_pool =
  num_threads :: nat
  threads :: "'k loop_system list"
  next_thread_idx :: nat

fun create_threads :: "nat \<Rightarrow> (nat \<Rightarrow> int) \<Rightarrow> (nat \<Rightarrow> nat) \<Rightarrow> nat \<Rightarrow> 'k loop_system list" where
  "create_threads tid fds owners 0 = []"
| "create_threads tid fds owners (Suc n) =
     create_threads tid fds owners n @ [system_new (EventLoopThread_new tid (fds n)) (owners n)]"

definition EventLoopThreadPool_new :: "nat \<Rightarrow> (nat \<Rightarrow> int) \<Rightarrow> (nat \<Rightarrow> nat) \<Rightarrow> nat \<Rightarrow> 'k thread_pool" where
  "EventLoopThreadPool_new tid fds owners n =
     \<lparr>num_threads = n, threads = create_threads tid fds owners n, next_thread_idx = 0\<rparr>"

text \<open>
  The index of the next thread. With no threads the element access and the remainder are undefined.
\<close>

definition getNextThread :: "'k thread_pool \<Rightarrow> (nat \<times> 'k thread_pool) option" where
  "getNextThread p =
     (if next_thread_idx p < length (threads p)
      then Some (next_thread_idx p, p\<lparr>next_thread_idx := (next_thread_idx p + 1) mod length (threads p)\<rparr>)
      else None)"

definition getNextLoop :: "'k thread_pool \<Rightarrow> (nat \<times> 'k thread_pool) option" where
  "getNextLoop p = getNextThread p"

fun getNextLoops :: "nat \<Rightarrow> 'k thread_pool \<Rightarrow> (nat list \<times> 'k thread_pool) option" where
  "getNextLoops 0 p = Some ([], p)"
| "getNextLoops (Suc n) p =
     do {
       (is, p') \<leftarrow> getNextLoops n p;
       (i, p'') \<leftarrow> getNextLoop p';
       Some (is @ [i], p'')
     }"

section \<open>Turns\<close>

lemma length_create_threads [simp]: "length (create_threads tid fds owners n) = n"
  by (induction n) simp_all

lemma pool_new_simps [simp]:
  "length (threads (EventLoopThreadPool_new tid fds owners n)) = n"
  "next_thread_idx (EventLoopThreadPool_new tid fds owners n) = 0"
  by (simp_all add: EventLoopThreadPool_new_def)

lemma getNextLoops_turns:
  assumes "0 < length (threads p)" and "next_thread_idx p = 0"
  shows "\<exists>p'. getNextLoops k p = Some (map (\<lambda>i. i mod length (threads p)) [0..<k], p') \<and>
    threads p' = threads p \<and> next_thread_idx p' = k mod length (threads p)"
proof (induction k)
  case 0
  then show ?case using assms by simp
next
  case (Suc k)
  then obtain p' where p': "getNextLoops k p = Some (map (\<lambda>i. i mod length (threads p)) [0..<k], p')"
    "threads p' = threads p" "next_thread_idx p' = k mod length (threads p)" by blast
  then show ?case
    using assms(1) by (simp add: getNextLoop_def getNextThread_def mod_Suc_eq)
qed

lemma count_turns:
  assumes "0 < n" and "j < n"
  shows "count_list (map (\<lambda>i. i mod n) [0..<k]) j = k div n + (if j < k mod n then 1 else 0)"
proof (induction k)
  case (Suc k)
  have "Suc k div n + (if j < Suc k mod n then 1 else 0) = k div n + (if j < k mod n then 1 else 0) + (if k mod n = j then 1 else 0)"
    using assms by (auto simp: div_Suc mod_Suc)
  with Suc show ?case by simp
qed simp

section \<open>Properties\<close>

text \<open>
  Loops are handed out in turn. The \<open>k\<close>-th of a sequence of requests gets loop \<open>k mod n\<close>, the index
  never leaves the vector of threads, and after any number of requests no loop has been
  handed out more than once more than another.
\<close>

theorem loops_in_turn:
  assumes "0 < n"
  shows "\<exists>turns p. getNextLoops k (EventLoopThreadPool_new tid fds owners n) = Some (turns, p) \<and>
    turns = map (\<lambda>i. i mod n) [0..<k] \<and> next_thread_idx p < length (threads p) \<and>
    (\<forall>i j. i < n \<and> j < n \<longrightarrow> count_list turns i \<le> count_list turns j + 1)"
  using getNextLoops_turns [of "EventLoopThreadPool_new tid fds owners n" k] assms by (auto simp: count_turns)

theorem loops_in_turn_witness:
  "\<exists>turns p. getNextLoops 5 (EventLoopThreadPool_new 0 int Suc 2) = Some (turns, p) \<and> turns = [0, 1, 0, 1, 0]"
  using loops_in_turn [of 2 5 0 int Suc] by (auto simp: upt_rec)

text \<open>A pool without threads has no next loop.\<close>

lemma empty_pool_undefined: "getNextLoop (EventLoopThreadPool_new tid fds owners 0) = None"
  by (simp add: getNextLoop_def getNextThread_def EventLoopThreadPool_new_def)

end
