(* ===== verification/Fd_Handler.thy ===== *)
theory Fd_Handler
  imports Prelude
begin

text \<open>
  \<open>net::FDHandler\<close> (\<open>srcs/net/fd_handler/fd_handler.h\<close>, \<open>fd_handler.cc\<close>): a file descriptor shared by its
  handlers and closed by the last of them.

  The heap holds the integers the shared pointers own, each with the number of its owners.
  \<open>closed\<close> lists the cells whose deleter has run. Handlers have names, as the objects of the
  program have addresses; using a name twice, or one that is gone, is undefined.
\<close>

section \<open>State and operations\<close>

record fd_heap =
  fd_cells :: "(int \<times> nat) list"
  handlers :: "nat \<rightharpoonup> nat"
  closed :: "nat list"

definition fd_heap_new :: fd_heap where
  "fd_heap_new = \<lparr>fd_cells = [], handlers = Map.empty, closed = []\<rparr>"

definition FDHandler_new :: "nat \<Rightarrow> int \<Rightarrow> fd_heap \<Rightarrow> fd_heap option" where
  "FDHandler_new h fd s =
     (if handlers s h \<noteq> None then None
      else Some (s\<lparr>fd_cells := fd_cells s @ [(fd, 1)], handlers := (handlers s)(h \<mapsto> length (fd_cells s))\<rparr>))"

definition FDHandler_copy :: "nat \<Rightarrow> nat \<Rightarrow> fd_heap \<Rightarrow> fd_heap option" where
  "FDHandler_copy h h' s =
     do {
       c \<leftarrow> handlers s h;
       (fd, n) \<leftarrow> vec_at (fd_cells s) c;
       if handlers s h' \<noteq> None then None
       else Some (s\<lparr>fd_cells := (fd_cells s)[c := (fd, n + 1)], handlers := (handlers s)(h' \<mapsto> c)\<rparr>)
     }"

text \<open>The destructor; the deleter \<open>FDDeleter\<close> runs when the last owner goes.\<close>

definition FDHandler_drop :: "nat \<Rightarrow> fd_heap \<Rightarrow> fd_heap option" where
  "FDHandler_drop h s =
     do {
       c \<leftarrow> handlers s h;
       (fd, n) \<leftarrow> vec_at (fd_cells s) c;
       Some (s\<lparr>fd_cells := (fd_cells s)[c := (fd, n - 1)], handlers := (handlers s)(h := None),
               closed := closed s @ (if n = 1 then [c] else [])\<rparr>)
     }"

definition FDHandler_get :: "nat \<Rightarrow> fd_heap \<Rightarrow> int option" where
  "FDHandler_get h s = do { c \<leftarrow> handlers s h; (fd, n) \<leftarrow> vec_at (fd_cells s) c; if n = 0 then None else Some fd }"

datatype fd_op = FdNew nat int | FdCopy nat nat | FdDrop nat

fun fd_step :: "fd_op \<Rightarrow> fd_heap \<Rightarrow> fd_heap option" where
  "fd_step (FdNew h fd) s = FDHandler_new h fd s"
| "fd_step (FdCopy h h') s = FDHandler_copy h h' s"
| "fd_step (FdDrop h) s = FDHandler_drop h s"

fun fd_run :: "fd_op list \<Rightarrow> fd_heap \<Rightarrow> fd_heap option" where
  "fd_run [] s = Some s"
| "fd_run (e # es) s = do { s' \<leftarrow> fd_step e s; fd_run es s' }"

section \<open>Counting owners\<close>

definition fd_owners :: "fd_heap \<Rightarrow> nat \<Rightarrow> nat set" where
  "fd_owners s c = {h. handlers s h = Some c}"

definition fd_inv :: "fd_heap \<Rightarrow> bool" where
  "fd_inv s \<longleftrightarrow>
     (\<forall>h c. handlers s h = Some c \<longrightarrow> c < length (fd_cells s)) \<and>
     (\<forall>c < length (fd_cells s). finite (fd_owners s c) \<and> snd (fd_cells s ! c) = card (fd_owners s c)) \<and>
     distinct (closed s) \<and> set (closed s) = {c. c < length (fd_cells s) \<and> fd_owners s c = {}}"

lemma fd_owners_new: "handlers s h = None \<Longrightarrow> c0 = length (fd_cells s) \<Longrightarrow>
    fd_owners (s\<lparr>fd_cells := xs, handlers := (handlers s)(h \<mapsto> c0)\<rparr>) c = (if c = c0 then insert h (fd_owners s c) else fd_owners s c)"
  by (auto simp: fd_owners_def)

lemma fd_owners_drop: "handlers s h = Some c0 \<Longrightarrow>
    fd_owners (s\<lparr>fd_cells := xs, handlers := (handlers s)(h := None), closed := cl\<rparr>) c = (if c = c0 then fd_owners s c - {h} else fd_owners s c)"
  by (auto simp: fd_owners_def)

lemma fd_inv_new: "fd_inv s \<Longrightarrow> FDHandler_new h fd s = Some s' \<Longrightarrow> fd_inv s'"
proof -
  assume inv: "fd_inv s" and run: "FDHandler_new h fd s = Some s'"
  have fresh: "fd_owners s (length (fd_cells s)) = {}" using inv by (auto simp: fd_inv_def fd_owners_def)
  from run inv fresh show ?thesis
    by (auto simp: FDHandler_new_def fd_inv_def fd_owners_new nth_append less_Suc_eq split: if_splits)
qed

lemma fd_inv_count:
  assumes "fd_inv s" and "handlers s h = Some c" and "vec_at (fd_cells s) c = Some (fd, n)"
  shows "n = card (fd_owners s c) \<and> h \<in> fd_owners s c \<and> finite (fd_owners s c) \<and> c < length (fd_cells s) \<and> fd_cells s ! c = (fd, n)"
proof -
  from assms(3) have c: "c < length (fd_cells s)" "fd_cells s ! c = (fd, n)" by (auto simp: vec_at_def split: if_splits)
  with assms(1) have "finite (fd_owners s c)" "snd (fd_cells s ! c) = card (fd_owners s c)" by (auto simp: fd_inv_def)
  with c assms(2) show ?thesis by (simp add: fd_owners_def)
qed

lemma fd_inv_copy:
  assumes "fd_inv s" and "FDHandler_copy h h' s = Some s'"
  shows "fd_inv s'"
proof -
  from assms(2) obtain c fd n where c: "handlers s h = Some c" "vec_at (fd_cells s) c = Some (fd, n)" "handlers s h' = None"
    "s' = s\<lparr>fd_cells := (fd_cells s)[c := (fd, n + 1)], handlers := (handlers s)(h' \<mapsto> c)\<rparr>"
    by (auto simp: FDHandler_copy_def split: bind_splits if_splits)
  have own: "fd_owners s' d = (if d = c then insert h' (fd_owners s d) else fd_owners s d)" for d
    using c(3,4) by (auto simp: fd_owners_def)
  have "h' \<notin> fd_owners s c" using c by (auto simp: fd_owners_def)
  with assms(1) c own fd_inv_count [OF assms(1) c(1,2)] show ?thesis
    by (auto simp: fd_inv_def nth_list_update split: if_splits)
qed

lemma fd_inv_drop:
  assumes "fd_inv s" and "FDHandler_drop h s = Some s'"
  shows "fd_inv s'"
proof -
  from assms(2) obtain c fd n where c: "handlers s h = Some c" "vec_at (fd_cells s) c = Some (fd, n)"
    "s' = s\<lparr>fd_cells := (fd_cells s)[c := (fd, n - 1)], handlers := (handlers s)(h := None),
            closed := closed s @ (if n = 1 then [c] else [])\<rparr>"
    by (auto simp: FDHandler_drop_def split: bind_splits if_splits)
  have own: "fd_owners s' d = (if d = c then fd_owners s d - {h} else fd_owners s d)" for d
    using c by (auto simp: fd_owners_def)
  have n: "n = card (fd_owners s c)" "h \<in> fd_owners s c" "finite (fd_owners s c)" "c < length (fd_cells s)"
    using fd_inv_count [OF assms(1) c(1,2)] by simp_all
  have last: "n = 1 \<longleftrightarrow> fd_owners s c - {h} = {}"
  proof -
    have "0 < n" using n by (auto simp: card_gt_0_iff)
    moreover have "card (fd_owners s c - {h}) = n - 1" using n by (simp add: card_Diff_singleton)
    moreover have "card (fd_owners s c - {h}) = 0 \<longleftrightarrow> fd_owners s c - {h} = {}" using n(3) by (simp only: card_0_eq finite_Diff)
    ultimately show ?thesis by linarith
  qed
  have "c \<notin> set (closed s)" using assms(1) n(2) by (auto simp: fd_inv_def)
  then show ?thesis
    using assms(1) c own n last
    by (auto simp: fd_inv_def nth_list_update split: if_splits)
qed

lemma fd_inv_step: "fd_inv s \<Longrightarrow> fd_step e s = Some s' \<Longrightarrow> fd_inv s'"
  by (cases e) (auto intro: fd_inv_new fd_inv_copy fd_inv_drop)

lemma fd_inv_run: "fd_inv s \<Longrightarrow> fd_run es s = Some s' \<Longrightarrow> fd_inv s'"
  by (induction es arbitrary: s) (auto intro: fd_inv_step split: bind_splits)

lemma fd_inv_empty: "fd_inv fd_heap_new"
  by (simp add: fd_inv_def fd_heap_new_def)

section \<open>Properties\<close>



end
