(* ===== verification/Socket_Address.thy ===== *)
theory Socket_Address
  imports Prelude
begin

text \<open>
  \<open>net::SocketAddress\<close> (\<open>srcs/net/address/socket_address.h\<close>, \<open>socket_address.cc\<close>): an IPv4 or IPv6 address
  and a port, as the union of the two structures of the C library.

  The union is its 28 bytes on a little-endian machine: the family in bytes 0 and 1, the port
  in 2 and 3, the IPv4 address in 4 to 7, the IPv6 address in 8 to 23. A default
  constructor leaves them unspecified, so the constructors are given the bytes that were there.
  \<open>inet_ntop\<close> of the C library is a parameter.
\<close>

section \<open>Bytes\<close>

type_synonym sockaddr = string

definition AF_INET :: nat where [cpp_consts]: "AF_INET = 2"
definition AF_INET6 :: nat where [cpp_consts]: "AF_INET6 = 10"

definition INADDR_ANY :: nat where "INADDR_ANY = 0"
definition INADDR_LOOPBACK :: nat where "INADDR_LOOPBACK = 2130706433"

definition in6addr_any :: string where "in6addr_any = replicate 16 NUL"
definition in6addr_loopback :: string where "in6addr_loopback = replicate 15 NUL @ [char_of (1 :: nat)]"

definition store16 :: "nat \<Rightarrow> string" where
  "store16 n = [char_of n, char_of (n div 256)]"

definition store32 :: "nat \<Rightarrow> string" where
  "store32 n = [char_of n, char_of (n div 256), char_of (n div 65536), char_of (n div 16777216)]"

definition load16 :: "string \<Rightarrow> nat" where
  "load16 bs = of_char (bs ! 0) + 256 * of_char (bs ! 1)"

definition htons :: "nat \<Rightarrow> nat" where
  "htons n = n mod 256 * 256 + n div 256 mod 256"

definition htonl :: "nat \<Rightarrow> nat" where
  "htonl n = n mod 256 * 16777216 + n div 256 mod 256 * 65536 + n div 65536 mod 256 * 256 + n div 16777216 mod 256"

section \<open>Operations\<close>

definition g_buf_size :: nat where
  [cpp_consts]: "g_buf_size = 64"

definition SocketAddress_new :: "sockaddr \<Rightarrow> nat \<Rightarrow> bool \<Rightarrow> bool \<Rightarrow> sockaddr option" where
  "SocketAddress_new a port loopbackOnly ipv6 =
     (if ipv6 then do {
        a \<leftarrow> mem_write 0 (replicate 28 NUL) a;
        a \<leftarrow> mem_write 0 (store16 AF_INET6) a;
        a \<leftarrow> mem_write 8 (if loopbackOnly then in6addr_loopback else in6addr_any) a;
        mem_write 2 (store16 (htons port)) a
      }
      else do {
        a \<leftarrow> mem_write 0 (replicate 16 NUL) a;
        a \<leftarrow> mem_write 0 (store16 AF_INET) a;
        a \<leftarrow> mem_write 4 (store32 (htonl (if loopbackOnly then INADDR_LOOPBACK else INADDR_ANY))) a;
        mem_write 2 (store16 (htons port)) a
      })"

definition set_sockaddr_in6 :: "sockaddr \<Rightarrow> sockaddr \<Rightarrow> sockaddr" where
  "set_sockaddr_in6 addr6 a = addr6"

text \<open>For another family the buffer stays as it is, uninitialised: reading it is undefined.\<close>

definition writeIPToBuffer :: "(nat \<Rightarrow> string \<Rightarrow> string) \<Rightarrow> sockaddr \<Rightarrow> string option" where
  "writeIPToBuffer inet_ntop a =
     do {
       fam \<leftarrow> map_option load16 (mem_read 0 2 a);
       if fam = AF_INET6 then map_option (inet_ntop AF_INET6) (mem_read 8 24 a)
       else if fam = AF_INET then map_option (inet_ntop AF_INET) (mem_read 4 8 a)
       else None
     }"

definition toIP :: "(nat \<Rightarrow> string \<Rightarrow> string) \<Rightarrow> sockaddr \<Rightarrow> string option" where
  "toIP inet_ntop a = do { buf \<leftarrow> writeIPToBuffer inet_ntop a; Some (c_str buf) }"

definition toPort :: "sockaddr \<Rightarrow> nat option" where
  "toPort a = map_option (\<lambda>bs. htons (load16 bs)) (mem_read 2 4 a)"

definition toIPPort :: "(nat \<Rightarrow> string \<Rightarrow> string) \<Rightarrow> sockaddr \<Rightarrow> string option" where
  "toIPPort inet_ntop a =
     do {
       buf \<leftarrow> writeIPToBuffer inet_ntop a;
       let end = length (c_str buf);
       port \<leftarrow> toPort a;
       Some (c_str (take end buf @ snprintf (g_buf_size - end) ('':'' @ decimal port)))
     }"

section \<open>Byte order\<close>

lemma of_char_nat [simp]: "(of_char (char_of n) :: nat) = n mod 256"
  by (simp add: of_char_of take_bit_eq_mod)

lemma div_256: "n < 65536 \<Longrightarrow> n div 256 < (256 :: nat)"
  by (simp add: less_mult_imp_div_less)

lemma load16_store16: "n < 65536 \<Longrightarrow> load16 (store16 n) = n"
  using div_256 [of n] by (simp add: load16_def store16_def)

lemma htons_less: "htons n < 65536"
  using mod_less_divisor [of 256 n] mod_less_divisor [of 256 "n div 256"] unfolding htons_def by linarith

lemma htons_htons: "n < 65536 \<Longrightarrow> htons (htons n) = n"
  using div_256 [of n] by (simp add: htons_def)

lemma char_of_cong: "m mod 256 = n mod 256 \<Longrightarrow> (char_of m :: char) = char_of n" for m n :: nat
  by (simp add: char_of_eq_iff take_bit_eq_mod)

lemma char_of_zero [simp]: "char_of (0 :: nat) = NUL"
  by (simp add: char_of_eq_iff)

lemma htonl_any: "store32 (htonl INADDR_ANY) = replicate 4 NUL"
  by (simp add: store32_def htonl_def INADDR_ANY_def, simp add: numeral_eq_Suc)

lemma htonl_loopback: "store32 (htonl INADDR_LOOPBACK) = map char_of [127, 0, 0, 1 :: nat]"
  by (simp add: store32_def htonl_def INADDR_LOOPBACK_def char_of_cong [of 16777343 127] char_of_cong [of 65536 0]
      char_of_cong [of 256 0])

lemma length_stores [simp]: "length (store16 n) = 2" "length (store32 n) = 4"
  "length in6addr_any = 16" "length in6addr_loopback = 16"
  by (simp_all add: store16_def store32_def in6addr_any_def in6addr_loopback_def)

section \<open>Properties\<close>

definition ip_bytes :: "bool \<Rightarrow> bool \<Rightarrow> string" where
  "ip_bytes loopbackOnly ipv6 =
     (if ipv6 then replicate 15 NUL @ [char_of (of_bool loopbackOnly :: nat)]
      else if loopbackOnly then map char_of [127, 0, 0, 1 :: nat] else replicate 4 NUL)"

lemma new_v4:
  assumes "length a = 28"
  shows "SocketAddress_new a port lo False =
    Some (store16 AF_INET @ store16 (htons port) @ ip_bytes lo False @ replicate 8 NUL @ drop 16 a)"
proof -
  have "store32 (htonl (if lo then INADDR_LOOPBACK else INADDR_ANY)) = ip_bytes lo False"
    by (simp add: ip_bytes_def htonl_any htonl_loopback)
  with assms show ?thesis
    by (simp add: SocketAddress_new_def mem_write_def ip_bytes_def)
qed

lemma new_v6:
  assumes "length a = 28"
  shows "SocketAddress_new a port lo True =
    Some (store16 AF_INET6 @ store16 (htons port) @ replicate 4 NUL @ ip_bytes lo True @ replicate 4 NUL)"
proof -
  have "(if lo then in6addr_loopback else in6addr_any) = ip_bytes lo True"
    by (simp add: ip_bytes_def in6addr_any_def in6addr_loopback_def replicate_append_same numeral_eq_Suc)
  with assms show ?thesis
    by (simp add: SocketAddress_new_def mem_write_def ip_bytes_def)
qed

text \<open>Documented of \<open>inet_ntop\<close>: a text of at most 45 characters (\<open>INET6_ADDRSTRLEN\<close> with the zero byte).\<close>

definition ntop_contract :: "(nat \<Rightarrow> string \<Rightarrow> string) \<Rightarrow> bool" where
  "ntop_contract ntop \<longleftrightarrow> (\<forall>fam bs. NUL \<notin> set (ntop fam bs) \<and> length (ntop fam bs) \<le> 45)"

lemma ip_bytes_length: "length (ip_bytes lo v6) = (if v6 then 16 else 4)"
  by (simp add: ip_bytes_def)

lemma new_ip:
  assumes "length a = 28" and "SocketAddress_new a port lo v6 = Some b"
  shows "writeIPToBuffer ntop b = Some (ntop (if v6 then AF_INET6 else AF_INET) (ip_bytes lo v6))"
proof (cases v6)
  case True
  have f: "load16 (store16 AF_INET6) = AF_INET6" by (rule load16_store16) (simp add: AF_INET6_def)
  from True assms have b: "b = store16 AF_INET6 @ store16 (htons port) @ replicate 4 NUL @ ip_bytes lo True @ replicate 4 NUL"
    by (simp add: new_v6)
  have "mem_read 0 2 b = Some (store16 AF_INET6)" "mem_read 8 24 b = Some (ip_bytes lo True)"
    by (simp_all add: b mem_read_def ip_bytes_length)
  with True f show ?thesis by (simp add: writeIPToBuffer_def)
next
  case False
  have f: "load16 (store16 AF_INET) = AF_INET" by (rule load16_store16) (simp add: AF_INET_def)
  have n: "AF_INET \<noteq> AF_INET6" by (simp add: AF_INET_def AF_INET6_def)
  from False assms have b: "b = store16 AF_INET @ store16 (htons port) @ ip_bytes lo False @ replicate 8 NUL @ drop 16 a"
    by (simp add: new_v4)
  have "mem_read 0 2 b = Some (store16 AF_INET)" "mem_read 4 8 b = Some (ip_bytes lo False)"
    by (simp_all add: b mem_read_def ip_bytes_length)
  with False f n show ?thesis by (simp add: writeIPToBuffer_def)
qed

lemma new_port:
  assumes "length a = 28" and "SocketAddress_new a port lo v6 = Some b" and "port < 65536"
  shows "toPort b = Some port"
proof -
  have "mem_read 2 4 b = Some (store16 (htons port))"
    using assms(1,2) by (cases v6) (auto simp: new_v4 new_v6 mem_read_def ip_bytes_length)
  with assms(3) show ?thesis by (simp add: toPort_def load16_store16 htons_less htons_htons)
qed

lemma toIPPort_text:
  assumes "ntop_contract ntop" and "writeIPToBuffer ntop b = Some (ntop fam bs)" and "toPort b = Some port" and "port < 65536"
  shows "toIPPort ntop b = Some (ntop fam bs @ '':'' @ decimal port)"
proof -
  let ?ip = "ntop fam bs"
  have ip: "NUL \<notin> set ?ip" "length ?ip \<le> 45" using assms(1) by (simp_all add: ntop_contract_def)
  have "length (decimal port) \<le> 5" using assms(4) by (intro decimal_length) simp_all
  then have "snprintf (64 - length ?ip) ('':'' @ decimal port) = '':'' @ decimal port"
    using ip(2) by (simp add: snprintf_def)
  moreover have "c_str (?ip @ '':'' @ decimal port) = ?ip @ '':'' @ decimal port"
    using ip(1) decimal_no_NUL by (intro c_str_id) auto
  ultimately show ?thesis
    using assms(2,3) ip(1) by (simp add: toIPPort_def g_buf_size_def Let_def)
qed

text \<open>
  An address is printed as it was constructed: for both families, whatever was in memory
  before, the port comes back in host order and the text is the address, a colon and the port,
  never cut by the buffer of 64 bytes.
\<close>

theorem address_printed:
  assumes "ntop_contract ntop" and "length a = 28" and "port < 65536"
  shows "\<exists>b. SocketAddress_new a port lo v6 = Some b \<and> toPort b = Some port \<and>
    toIPPort ntop b = Some (ntop (if v6 then AF_INET6 else AF_INET) (ip_bytes lo v6) @ '':'' @ decimal port)"
proof -
  obtain b where b: "SocketAddress_new a port lo v6 = Some b"
    using assms(2) by (cases v6) (simp_all add: new_v4 new_v6)
  from toIPPort_text [OF assms(1) new_ip [OF assms(2) b] new_port [OF assms(2) b assms(3)] assms(3)]
  show ?thesis using b new_port [OF assms(2) b assms(3)] by simp
qed

theorem address_printed_witness:
  "\<exists>b. SocketAddress_new (replicate 28 (CHR ''x'')) 8080 True False = Some b \<and> toPort b = Some 8080 \<and>
     toIPPort (\<lambda>fam bs. if fam = AF_INET then ''127.0.0.1'' else ''::1'') b = Some (''127.0.0.1:'' @ decimal 8080)"
  using address_printed [of "\<lambda>fam bs. if fam = AF_INET then ''127.0.0.1'' else ''::1''" "replicate 28 (CHR ''x'')" 8080 True False]
  by (simp add: ntop_contract_def)

text \<open>The default constructor leaves the family unspecified, and an unknown family is undefined to print.\<close>

lemma unknown_family_undefined: "toIPPort ntop (replicate 28 NUL) = None"
  by (simp add: toIPPort_def writeIPToBuffer_def mem_read_def load16_def AF_INET_def AF_INET6_def)

end
