(* ===== verification/Tcp_Server.thy ===== *)
theory Tcp_Server
  imports Thread_Pool Fd_Handler Socket_Address
begin

text \<open>
  \<open>net::TCPServer\<close> and \<open>net::Acceptor\<close> (\<open>srcs/net/server/tcp_server.h\<close>, \<open>tcp_server.cc\<close>, \<open>acceptor.h\<close>, \<open>acceptor.cc\<close>):
  accepting connections, naming them, handing them to the loops of the pool, and the table of
  the connections that are open.

  Connection objects are the elements of \<open>srv_conns\<close>, in the order of their creation, and a
  \<open>TCPConnectionPtr\<close> is a position there; their behaviour is the theory of connections. The
  closures handed to loops are recorded in \<open>io_tasks\<close> (a loop and the connection to create there) and
  \<open>main_tasks\<close> (the names to erase, queued in the server's own loop). The result of \<open>accept4\<close>
  is a parameter: a descriptor and the address of the peer. The two callbacks the server passes on to its connections
  are opaque values, 0 for the default ones; what callbacks may do is the subject of the theory of connections.
\<close>

section \<open>The acceptor\<close>

datatype acceptor_call = CallReuseAddress int | CallBind | CallListen | CallAdd events

record acceptor =
  acc_channel :: channel
  acc_calls :: "acceptor_call list"
  acc_readCallback :: bool

text \<open>
  \<open>setReuseAddress\<close> passes a local variable it has not initialised: the value is whatever was in that
  memory, a parameter here.
\<close>

definition setReuseAddress :: "int \<Rightarrow> acceptor \<Rightarrow> acceptor" where
  "setReuseAddress optval a = a\<lparr>acc_calls := acc_calls a @ [CallReuseAddress optval]\<rparr>"

definition Acceptor_new :: "int \<Rightarrow> int \<Rightarrow> acceptor" where
  "Acceptor_new sockfd optval = setReuseAddress optval \<lparr>acc_channel = Channel_new sockfd, acc_calls = [], acc_readCallback = False\<rparr>"

text \<open>The callback the server gives to the channel of its socket is \<open>acceptorReadCallback\<close>; the field says that it is set.\<close>

definition Acceptor_setReadCallback :: "acceptor \<Rightarrow> acceptor" where
  "Acceptor_setReadCallback a = a\<lparr>acc_readCallback := True\<rparr>"

text \<open>\<open>listen\<close> binds, listens, and registers the channel in the loop (run there).\<close>

definition acceptor_listen :: "acceptor \<Rightarrow> acceptor" where
  "acceptor_listen a =
     (let ch = enableReading (acc_channel a) in
      a\<lparr>acc_calls := acc_calls a @ [CallBind, CallListen, CallAdd (events_type ch)], acc_channel := ch\<rparr>)"

text \<open>\<open>accept\<close>: the peer's address is stored only when the call succeeds.\<close>

definition acceptor_accept :: "int \<times> sockaddr \<Rightarrow> sockaddr \<Rightarrow> int \<times> sockaddr" where
  "acceptor_accept res peer_addr =
     (let (fd, sa) = res in if fd < 0 then (fd, peer_addr) else (fd, set_sockaddr_in6 sa peer_addr))"

section \<open>The server\<close>

record conn_info =
  ci_loop :: nat
  ci_fd :: int
  ci_name :: string
  ci_create :: bool
  ci_close :: bool
  ci_read :: bool

text \<open>
  A connection starts without callbacks. The three it gets call the server that made it: the fields say which are set, and a call of one that is
  not would raise \<open>bad_function_call\<close>.
\<close>

definition conn_info_new :: "nat \<Rightarrow> int \<Rightarrow> string \<Rightarrow> conn_info" where
  "conn_info_new io_loop fd name =
     \<lparr>ci_loop = io_loop, ci_fd = fd, ci_name = name, ci_create = False, ci_close = False, ci_read = False\<rparr>"

definition conn_setCreateCallback :: "conn_info \<Rightarrow> conn_info" where
  "conn_setCreateCallback ci = ci\<lparr>ci_create := True\<rparr>"

definition conn_setCloseCallback :: "conn_info \<Rightarrow> conn_info" where
  "conn_setCloseCallback ci = ci\<lparr>ci_close := True\<rparr>"

definition conn_setReadCallback :: "conn_info \<Rightarrow> conn_info" where
  "conn_setReadCallback ci = ci\<lparr>ci_read := True\<rparr>"

record 'k tcp_server =
  io_thread_pool :: "'k thread_pool"
  server_acceptor :: acceptor
  server_name :: string
  createCallback :: nat
  srv_readCallback :: nat
  connections :: "string \<rightharpoonup> nat"
  next_conn_id :: int
  srv_conns :: "conn_info list"
  io_tasks :: "(nat \<times> nat) list"
  main_tasks :: "string list"

definition TCPServer_new :: "'k thread_pool \<Rightarrow> int \<Rightarrow> int \<Rightarrow> string \<Rightarrow> 'k tcp_server" where
  "TCPServer_new pool sockfd optval name =
     \<lparr>io_thread_pool = pool, server_acceptor = Acceptor_setReadCallback (Acceptor_new sockfd optval), server_name = name,
      createCallback = 0, srv_readCallback = 0, connections = Map.empty,
      next_conn_id = 0, srv_conns = [], io_tasks = [], main_tasks = []\<rparr>"

definition server_start :: "'k tcp_server \<Rightarrow> 'k tcp_server" where
  "server_start srv = srv\<lparr>server_acceptor := acceptor_listen (server_acceptor srv)\<rparr>"

definition setConnectionCreateCallback :: "nat \<Rightarrow> 'k tcp_server \<Rightarrow> 'k tcp_server" where
  "setConnectionCreateCallback cb srv = srv\<lparr>createCallback := cb\<rparr>"

definition setConnectionReadCallback :: "nat \<Rightarrow> 'k tcp_server \<Rightarrow> 'k tcp_server" where
  "setConnectionReadCallback cb srv = srv\<lparr>srv_readCallback := cb\<rparr>"

text \<open>The name of a connection, in a buffer of 64 bytes.\<close>

definition conn_name_text :: "string \<Rightarrow> string \<Rightarrow> int \<Rightarrow> string" where
  "conn_name_text peer name i = c_str (snprintf 64 (c_str peer @ ''->'' @ c_str name @ ''-#'' @ decimal_int i))"

definition acceptorReadCallback ::
  "(nat \<Rightarrow> string \<Rightarrow> string) \<Rightarrow> sockaddr \<Rightarrow> int \<times> sockaddr \<Rightarrow> 'k tcp_server \<Rightarrow> 'k tcp_server option" where
  "acceptorReadCallback inet_ntop peer_mem res srv =
     (let (fd, peer_addr) = acceptor_accept res peer_mem in
      if fd < 0 then Some srv
      else do {
        (io_loop, pool) \<leftarrow> getNextLoop (io_thread_pool srv);
        peer \<leftarrow> toIPPort inet_ntop peer_addr;
        let name = conn_name_text peer (server_name srv) (next_conn_id srv);
        let conn = length (srv_conns srv);
        let ci = conn_info_new io_loop fd name;
        next_id \<leftarrow> i32 (next_conn_id srv + 1);
        let ci = conn_setReadCallback (conn_setCloseCallback (conn_setCreateCallback ci));
        Some (srv\<lparr>io_thread_pool := pool,
          srv_conns := srv_conns srv @ [ci],
          connections := (connections srv)(name \<mapsto> conn),
          next_conn_id := next_id,
          io_tasks := io_tasks srv @ [(io_loop, conn)]\<rparr>)
      })"

text \<open>
  The close callback runs in the loop of the connection, so that the erasure is queued in the
  server's own loop, and runs there later.
\<close>

definition connectionCloseCallback :: "nat \<Rightarrow> 'k tcp_server \<Rightarrow> 'k tcp_server option" where
  "connectionCloseCallback conn srv =
     do {
       ci \<leftarrow> vec_at (srv_conns srv) conn;
       Some (srv\<lparr>main_tasks := main_tasks srv @ [ci_name ci]\<rparr>)
     }"

definition run_erase :: "'k tcp_server \<Rightarrow> 'k tcp_server option" where
  "run_erase srv =
     (case main_tasks srv of
        [] \<Rightarrow> None
      | name # rest \<Rightarrow> Some (srv\<lparr>connections := (connections srv)(name := None), main_tasks := rest\<rparr>))"

section \<open>Names\<close>

lemma decimal_no_hash: "CHR ''#'' \<notin> set (decimal n)"
  using decimal_plain [of "CHR ''#''" n] by auto

lemma split_at_last:
  assumes "xs @ c # us = ys @ c # vs" and "c \<notin> set us" and "c \<notin> set vs"
  shows "us = vs"
proof -
  have "takeWhile (\<lambda>x. x \<noteq> c) (rev (zs @ c # ws)) = rev ws" if "c \<notin> set ws" for zs ws
    using takeWhile_append2 [of "rev ws" "\<lambda>x. x \<noteq> c" "c # rev zs"] that by auto
  from this [OF assms(2), of xs] this [OF assms(3), of ys] assms(1) show ?thesis by simp
qed

lemma conn_name_fits:
  assumes "NUL \<notin> set peer" "NUL \<notin> set name" and "length peer + length name \<le> 49" and "0 \<le> i" "i < 2 ^ 31"
  shows "conn_name_text peer name i = peer @ ''->'' @ name @ ''-#'' @ decimal (nat i)"
proof -
  have "length (decimal (nat i)) \<le> 10" using assms(4,5) by (intro decimal_length) auto
  with assms have l: "length (peer @ ''->'' @ name @ ''-#'' @ decimal (nat i)) < 64" by simp
  have n: "NUL \<notin> set (peer @ ''->'' @ name @ ''-#'' @ decimal (nat i))" using assms(1,2) decimal_no_NUL by simp
  show ?thesis
    unfolding conn_name_text_def using assms(1,2,4) snprintf_id [OF l] c_str_id [OF n] by (simp add: decimal_int_def)
qed

text \<open>Behind longer addresses the number is cut off, and connections of one peer get the same name.\<close>

lemma long_names_collide:
  assumes "NUL \<notin> set peer" "NUL \<notin> set name" and "59 \<le> length peer + length name"
  shows "conn_name_text peer name i = conn_name_text peer name j"
proof -
  have "take 63 ((peer @ ''->'' @ name @ ''-#'') @ ds) = take 63 (peer @ ''->'' @ name @ ''-#'')" for ds
    using assms(3) by (subst take_append) simp
  from this [of "decimal_int i"] this [of "decimal_int j"] show ?thesis
    using assms(1,2) by (simp add: conn_name_text_def snprintf_def del: take_append)
qed

lemma names_differ:
  assumes "xs @ ''-#'' @ decimal i = ys @ ''-#'' @ decimal j"
  shows "i = j"
proof -
  have "(xs @ ''-'') @ CHR ''#'' # decimal i = (ys @ ''-'') @ CHR ''#'' # decimal j" using assms by simp
  then have "decimal i = decimal j" by (rule split_at_last) (simp_all add: decimal_no_hash)
  then show ?thesis by (metis undecimal_decimal)
qed

section \<open>The table of connections\<close>

text \<open>
  The server under any sequence of accepted and refused connections, close callbacks,
  erasures, and calls of \<open>start\<close> and of the setters. A connection runs its close callback at most once (the invariant of
  connections). \<open>cls\<close> are the connections that ran it, in order, and \<open>k\<close> of the erasures
  have been done. Addresses are short enough for the buffer of the name, as those of IPv4 always are.
\<close>

inductive server_reach ::
  "(nat \<Rightarrow> string \<Rightarrow> string) \<Rightarrow> 'k tcp_server \<Rightarrow> nat list \<Rightarrow> nat \<Rightarrow> 'k tcp_server \<Rightarrow> bool"
  for ntop :: "nat \<Rightarrow> string \<Rightarrow> string" and srv0 :: "'k tcp_server" where
  srv_start: "server_reach ntop srv0 [] 0 srv0"
| srv_accept: "server_reach ntop srv0 cls k srv \<Longrightarrow> 0 \<le> fd \<Longrightarrow> toIPPort ntop sa = Some peer \<Longrightarrow>
    NUL \<notin> set peer \<Longrightarrow> length peer + length (server_name srv) \<le> 49 \<Longrightarrow>
    acceptorReadCallback ntop mem (fd, sa) srv = Some srv' \<Longrightarrow> server_reach ntop srv0 cls k srv'"
| srv_refuse: "server_reach ntop srv0 cls k srv \<Longrightarrow> fd < 0 \<Longrightarrow>
    acceptorReadCallback ntop mem (fd, sa) srv = Some srv' \<Longrightarrow> server_reach ntop srv0 cls k srv'"
| srv_close: "server_reach ntop srv0 cls k srv \<Longrightarrow> c \<notin> set cls \<Longrightarrow> connectionCloseCallback c srv = Some srv' \<Longrightarrow>
    server_reach ntop srv0 (cls @ [c]) k srv'"
| srv_callbacks: "server_reach ntop srv0 cls k srv \<Longrightarrow>
    server_reach ntop srv0 cls k (setConnectionReadCallback g (setConnectionCreateCallback f srv))"
| srv_listen: "server_reach ntop srv0 cls k srv \<Longrightarrow> server_reach ntop srv0 cls k (server_start srv)"
| srv_erase: "server_reach ntop srv0 cls k srv \<Longrightarrow> run_erase srv = Some srv' \<Longrightarrow> server_reach ntop srv0 cls (Suc k) srv'"

definition named_by_number :: "conn_info list \<Rightarrow> bool" where
  "named_by_number cs \<longleftrightarrow> (\<forall>i < length cs. \<exists>xs. ci_name (cs ! i) = xs @ ''-#'' @ decimal i)"

definition conn_wired :: "conn_info \<Rightarrow> bool" where
  "conn_wired ci \<longleftrightarrow> ci_create ci \<and> ci_close ci \<and> ci_read ci"

definition server_inv :: "nat \<Rightarrow> string \<Rightarrow> nat list \<Rightarrow> nat \<Rightarrow> 'k tcp_server \<Rightarrow> bool" where
  "server_inv n name cls k srv \<longleftrightarrow>
     named_by_number (srv_conns srv) \<and> server_name srv = name \<and>
     next_conn_id srv = int (length (srv_conns srv)) \<and> int (length (srv_conns srv)) < 2 ^ 31 \<and>
     length (threads (io_thread_pool srv)) = n \<and> next_thread_idx (io_thread_pool srv) = length (srv_conns srv) mod n \<and>
     io_tasks srv = map (\<lambda>i. (i mod n, i)) [0..<length (srv_conns srv)] \<and>
     (\<forall>i < length (srv_conns srv). ci_loop (srv_conns srv ! i) = i mod n) \<and>
     distinct cls \<and> (\<forall>c \<in> set cls. c < length (srv_conns srv)) \<and> k \<le> length cls \<and>
     main_tasks srv = map (\<lambda>c. ci_name (srv_conns srv ! c)) (drop k cls) \<and>
     (\<forall>nm c. connections srv nm = Some c \<longleftrightarrow>
        c < length (srv_conns srv) \<and> ci_name (srv_conns srv ! c) = nm \<and> c \<notin> set (take k cls)) \<and>
     list_all conn_wired (srv_conns srv) \<and> acc_readCallback (server_acceptor srv)"

lemma named_by_number_inj:
  "named_by_number cs \<Longrightarrow> i < length cs \<Longrightarrow> j < length cs \<Longrightarrow> ci_name (cs ! i) = ci_name (cs ! j) \<Longrightarrow> i = j"
  unfolding named_by_number_def by (metis names_differ)

lemma named_by_number_snoc:
  assumes "named_by_number cs" and "ci_name ci = xs @ ''-#'' @ decimal (length cs)"
  shows "named_by_number (cs @ [ci])"
  using assms by (auto simp: named_by_number_def nth_append less_Suc_eq)

lemma named_by_number_new:
  fixes ci :: conn_info
  assumes "named_by_number cs" and "ci_name ci = xs @ ''-#'' @ decimal (length cs)" and "c < length cs"
  shows "ci_name (cs ! c) \<noteq> ci_name ci"
proof
  assume eq: "ci_name (cs ! c) = ci_name ci"
  have "named_by_number (cs @ [ci])" using assms(1,2) by (rule named_by_number_snoc)
  from named_by_number_inj [OF this, of c "length cs"] eq assms(3) show False by (simp add: nth_append)
qed

lemma accept_result:
  assumes "0 \<le> fd" and "toIPPort ntop sa = Some peer"
  shows "acceptorReadCallback ntop mem (fd, sa) srv = Some srv' \<longleftrightarrow>
    next_thread_idx (io_thread_pool srv) < length (threads (io_thread_pool srv)) \<and>
    i32 (next_conn_id srv + 1) = Some (next_conn_id srv + 1) \<and>
    srv' = srv\<lparr>io_thread_pool := (io_thread_pool srv)\<lparr>next_thread_idx :=
          (next_thread_idx (io_thread_pool srv) + 1) mod length (threads (io_thread_pool srv))\<rparr>,
        srv_conns := srv_conns srv @ [\<lparr>ci_loop = next_thread_idx (io_thread_pool srv), ci_fd = fd,
          ci_name = conn_name_text peer (server_name srv) (next_conn_id srv), ci_create = True, ci_close = True, ci_read = True\<rparr>],
        connections := (connections srv)(conn_name_text peer (server_name srv) (next_conn_id srv) \<mapsto> length (srv_conns srv)),
        next_conn_id := next_conn_id srv + 1,
        io_tasks := io_tasks srv @ [(next_thread_idx (io_thread_pool srv), length (srv_conns srv))]\<rparr>"
  using assms
  by (auto simp: acceptorReadCallback_def acceptor_accept_def set_sockaddr_in6_def getNextLoop_def getNextThread_def
      conn_info_new_def conn_setCreateCallback_def conn_setCloseCallback_def conn_setReadCallback_def
      i32_def Let_def split: if_splits)

lemma server_inv_accept:
  assumes "server_inv n name cls k srv" and "0 \<le> fd" and "toIPPort ntop sa = Some peer" and "NUL \<notin> set peer"
    and "NUL \<notin> set name" and "length peer + length name \<le> 49" and "acceptorReadCallback ntop mem (fd, sa) srv = Some srv'"
  shows "server_inv n name cls k srv'"
proof -
  let ?cs = "srv_conns srv" and ?m = "length (srv_conns srv)"
  have inv: "named_by_number ?cs" "server_name srv = name" "next_conn_id srv = int ?m" "int ?m < 2 ^ 31"
    "length (threads (io_thread_pool srv)) = n" "next_thread_idx (io_thread_pool srv) = ?m mod n"
    "io_tasks srv = map (\<lambda>i. (i mod n, i)) [0..<?m]" "\<forall>i < ?m. ci_loop (?cs ! i) = i mod n"
    "distinct cls" "\<forall>c \<in> set cls. c < ?m" "k \<le> length cls" "main_tasks srv = map (\<lambda>c. ci_name (?cs ! c)) (drop k cls)"
    "\<And>nm c. connections srv nm = Some c \<longleftrightarrow> c < ?m \<and> ci_name (?cs ! c) = nm \<and> c \<notin> set (take k cls)"
    "list_all conn_wired ?cs" "acc_readCallback (server_acceptor srv)"
    using assms(1) unfolding server_inv_def by auto
  define nm where "nm = conn_name_text peer name (int ?m)"
  define ci where "ci = \<lparr>ci_loop = ?m mod n, ci_fd = fd, ci_name = nm, ci_create = True, ci_close = True, ci_read = True\<rparr>"
  from accept_result [OF assms(2,3), of mem srv srv'] assms(7) inv(2,3,5,6)
  have srv': "srv' = srv\<lparr>io_thread_pool := (io_thread_pool srv)\<lparr>next_thread_idx := (?m mod n + 1) mod n\<rparr>,
      srv_conns := ?cs @ [ci], connections := (connections srv)(nm \<mapsto> ?m), next_conn_id := int ?m + 1,
      io_tasks := io_tasks srv @ [(?m mod n, ?m)]\<rparr>"
    and small: "i32 (int ?m + 1) = Some (int ?m + 1)"
    by (auto simp: nm_def ci_def)
  have nm: "ci_name ci = (peer @ ''->'' @ name) @ ''-#'' @ decimal ?m"
    using conn_name_fits [OF assms(4-6), of "int ?m"] inv(4) by (simp add: ci_def nm_def)
  have new: "ci_name (?cs ! c) \<noteq> nm" if "c < ?m" for c
    using named_by_number_new [OF inv(1) nm that] by (simp add: ci_def)
  have old: "\<And>c. c \<in> set cls \<Longrightarrow> c < ?m" "\<And>c. c \<in> set (drop k cls) \<Longrightarrow> c < ?m" "\<And>c. c \<in> set (take k cls) \<Longrightarrow> c < ?m"
    using inv(10) in_set_dropD in_set_takeD by fast+
  have table: "((connections srv)(nm \<mapsto> ?m)) x = Some c \<longleftrightarrow>
      c < Suc ?m \<and> ci_name ((?cs @ [ci]) ! c) = x \<and> c \<notin> set (take k cls)" for x c
    using new old(3) [of ?m] inv(13) [of x c] by (cases "c = ?m") (auto simp: nth_append less_Suc_eq ci_def)
  have "int ?m + 1 < 2 ^ 31" using small by (auto simp: i32_def split: if_splits)
  moreover have "named_by_number (?cs @ [ci])" by (rule named_by_number_snoc [OF inv(1) nm])
  moreover have "map (\<lambda>c. ci_name (?cs ! c)) (drop k cls) = map (\<lambda>c. ci_name ((?cs @ [ci]) ! c)) (drop k cls)"
    using old(2) by (simp add: nth_append)
  ultimately show ?thesis
    unfolding server_inv_def srv' using inv old table by (auto simp: nth_append less_Suc_eq ci_def mod_Suc_eq conn_wired_def)
qed

lemma server_inv_close:
  assumes "server_inv n name cls k srv" and "c \<notin> set cls" and "connectionCloseCallback c srv = Some srv'"
  shows "server_inv n name (cls @ [c]) k srv'"
proof -
  have "c < length (srv_conns srv)" "srv' = srv\<lparr>main_tasks := main_tasks srv @ [ci_name (srv_conns srv ! c)]\<rparr>"
    using assms(3) by (auto simp: connectionCloseCallback_def vec_at_def split: if_splits)
  with assms(1,2) show ?thesis unfolding server_inv_def by auto
qed

lemma server_inv_erase:
  assumes "server_inv n name cls k srv" and "run_erase srv = Some srv'"
  shows "server_inv n name cls (Suc k) srv'"
proof -
  from assms(1) have tasks: "main_tasks srv = map (\<lambda>c. ci_name (srv_conns srv ! c)) (drop k cls)"
    by (simp add: server_inv_def)
  with assms(2) have k: "k < length cls" by (cases "k < length cls") (auto simp: run_erase_def)
  then have d: "drop k cls = cls ! k # drop (Suc k) cls" by (simp add: Cons_nth_drop_Suc)
  let ?nm = "ci_name (srv_conns srv ! (cls ! k))"
  have srv': "srv' = srv\<lparr>connections := (connections srv)(?nm := None),
      main_tasks := map (\<lambda>c. ci_name (srv_conns srv ! c)) (drop (Suc k) cls)\<rparr>"
    using assms(2) tasks d by (simp add: run_erase_def)
  have inv: "named_by_number (srv_conns srv)"
    "\<And>nm c. connections srv nm = Some c \<longleftrightarrow>
      c < length (srv_conns srv) \<and> ci_name (srv_conns srv ! c) = nm \<and> c \<notin> set (take k cls)"
    using assms(1) unfolding server_inv_def by blast+
  have lt: "cls ! k < length (srv_conns srv)" using assms(1) k by (simp add: server_inv_def)
  have take: "set (take (Suc k) cls) = insert (cls ! k) (set (take k cls))" using k by (simp add: take_Suc_conv_app_nth)
  have table: "((connections srv)(?nm := None)) x = Some c \<longleftrightarrow>
      c < length (srv_conns srv) \<and> ci_name (srv_conns srv ! c) = x \<and> c \<notin> set (take (Suc k) cls)" for x c
    using inv(2) [of x c] named_by_number_inj [OF inv(1) _ lt, of c] take by auto
  show ?thesis
    using assms(1) k table unfolding server_inv_def srv' by simp
qed

lemma server_reach_inv:
  assumes "server_reach ntop (TCPServer_new (EventLoopThreadPool_new tid fds own n) sock optval name) cls k srv" and "NUL \<notin> set name"
    and "0 < n"
  shows "server_inv n name cls k srv"
  using assms(1)
proof (induction rule: server_reach.induct)
  case srv_start
  then show ?case using assms(3) by (simp add: server_inv_def TCPServer_new_def named_by_number_def Acceptor_setReadCallback_def)
next
  case (srv_accept cls k srv fd sa peer mem srv')
  have "server_name srv = name" using srv_accept.IH by (simp add: server_inv_def)
  with srv_accept.hyps(5) have "length peer + length name \<le> 49" by simp
  then show ?case by (rule server_inv_accept [OF srv_accept.IH srv_accept.hyps(2,3,4) assms(2) _ srv_accept.hyps(6)])
next
  case (srv_refuse cls k srv fd mem sa srv')
  then show ?case by (simp add: acceptorReadCallback_def acceptor_accept_def)
next
  case (srv_close cls k srv c srv')
  then show ?case by (intro server_inv_close)
next
  case (srv_callbacks cls k srv g f)
  then show ?case by (simp add: server_inv_def setConnectionReadCallback_def setConnectionCreateCallback_def)
next
  case (srv_listen cls k srv)
  then show ?case by (simp add: server_inv_def server_start_def acceptor_listen_def Let_def)
next
  case (srv_erase cls k srv srv')
  then show ?case by (intro server_inv_erase)
qed

section \<open>Properties\<close>

text \<open>
  C24: the table of the server holds exactly the open connections. Under any sequence of accepts,
  refusals, close callbacks and erasures, a name leads to a connection if and only if that
  connection has the name and has not been erased; no two connections ever get the same name;
  the connections go to the loops of the pool in turn, each handed to its loop once and with its three callbacks set; and
  as long as the counter of connections does not overflow, the next one can be accepted.
\<close>

theorem connection_table:
  assumes "server_reach ntop (TCPServer_new (EventLoopThreadPool_new tid fds own n) sock optval name) cls k srv" and "NUL \<notin> set name"
    and "0 < n"
  shows "(\<forall>nm c. connections srv nm = Some c \<longleftrightarrow>
      c < length (srv_conns srv) \<and> ci_name (srv_conns srv ! c) = nm \<and> c \<notin> set (take k cls)) \<and>
    distinct (map ci_name (srv_conns srv)) \<and>
    (\<forall>i < length (srv_conns srv). ci_loop (srv_conns srv ! i) = i mod n) \<and> list_all conn_wired (srv_conns srv) \<and>
    io_tasks srv = map (\<lambda>i. (i mod n, i)) [0..<length (srv_conns srv)] \<and>
    (0 \<le> fd \<longrightarrow> toIPPort ntop sa = Some peer \<longrightarrow> int (length (srv_conns srv)) < 2 ^ 31 - 1 \<longrightarrow>
      (\<exists>srv'. acceptorReadCallback ntop mem (fd, sa) srv = Some srv'))"
proof -
  have inv: "server_inv n name cls k srv" using assms by (rule server_reach_inv)
  have "distinct (map ci_name (srv_conns srv))"
    using inv named_by_number_inj [of "srv_conns srv"] by (auto simp: server_inv_def distinct_conv_nth)
  moreover have "\<exists>srv'. acceptorReadCallback ntop mem (fd, sa) srv = Some srv'"
    if "0 \<le> fd" "toIPPort ntop sa = Some peer" "int (length (srv_conns srv)) < 2 ^ 31 - 1"
    using inv that(3) assms(3) accept_result [OF that(1,2), of mem srv] by (simp add: server_inv_def i32_def)
  ultimately show ?thesis using inv unfolding server_inv_def by blast
qed

definition wit_ntop :: "nat \<Rightarrow> string \<Rightarrow> string" where
  "wit_ntop fam bs = ''1.2.3.4''"

definition wit_peer :: sockaddr where
  "wit_peer = store16 AF_INET @ replicate 26 NUL"

definition wit_server0 :: "unit tcp_server" where
  "wit_server0 = TCPServer_new (EventLoopThreadPool_new 0 int Suc 2) 3 1 ''10.0.0.1:80''"

lemma wit_peer_text: "toIPPort wit_ntop wit_peer = Some ''1.2.3.4:0''"
proof -
  have "toIPPort wit_ntop wit_peer = Some (wit_ntop AF_INET (replicate 4 NUL) @ '':'' @ decimal 0)"
  proof (rule toIPPort_text)
    show "ntop_contract wit_ntop" by (simp add: ntop_contract_def wit_ntop_def)
    have "load16 (store16 AF_INET) = AF_INET" by (rule load16_store16) (simp add: AF_INET_def)
    then show "writeIPToBuffer wit_ntop wit_peer = Some (wit_ntop AF_INET (replicate 4 NUL))"
      by (simp add: writeIPToBuffer_def wit_peer_def mem_read_def wit_ntop_def AF_INET_def AF_INET6_def)
    show "toPort wit_peer = Some 0"
      by (simp add: toPort_def wit_peer_def mem_read_def load16_def htons_def)
  qed simp
  then show ?thesis by (simp add: wit_ntop_def decimal_rec digit_char_def char_of_eq_iff)
qed

theorem connection_table_witness:
  "\<exists>srv. server_reach wit_ntop wit_server0 [0] 1 srv \<and> length (srv_conns srv) = 2 \<and>
     ci_loop (srv_conns srv ! 1) = 1 \<and> connections srv (ci_name (srv_conns srv ! 0)) \<noteq> Some 0 \<and>
     connections srv (ci_name (srv_conns srv ! 1)) = Some 1"
proof -
  let ?run = "\<lambda>srv. acceptorReadCallback wit_ntop wit_peer (5, wit_peer) srv"
  have acc: "server_reach wit_ntop wit_server0 cls k srv'"
    if "server_reach wit_ntop wit_server0 cls k srv" "?run srv = Some srv'" "server_name srv = ''10.0.0.1:80''" for cls k srv srv'
    using that by (intro srv_accept [OF that(1) _ wit_peer_text]) auto
  have len: "length (srv_conns srv') = Suc (length (srv_conns srv))" "server_name srv' = server_name srv"
    if "?run srv = Some srv'" for srv srv' :: "unit tcp_server"
    using that unfolding accept_result [OF _ wit_peer_text, of 5, simplified] by auto
  have name: "NUL \<notin> set ''10.0.0.1:80''" by simp
  note tab = connection_table [where 'a = unit, of wit_ntop 0 int Suc 2 3 1 "''10.0.0.1:80''", folded wit_server0_def, OF _ name]
  have r0: "server_reach wit_ntop wit_server0 [] 0 wit_server0" by (rule srv_start)
  have z: "length (srv_conns wit_server0) = 0" "server_name wit_server0 = ''10.0.0.1:80''"
    by (simp_all add: wit_server0_def TCPServer_new_def)
  obtain s1 where s1: "?run wit_server0 = Some s1"
    using tab [OF r0, of 5 wit_peer "''1.2.3.4:0''" wit_peer] wit_peer_text z by auto
  have r1: "server_reach wit_ntop wit_server0 [] 0 s1" by (rule acc [OF r0 s1 z(2)])
  obtain s2 where s2: "?run s1 = Some s2"
    using tab [OF r1, of 5 wit_peer "''1.2.3.4:0''" wit_peer] wit_peer_text z len [OF s1] by auto
  have r2: "server_reach wit_ntop wit_server0 [] 0 s2" using acc [OF r1 s2] len [OF s1] z by simp
  have l2: "length (srv_conns s2) = 2" using len [OF s1] len [OF s2] z by simp
  define s3 where "s3 = s2\<lparr>main_tasks := main_tasks s2 @ [ci_name (srv_conns s2 ! 0)]\<rparr>"
  have r3: "server_reach wit_ntop wit_server0 [0] 0 s3"
    using srv_close [OF r2, of 0 s3] l2 by (simp add: connectionCloseCallback_def vec_at_def s3_def)
  obtain s4 where s4: "run_erase s3 = Some s4" "srv_conns s4 = srv_conns s2"
    by (cases "main_tasks s3") (auto simp: run_erase_def s3_def)
  have r4: "server_reach wit_ntop wit_server0 [0] 1 s4" using srv_erase [OF r3 s4(1)] by simp
  from tab [OF r4, of 5 wit_peer "''1.2.3.4:0''" wit_peer] s4(2) l2 r4 show ?thesis
    by (intro exI [of _ s4]) auto
qed

end
