(* ===== verification/Server_Program.thy ===== *)
theory Server_Program
  imports Http_Session Tcp_Server "HOL-Library.List_Lexorder" "HOL-Library.Char_ord"
begin

text \<open>
  The server put together. An \<open>HTTPServer\<close> object (\<open>http_server.h\<close>, \<open>http_server.cc\<close>) is a \<open>TCPServer\<close> and the
  state its callbacks work on; its constructor installs those callbacks, and \<open>start\<close> starts the \<open>TCPServer\<close>.
  \<open>tests/test_server.cc\<close> is the program built from it: it registers three handlers and serves them on port 45678. Its event
  loop, which \<open>main\<close> enters last, is the theory of event loops; the events it delivers here are one of the listening socket
  and then those of the connection that was accepted.
\<close>

section \<open>The server object\<close>

record 'k http_app =
  app_tcp :: "'k tcp_server"
  app_http :: http_server

text \<open>Callback 1 of a \<open>TCPServer\<close> is the method of this object; 0 is the default one.\<close>

definition HTTPServer_construct :: "'k thread_pool \<Rightarrow> int \<Rightarrow> int \<Rightarrow> string \<Rightarrow> bool \<Rightarrow> 'k http_app" where
  "HTTPServer_construct pool sockfd optval name use_cache =
     \<lparr>app_tcp = setConnectionReadCallback 1 (setConnectionCreateCallback 1 (TCPServer_new pool sockfd optval name)),
      app_http = HTTPServer_new use_cache\<rparr>"

definition HTTPServer_setResponseCallback :: "string \<Rightarrow> handler \<Rightarrow> 'k http_app \<Rightarrow> 'k http_app" where
  "HTTPServer_setResponseCallback path cb app = app\<lparr>app_http := setResponseCallback path cb (app_http app)\<rparr>"

definition HTTPServer_start :: "'k http_app \<Rightarrow> 'k http_app" where
  "HTTPServer_start app = app\<lparr>app_tcp := server_start (app_tcp app)\<rparr>"

section \<open>The test server\<close>

definition hello_callback :: handler where
  "hello_callback req resp =
     setBody (''Hello World'' @ kCRLF) (HTTPResponse_setHeader ''Content-type'' ''text/plain'' (setStatusCode k200Ok resp))"

definition long_callback :: handler where
  "long_callback req resp =
     setBody (replicate 5000 (CHR ''a'')) (HTTPResponse_setHeader ''Content-type'' ''text/plain'' (setStatusCode k200Ok resp))"

definition home_callback :: handler where
  "home_callback req resp =
     setBody (''Home'' @ kCRLF) (HTTPResponse_setHeader ''Content-type'' ''text/plain'' (setStatusCode k200Ok resp))"

text \<open>
  \<open>main\<close> up to the start of the loop. Its parameters are those of the parts: \<open>inet_ntop\<close>, the memory of the address object,
  the threads and descriptors of the pool, the listening socket, the option value, the environment.
\<close>

definition test_server_main ::
  "(nat \<Rightarrow> string \<Rightarrow> string) \<Rightarrow> sockaddr \<Rightarrow> nat \<Rightarrow> (nat \<Rightarrow> int) \<Rightarrow> (nat \<Rightarrow> nat) \<Rightarrow> int \<Rightarrow> int \<Rightarrow> string option \<Rightarrow> 'k http_app option" where
  "test_server_main inet_ntop mem tid fds owners sockfd optval env =
     do {
       let num_io_threads = 4;
       let port = 45678;
       address \<leftarrow> SocketAddress_new mem port False False;
       name \<leftarrow> toIPPort inet_ntop address;
       let server = HTTPServer_construct (EventLoopThreadPool_new tid fds owners num_io_threads) sockfd optval name (initUseRespCache env);
       let server = HTTPServer_setResponseCallback ''/hello'' hello_callback server;
       let server = HTTPServer_setResponseCallback ''/long'' long_callback server;
       let server = HTTPServer_setResponseCallback ''/'' home_callback server;
       Some (HTTPServer_start server)
     }"

section \<open>What it serves\<close>

text \<open>The body under each path, and the whole page of a connection that is kept alive.\<close>

definition test_bodies :: "string \<rightharpoonup> string" where
  "test_bodies = [''/hello'' \<mapsto> ''Hello World'' @ kCRLF, ''/long'' \<mapsto> replicate 5000 (CHR ''a''), ''/'' \<mapsto> ''Home'' @ kCRLF]"

definition page :: "string \<Rightarrow> string" where
  "page body = lines_text [''HTTP/1.1 200 OK'', ''Content-Length: '' @ decimal (length body), ''Connection: Keep-Alive'',
     ''Content-type: text/plain''] @ kCRLF @ body"

definition map_order_contract :: "http_env \<Rightarrow> bool" where
  "map_order_contract E \<longleftrightarrow> (\<forall>r. finite (dom (resp_headers r)) \<longrightarrow> key_order r (he_order E r))"

definition test_response :: "string \<Rightarrow> http_response" where
  "test_response body = \<lparr>resp_version = kHttp11, resp_status_code = k200Ok, resp_close_connection = False,
     resp_headers = [''Content-type'' \<mapsto> ''text/plain''], resp_body = body\<rparr>"

lemma key_order_singleton: "key_order r keys \<Longrightarrow> dom (resp_headers r) = {k} \<Longrightarrow> keys = [k]"
  by (cases keys; cases "tl keys") (auto simp: key_order_def)

lemma test_response_page:
  assumes "map_order_contract E" "length body < 2 ^ 64"
  shows "answer_ok E (test_response body)" "response_text (he_order E (test_response body)) (test_response body) = page body"
proof -
  have k: "key_order (test_response body) (he_order E (test_response body))"
    using assms(1) by (simp add: map_order_contract_def test_response_def)
  moreover have "he_order E (test_response body) = [''Content-type'']"
    using k by (rule key_order_singleton) (simp add: test_response_def)
  ultimately show "answer_ok E (test_response body)"
    "response_text (he_order E (test_response body)) (test_response body) = page body"
    using assms(2)
    by (simp_all add: answer_ok_def response_ok_def test_response_def response_text_def response_lines_def connection_lines_def
        header_lines_def page_def)
qed

lemma test_callbacks:
  "hello_callback req HTTPResponse_new = test_response (''Hello World'' @ kCRLF)"
  "long_callback req HTTPResponse_new = test_response (replicate 5000 (CHR ''a''))"
  "home_callback req HTTPResponse_new = test_response (''Home'' @ kCRLF)"
  by (simp_all add: hello_callback_def long_callback_def home_callback_def test_response_def setBody_def
      HTTPResponse_setHeader_def setStatusCode_def HTTPResponse_new_def map_emplace_def)

text \<open>A request without a \<open>Connection\<close> header, after others without one.\<close>

lemma no_header_kept:
  "req_headers old k = None \<Longrightarrow> k \<notin> fst ` set (w_headers w) \<Longrightarrow> req_headers (wire_to_request old w) k = None"
proof -
  have "m k = None \<Longrightarrow> k \<notin> fst ` set hs \<Longrightarrow> fold (\<lambda>(k, v). map_emplace k v) hs m k = None" for m hs
    by (induction hs arbitrary: m) (auto simp: map_emplace_def)
  then show "req_headers old k = None \<Longrightarrow> k \<notin> fst ` set (w_headers w) \<Longrightarrow> ?thesis"
    by (simp add: wire_to_request_def next_request_def add_headers_def)
qed

lemma session_requests_prop:
  assumes "req_headers old k = None" "\<forall>w \<in> set ws. k \<notin> fst ` set (w_headers w)"
  shows "map req_path (session_requests old ws) = map w_path ws \<and> (\<forall>req \<in> set (session_requests old ws). req_headers req k = None)"
  using assms
proof (induction ws arbitrary: old)
  case (Cons w ws)
  then have "req_headers (wire_to_request old w) k = None" by (intro no_header_kept) simp_all
  with Cons.IH [of "wire_to_request old w"] Cons.prems show ?case by simp
qed simp

section \<open>From \<open>main\<close> to the responses\<close>

lemma test_server_main_result:
  assumes "ntop_contract ntop" "length mem = 28"
  shows "\<exists>name app. test_server_main ntop mem tid fds owners sockfd optval env = Some app \<and>
    app_tcp app = server_start (setConnectionReadCallback 1 (setConnectionCreateCallback 1
      (TCPServer_new (EventLoopThreadPool_new tid fds owners 4) sockfd optval name))) \<and>
    responseCallbacks (app_http app) = [''/hello'' \<mapsto> hello_callback, ''/long'' \<mapsto> long_callback, ''/'' \<mapsto> home_callback] \<and>
    kUseRespCache (app_http app) = initUseRespCache env \<and> srv_cache (app_http app) = resp_cache_new"
proof -
  obtain b where b: "SocketAddress_new mem 45678 False False = Some b" "\<exists>name. toIPPort ntop b = Some name"
    using address_printed [OF assms, of 45678 False False] by auto
  then obtain name where "toIPPort ntop b = Some name" by blast
  with b(1) show ?thesis
    by (intro exI [of _ name])
      (auto simp: test_server_main_def Let_def HTTPServer_start_def HTTPServer_setResponseCallback_def HTTPServer_construct_def
        setResponseCallback_def HTTPServer_new_def)
qed

text \<open>The first connection a started server accepts: it has its name in the table and is handed to the first loop.\<close>

lemma first_accept:
  assumes "0 \<le> fd" "toIPPort ntop sa = Some peer"
    and "srv0 = server_start (setConnectionReadCallback g (setConnectionCreateCallback f
      (TCPServer_new (EventLoopThreadPool_new tid fds owners 4) sockfd optval name0)))"
  shows "\<exists>srv name. acceptorReadCallback ntop mem (fd, sa) srv0 = Some srv \<and>
    srv_conns srv = [\<lparr>ci_loop = 0, ci_fd = fd, ci_name = name, ci_create = True, ci_close = True, ci_read = True\<rparr>] \<and> connections srv = [name \<mapsto> 0] \<and> io_tasks srv = [(0, 0)] \<and>
    createCallback srv = f \<and> srv_readCallback srv = g"
  using accept_result [OF assms(1,2), of mem srv0] assms(3)
  by (auto simp: server_start_def setConnectionReadCallback_def setConnectionCreateCallback_def TCPServer_new_def i32_def)

lemma test_answer:
  assumes "responseCallbacks srv = [''/hello'' \<mapsto> hello_callback, ''/long'' \<mapsto> long_callback, ''/'' \<mapsto> home_callback]"
    and "req_path req \<in> dom test_bodies" and "req_headers req ''Connection'' = None"
  shows "answer srv req = test_response (the (test_bodies (req_path req)))"
  using assms by (auto simp: answer_def response_to_def test_bodies_def test_callbacks split: if_splits)

lemma test_body_length: "path \<in> dom test_bodies \<Longrightarrow> length (the (test_bodies path)) < 2 ^ 64"
  by (auto simp: test_bodies_def kCRLF_def split: if_splits)

lemma test_session:
  assumes cbs: "responseCallbacks srv = [''/hello'' \<mapsto> hello_callback, ''/long'' \<mapsto> long_callback, ''/'' \<mapsto> home_callback]"
    and "cache_valid (he_boost E) (set (session_requests HTTPRequest_new ws)) (length ws) srv" and "map_order_contract E"
    and "list_all wire_ok ws" and "ws \<noteq> []"
    and ws: "\<forall>w \<in> set ws. w_path w \<in> dom test_bodies \<and> ''Connection'' \<notin> fst ` set (w_headers w)"
  shows "session_served Buffer_type Buffer_content fd name nd E srv
    (zip (map (\<lambda>w. page (the (test_bodies (w_path w)))) ws) (map w_pieces ws)) (last (session_requests HTTPRequest_new ws)) False"
proof -
  let ?reqs = "session_requests HTTPRequest_new ws"
  have reqs: "map req_path ?reqs = map w_path ws" "\<forall>req \<in> set ?reqs. req_headers req ''Connection'' = None"
    using session_requests_prop [of HTTPRequest_new "''Connection''" ws] ws by (simp_all add: HTTPRequest_new_def)
  have "set (map req_path ?reqs) \<subseteq> dom test_bodies" unfolding reqs(1) using ws by auto
  then have paths: "\<forall>req \<in> set ?reqs. req_path req \<in> dom test_bodies" by (simp add: image_subset_iff)
  have "map (answer srv) ?reqs = map (\<lambda>p. test_response (the (test_bodies p))) (map req_path ?reqs)"
    using test_answer [OF cbs] reqs(2) paths by simp
  then have rs: "map (answer srv) ?reqs = map (\<lambda>w. test_response (the (test_bodies (w_path w)))) ws" (is "?rs = _")
    unfolding reqs(1) by simp
  have page: "answer_ok E (test_response (the (test_bodies (w_path w))))"
    "response_text (he_order E (test_response (the (test_bodies (w_path w))))) (test_response (the (test_bodies (w_path w)))) =
      page (the (test_bodies (w_path w)))" if "w \<in> set ws" for w
    using test_response_page [OF assms(3) test_body_length] that ws by blast+
  have keep: "\<not> resp_close_connection r" if "r \<in> set ?rs" for r
    using that unfolding rs by (auto simp: test_response_def)
  have "session_served Buffer_type Buffer_content fd name nd E srv
      (zip (map (\<lambda>r. response_text (he_order E r) r) ?rs) (map w_pieces ws)) (last ?reqs) (resp_close_connection (last ?rs))"
  proof (rule conn_buf.session [OF assms(4,5) _ assms(2) order_refl refl])
    show "\<forall>w \<in> set ws. w_path w \<in> dom (responseCallbacks srv)" using ws by (auto simp: cbs test_bodies_def)
    show "list_all (answer_ok E) ?rs" unfolding rs using page(1) by (simp add: list_all_iff)
    show "list_all (\<lambda>r. \<not> resp_close_connection r) (butlast ?rs)"
      using keep by (auto simp: list_all_iff dest: in_set_butlastD)
  qed
  moreover have "map (\<lambda>r. response_text (he_order E r) r) ?rs = map (\<lambda>w. page (the (test_bodies (w_path w)))) ws"
    unfolding rs using page(2) by simp
  moreover have "\<not> resp_close_connection (last ?rs)" using assms(5) by (intro keep last_in_set) (simp add: rs)
  ultimately show ?thesis by simp
qed

section \<open>Properties\<close>

text \<open>
  C2: the program \<open>tests/test_server.cc\<close> from \<open>main\<close> to its responses. Started without a cache, or with one when at most 1024 requests come, no two different ones
  with the same hash value, it has bound its socket, listens and has
  registered the socket for reading. When it accepts a connection, the connection is in its table and handed to the first loop
  of its pool; and whatever sequence of requests for its three paths then arrives on the connection, in whatever pieces, without \<open>Connection\<close> headers, each is
  answered with the page of its path, all bytes of it, and the connection is kept open.
\<close>

theorem test_server_serves:
  assumes "ntop_contract ntop" and "length mem = 28" and "0 \<le> fd" and "toIPPort ntop sa = Some peer" and "map_order_contract E"
    and "list_all wire_ok ws" and "ws \<noteq> []"
    and "\<forall>w \<in> set ws. w_path w \<in> dom test_bodies \<and> ''Connection'' \<notin> fst ` set (w_headers w)"
    and "initUseRespCache env \<longrightarrow>
      length ws \<le> kMaxReqCached \<and> inj_on (to_hash_value (he_boost E)) (set (session_requests HTTPRequest_new ws))"
  shows "\<exists>(app :: 'k http_app) srv name. test_server_main ntop mem tid fds owners sockfd optval env = Some app \<and>
    acc_calls (server_acceptor (app_tcp app)) = [CallReuseAddress optval, CallBind, CallListen, CallAdd kReadEvent] \<and>
    acceptorReadCallback ntop peer_mem (fd, sa) (app_tcp app) = Some srv \<and>
    srv_conns srv = [\<lparr>ci_loop = 0, ci_fd = fd, ci_name = name, ci_create = True, ci_close = True, ci_read = True\<rparr>] \<and> connections srv = [name \<mapsto> 0] \<and> io_tasks srv = [(0, 0)] \<and>
    createCallback srv = 1 \<and> srv_readCallback srv = 1 \<and>
    session_served Buffer_type Buffer_content fd name nd E (app_http app)
      (zip (map (\<lambda>w. page (the (test_bodies (w_path w)))) ws) (map w_pieces ws)) (last (session_requests HTTPRequest_new ws)) False"
proof -
  obtain name0 and app :: "'k http_app" where app: "test_server_main ntop mem tid fds owners sockfd optval env = Some app"
    "app_tcp app = server_start (setConnectionReadCallback 1 (setConnectionCreateCallback 1
      (TCPServer_new (EventLoopThreadPool_new tid fds owners 4) sockfd optval name0)))"
    "responseCallbacks (app_http app) = [''/hello'' \<mapsto> hello_callback, ''/long'' \<mapsto> long_callback, ''/'' \<mapsto> home_callback]"
    "kUseRespCache (app_http app) = initUseRespCache env" "srv_cache (app_http app) = resp_cache_new"
    using test_server_main_result [OF assms(1,2), of tid fds owners sockfd optval env] by blast
  have valid: "cache_valid (he_boost E) (set (session_requests HTTPRequest_new ws)) (length ws) (app_http app)"
    using cache_valid_off cache_valid_new app(4,5) assms(9) by metis
  obtain srv name where srv: "acceptorReadCallback ntop peer_mem (fd, sa) (app_tcp app) = Some srv"
    "srv_conns srv = [\<lparr>ci_loop = 0, ci_fd = fd, ci_name = name, ci_create = True, ci_close = True, ci_read = True\<rparr>]" "connections srv = [name \<mapsto> 0]" "io_tasks srv = [(0, 0)]"
    "createCallback srv = 1" "srv_readCallback srv = 1"
    using first_accept [OF assms(3,4) app(2)] by blast
  have acc: "acc_calls (server_acceptor (app_tcp app)) = [CallReuseAddress optval, CallBind, CallListen, CallAdd kReadEvent]"
    by (simp add: app(2) server_start_def setConnectionReadCallback_def setConnectionCreateCallback_def TCPServer_new_def
        acceptor_listen_def Acceptor_new_def Acceptor_setReadCallback_def setReuseAddress_def Let_def enableReading_def Channel_new_def kNoneEvent_def)
  from test_session [OF app(3) valid assms(5-8), of fd name nd] app(1) srv acc show ?thesis
    by (intro exI [of _ app] exI [of _ srv] exI [of _ name]) simp
qed

definition wit_order :: http_env where
  "wit_order = wit_env\<lparr>he_order := \<lambda>r. sorted_list_of_set (dom (resp_headers r))\<rparr>"

lemma wit_order_ok: "map_order_contract wit_order"
  by (simp add: map_order_contract_def wit_order_def key_order_def)

theorem test_server_serves_witness:
  "\<exists>(app :: unit http_app) srv name.
     test_server_main wit_ntop (replicate 28 NUL) 0 int Suc 3 1 (Some ''1'') = Some app \<and>
     acceptorReadCallback wit_ntop wit_peer (5, wit_peer) (app_tcp app) = Some srv \<and> connections srv = [name \<mapsto> 0] \<and>
     session_served Buffer_type Buffer_content 5 name False wit_order (app_http app)
       [(page (''Home'' @ kCRLF), w_pieces (wit_get ''/'')), (page (''Home'' @ kCRLF), w_pieces (wit_get ''/''))]
       (last (session_requests HTTPRequest_new [wit_get ''/'', wit_get ''/''])) False"
proof -
  have n: "ntop_contract wit_ntop" by (simp add: ntop_contract_def wit_ntop_def)
  have l: "length (replicate 28 NUL) = 28" by simp
  have ws: "list_all wire_ok [wit_get ''/'', wit_get ''/'']" using wit_get_ok [of "''/''"] by (simp add: path_ok_def)
  have p: "\<forall>w \<in> set [wit_get ''/'', wit_get ''/'']. w_path w \<in> dom test_bodies \<and> ''Connection'' \<notin> fst ` set (w_headers w)"
    by (simp add: wit_get_def test_bodies_def)
  have b: "test_bodies (w_path (wit_get ''/'')) = Some (''Home'' @ kCRLF)" by (simp add: wit_get_def test_bodies_def)
  have "wire_to_request (wire_to_request HTTPRequest_new (wit_get ''/'')) (wit_get ''/'') = wire_to_request HTTPRequest_new (wit_get ''/'')"
    by (simp add: wire_to_request_def wit_get_def next_request_def add_headers_def)
  then have "initUseRespCache (Some ''1'') \<longrightarrow> length [wit_get ''/'', wit_get ''/''] \<le> kMaxReqCached \<and>
      inj_on (to_hash_value (he_boost wit_order)) (set (session_requests HTTPRequest_new [wit_get ''/'', wit_get ''/'']))"
    by (simp add: kMaxReqCached_def)
  from test_server_serves [where 'k = unit, OF n l _ wit_peer_text wit_order_ok ws _ p this, of 5 0 int Suc 3 1 wit_peer False]
  show ?thesis by (auto simp: b)
qed

end
