(* ===== verification/Server_System.thy ===== *)
theory Server_System
  imports Server_Program
begin

text \<open>
  The whole server: the \<open>TCPServer\<close> with its table and the two kinds of queued closures, all its connections with
  their channels and contexts, and the state the HTTP callbacks share. The
  main loop accepts connections and erases them from the table, the loops of the pool create them and deliver
  their events, in any order.

  One handler is one step. It changes one connection, its own; the state it shares with other threads is the cache, whose interleavings are
  the theory \<open>Shared_Cache\<close>, and the queues of the loops, whose interleavings are the theory \<open>Event_Loop\<close>. Both justify that a handler is
  taken as a whole here.
\<close>

section \<open>State\<close>

record ('k, 'b) server_system =
  ss_app :: "'k http_app"
  ss_conns :: "('b, http_context) tcp_connection list"
  ss_todo :: "(nat \<times> nat) list"

abbreviation ss_tcp :: "('k, 'b) server_system \<Rightarrow> 'k tcp_server" where
  "ss_tcp s \<equiv> app_tcp (ss_app s)"

definition with_tcp :: "'k tcp_server \<Rightarrow> ('k, 'b) server_system \<Rightarrow> ('k, 'b) server_system" where
  "with_tcp srv s = s\<lparr>ss_app := (ss_app s)\<lparr>app_tcp := srv\<rparr>\<rparr>"

text \<open>
  A connection has one request object for its life, which its context holds. The cache keeps pointers to these
  objects: the number of the connection.
\<close>

definition conn_request :: "('b, http_context) tcp_connection \<Rightarrow> http_request" where
  "conn_request c = (case conn_context c of None \<Rightarrow> HTTPRequest_new | Some ctx \<Rightarrow> ctx_request ctx)"

definition ss_env :: "http_env \<Rightarrow> nat \<Rightarrow> ('k, 'b) server_system \<Rightarrow> http_env" where
  "ss_env E i s = E\<lparr>he_self := i,
     he_others := \<lambda>p. case vec_at (ss_conns s) p of None \<Rightarrow> HTTPRequest_new | Some c \<Rightarrow> conn_request c\<rparr>"

section \<open>Steps\<close>

text \<open>The callbacks of connection \<open>i\<close>, once set, forward to those of the server: number 1 is the method of the \<open>HTTPServer\<close>, any other the default one.\<close>

definition callback_set :: "(conn_info \<Rightarrow> bool) \<Rightarrow> nat \<Rightarrow> ('k, 'b) server_system \<Rightarrow> bool" where
  "callback_set cb i s \<longleftrightarrow> (case vec_at (srv_conns (ss_tcp s)) i of None \<Rightarrow> False | Some ci \<Rightarrow> cb ci)"

definition ss_on_create ::
  "nat \<Rightarrow> ('k, 'b) server_system \<Rightarrow> ('b, http_context) tcp_connection \<Rightarrow> ('b, http_context) tcp_connection option" where
  "ss_on_create i s =
     (if \<not> callback_set ci_create i s then (\<lambda>_. None)
      else if createCallback (ss_tcp s) = 1 then connectionOnCreate else defaultCreateCallback)"

definition ss_on_read ::
  "('b, 'i) buffer_type \<Rightarrow> nat \<Rightarrow> ('k, 'b) server_system \<Rightarrow> io_env \<Rightarrow> (http_server \<times> http_env, 'b, http_context) read_callback" where
  "ss_on_read C i s e =
     (if \<not> callback_set ci_read i s then (\<lambda>_ _. None)
      else if srv_readCallback (ss_tcp s) = 1 then http_read C e else defaultReadCallback C)"

definition ss_on_close :: "nat \<Rightarrow> ('k, 'b) server_system \<Rightarrow> 'k tcp_server option" where
  "ss_on_close i s = (if callback_set ci_close i s then connectionCloseCallback i (ss_tcp s) else None)"

text \<open>The listening socket is readable: a new connection object, and a closure in the queue of its loop.\<close>

definition ss_accept ::
  "('b, 'i) buffer_type \<Rightarrow> (nat \<Rightarrow> string \<Rightarrow> string) \<Rightarrow> sockaddr \<Rightarrow> int \<times> sockaddr \<Rightarrow> ('k, 'b) server_system \<Rightarrow>
   ('k, 'b) server_system option" where
  "ss_accept C inet_ntop peer_mem res s =
     (if \<not> acc_readCallback (server_acceptor (ss_tcp s)) then Some s
      else do {
        srv \<leftarrow> acceptorReadCallback inet_ntop peer_mem res (ss_tcp s);
        let new = drop (length (srv_conns (ss_tcp s))) (srv_conns srv);
        Some ((with_tcp srv s)\<lparr>ss_conns := ss_conns s @ map (\<lambda>ci. TCPConnection_new C (ci_fd ci) (ci_name ci)) new,
          ss_todo := ss_todo s @ drop (length (io_tasks (ss_tcp s))) (io_tasks srv)\<rparr>)
      })"

text \<open>A loop of the pool runs the oldest closure in its queue.\<close>

definition ss_create :: "io_env \<Rightarrow> nat \<Rightarrow> ('k, 'b) server_system \<Rightarrow> ('k, 'b) server_system option" where
  "ss_create e l s =
     (case find (\<lambda>(l', i). l' = l) (ss_todo s) of
        None \<Rightarrow> None
      | Some (_, i) \<Rightarrow>
          do {
            c \<leftarrow> vec_at (ss_conns s) i;
            c' \<leftarrow> handleCreate e (ss_on_create i s) c;
            Some (s\<lparr>ss_conns := (ss_conns s)[i := c'], ss_todo := remove1 (l, i) (ss_todo s)\<rparr>)
          })"

text \<open>An event of a connection; when it closes the connection, its close callback queues the erasure.\<close>

definition ss_event ::
  "('b, 'i) buffer_type \<Rightarrow> http_env \<Rightarrow> io_env \<Rightarrow> nat \<Rightarrow> events \<Rightarrow> ('k, 'b) server_system \<Rightarrow> ('k, 'b) server_system option" where
  "ss_event C E e i revents s =
     do {
       c \<leftarrow> vec_at (ss_conns s) i;
       (w, c') \<leftarrow> conn_event C e (ss_on_read C i s e) revents ((app_http (ss_app s), ss_env E i s), c);
       srv \<leftarrow> (if count_list (conn_trace c) CloseCallback < count_list (conn_trace c') CloseCallback
              then ss_on_close i s else Some (ss_tcp s));
       Some (s\<lparr>ss_app := \<lparr>app_tcp = srv, app_http = fst w\<rparr>, ss_conns := (ss_conns s)[i := c']\<rparr>)
     }"

definition ss_erase :: "('k, 'b) server_system \<Rightarrow> ('k, 'b) server_system option" where
  "ss_erase s = map_option (\<lambda>srv. with_tcp srv s) (run_erase (ss_tcp s))"

definition ss_start ::
  "(string \<times> handler) list \<Rightarrow> 'k thread_pool \<Rightarrow> int \<Rightarrow> int \<Rightarrow> string \<Rightarrow> bool \<Rightarrow> ('k, 'b) server_system" where
  "ss_start cbs pool sockfd optval name use_cache =
     \<lparr>ss_app = HTTPServer_start (fold (\<lambda>(path, cb). HTTPServer_setResponseCallback path cb) cbs
        (HTTPServer_construct pool sockfd optval name use_cache)), ss_conns = [], ss_todo = []\<rparr>"

text \<open>
  What can happen to a started server. The addresses of the peers are short enough for the names of connections; events are
  those the poller may report, as for a single connection.
\<close>

inductive ss_reach ::
  "('b, 'i) buffer_type \<Rightarrow> (nat \<Rightarrow> string \<Rightarrow> string) \<Rightarrow> http_env \<Rightarrow> ('k, 'b) server_system \<Rightarrow> ('k, 'b) server_system \<Rightarrow> bool"
  for C ntop E s0 where
  ss_started: "ss_reach C ntop E s0 s0"
| ss_accepts: "ss_reach C ntop E s0 s \<Longrightarrow> 0 \<le> fd \<Longrightarrow> toIPPort ntop sa = Some peer \<Longrightarrow> NUL \<notin> set peer \<Longrightarrow>
    length peer + length (server_name (ss_tcp s)) \<le> 49 \<Longrightarrow> ss_accept C ntop mem (fd, sa) s = Some s' \<Longrightarrow> ss_reach C ntop E s0 s'"
| ss_refuses: "ss_reach C ntop E s0 s \<Longrightarrow> fd < 0 \<Longrightarrow> ss_accept C ntop mem (fd, sa) s = Some s' \<Longrightarrow> ss_reach C ntop E s0 s'"
| ss_creates: "ss_reach C ntop E s0 s \<Longrightarrow> ss_create e l s = Some s' \<Longrightarrow> ss_reach C ntop E s0 s'"
| ss_events: "ss_reach C ntop E s0 s \<Longrightarrow> env_ok e \<Longrightarrow> vec_at (ss_conns s) i = Some c \<Longrightarrow>
    poll_view (conn_trace c) None = Some known \<Longrightarrow> (revents AND POLLOUT \<noteq> 0 \<longrightarrow> known AND POLLOUT \<noteq> 0) \<Longrightarrow>
    ss_event C E e i revents s = Some s' \<Longrightarrow> ss_reach C ntop E s0 s'"
| ss_erases: "ss_reach C ntop E s0 s \<Longrightarrow> ss_erase s = Some s' \<Longrightarrow> ss_reach C ntop E s0 s'"

section \<open>The invariant\<close>

definition ss_inv ::
  "('b, 'i) buffer_type \<Rightarrow> nat \<Rightarrow> string \<Rightarrow> nat list \<Rightarrow> nat \<Rightarrow> ('k, 'b) server_system \<Rightarrow> bool" where
  "ss_inv C n name cls k s \<longleftrightarrow>
     server_inv n name cls k (ss_tcp s) \<and> createCallback (ss_tcp s) = 1 \<and> srv_readCallback (ss_tcp s) = 1 \<and>
     length (ss_conns s) = length (srv_conns (ss_tcp s)) \<and> list_all (http_conn C) (ss_conns s) \<and>
     (\<forall>i < length (ss_conns s). conn_status (ss_conns s ! i) = kDisconnected \<longleftrightarrow> i \<in> set cls) \<and>
     distinct (ss_todo s) \<and>
     (\<forall>l i. (l, i) \<in> set (ss_todo s) \<longleftrightarrow> i < length (ss_conns s) \<and> l = i mod n \<and> conn_status (ss_conns s ! i) = kConnecting)"

lemma ss_inv_todo:
  assumes "ss_inv C n name cls k s" "(l, i) \<in> set (ss_todo s)"
  shows "i < length (ss_conns s)" "l = i mod n" "conn_status (ss_conns s ! i) = kConnecting"
  using assms unfolding ss_inv_def by blast+

text \<open>What the invariant says of the connections, without the history of their closing.\<close>

definition ss_consistent :: "('b, 'i) buffer_type \<Rightarrow> nat \<Rightarrow> ('k, 'b) server_system \<Rightarrow> bool" where
  "ss_consistent C n s \<longleftrightarrow>
     length (ss_conns s) = length (srv_conns (ss_tcp s)) \<and> distinct (map ci_name (srv_conns (ss_tcp s))) \<and>
     distinct (ss_todo s) \<and> distinct (main_tasks (ss_tcp s)) \<and>
     (\<forall>i < length (ss_conns s).
        let c = ss_conns s ! i; nm = ci_name (srv_conns (ss_tcp s) ! i); erased = connections (ss_tcp s) nm = None;
            dying = nm \<in> set (main_tasks (ss_tcp s)) in
        http_conn C c \<and> (erased \<or> connections (ss_tcp s) nm = Some i) \<and>
        (conn_status c = kConnecting \<longleftrightarrow> (i mod n, i) \<in> set (ss_todo s)) \<and>
        (conn_status c = kDisconnected \<longleftrightarrow> dying \<or> erased) \<and> \<not> (dying \<and> erased))"

lemma ss_inv_consistent:
  assumes "ss_inv C n name cls k s"
  shows "ss_consistent C n s"
proof -
  let ?cs = "srv_conns (ss_tcp s)"
  have inv: "named_by_number ?cs" "distinct cls" "\<forall>c \<in> set cls. c < length ?cs" "k \<le> length cls"
    "main_tasks (ss_tcp s) = map (\<lambda>c. ci_name (?cs ! c)) (drop k cls)"
    "\<And>nm c. connections (ss_tcp s) nm = Some c \<longleftrightarrow> c < length ?cs \<and> ci_name (?cs ! c) = nm \<and> c \<notin> set (take k cls)"
    using assms unfolding ss_inv_def server_inv_def by blast+
  have conns: "length (ss_conns s) = length ?cs" "list_all (http_conn C) (ss_conns s)" "distinct (ss_todo s)"
    "\<And>i. i < length ?cs \<Longrightarrow> conn_status (ss_conns s ! i) = kDisconnected \<longleftrightarrow> i \<in> set cls"
    "\<And>l i. (l, i) \<in> set (ss_todo s) \<longleftrightarrow> i < length ?cs \<and> l = i mod n \<and> conn_status (ss_conns s ! i) = kConnecting"
    using assms unfolding ss_inv_def by auto
  note inj = named_by_number_inj [OF inv(1)]
  have lt: "c < length ?cs" if "c \<in> set (drop k cls)" for c using that inv(3) in_set_dropD by fast
  have dying: "ci_name (?cs ! i) \<in> set (main_tasks (ss_tcp s)) \<longleftrightarrow> i \<in> set (drop k cls)" if "i < length ?cs" for i
    unfolding inv(5) using inj that lt by auto
  have split: "i \<in> set cls \<longleftrightarrow> i \<in> set (take k cls) \<or> i \<in> set (drop k cls)"
    "\<not> (i \<in> set (take k cls) \<and> i \<in> set (drop k cls))" for i
    using inv(2) append_take_drop_id [of k cls] by (metis Un_iff set_append) (metis disjoint_iff distinct_append append_take_drop_id inv(2))
  have erased: "connections (ss_tcp s) (ci_name (?cs ! i)) = (if i \<in> set (take k cls) then None else Some i)"
    if "i < length ?cs" for i
    using inv(6) [of "ci_name (?cs ! i)"] inj that by (metis not_None_eq)
  have "distinct (map ci_name ?cs)" using inj by (auto simp: distinct_conv_nth)
  moreover have "distinct (main_tasks (ss_tcp s))"
    unfolding inv(5) using inv(2) lt inj by (auto simp: distinct_map inj_on_def)
  ultimately show ?thesis
    unfolding ss_consistent_def Let_def using conns dying split erased by (auto simp: list_all_length)
qed

section \<open>Single connections\<close>

lemma http_conn_new: "http_conn C (TCPConnection_new C fd name)"
  unfolding http_conn_def by (rule conn_new)

lemma http_conn_create:
  assumes "http_conn C c" "conn_status c = kConnecting" "handleCreate e connectionOnCreate c = Some c'"
  shows "http_conn C c'" "conn_status c' = kConnected"
  using conn_create [OF assms(1) [unfolded http_conn_def] assms(2,3)] assms(3)
  by (auto simp: http_conn_def handleCreate_def connectionOnCreate_def setContext_def bind_eq_Some_conv Let_def)

context conn_buffers
begin

lemma http_closes:
  "http_conn C c \<Longrightarrow> count_list (conn_trace c) CloseCallback = (if conn_status c = kDisconnected then 1 else 0)"
  using http_conn_refines abs_reach_inv by (fastforce simp: conn_rel_def abs_inv_def)

lemma http_watched:
  "http_conn C c \<Longrightarrow> poll_view (conn_trace c) None = Some ev \<Longrightarrow> conn_status c \<noteq> kConnecting \<and> conn_status c \<noteq> kDisconnected"
  using http_conn_refines by (fastforce simp: conn_rel_def split: if_splits)

lemma http_conn_event:
  assumes "http_conn C c" "env_ok e" "poll_view (conn_trace c) None = Some known"
    "revents AND POLLOUT \<noteq> 0 \<longrightarrow> known AND POLLOUT \<noteq> 0"
    "conn_event C e (http_read C e) revents (w, c) = Some (w', c')"
  shows "http_conn C c'" "conn_status c' \<noteq> kConnecting"
proof -
  show "http_conn C c'"
    unfolding http_conn_def by (rule conn_event [OF assms(1) [unfolded http_conn_def] assms(2-5)])
  obtain a where a: "abs_reach a" "rel c a" using http_conn_refines [OF assms(1)] by blast
  have "known = events_type (conn_channel c)" using a(2) assms(3) by (auto simp: conn_rel_def split: if_splits)
  then have "a_writing a" if "revents AND POLLOUT \<noteq> 0"
    using that assms(4) a(2) by (simp add: conn_rel_def isWriting_def kWriteEvent_def)
  from conn_event_sim [OF a(2) abs_reach_inv [OF a(1)] assms(2) http_read_ok this assms(5)]
  obtain a' where "abs_step\<^sup>*\<^sup>* a a'" "rel c' a'" by blast
  moreover have "a_status a \<noteq> kConnecting" using http_watched [OF assms(1,3)] a(2) by (simp add: conn_rel_def)
  ultimately show "conn_status c' \<noteq> kConnecting" using abs_steps_status by (auto simp: conn_rel_def)
qed

end

section \<open>Every step keeps the invariant\<close>

lemma callbacks_keep_tcp:
  "app_tcp (fold (\<lambda>(path, cb). HTTPServer_setResponseCallback path cb) cbs app) = app_tcp app"
  by (induction cbs arbitrary: app) (auto simp: HTTPServer_setResponseCallback_def)

lemma refuse_same: "fd < 0 \<Longrightarrow> ss_accept C ntop mem (fd, sa) s = Some s' \<Longrightarrow> s' = s"
  by (simp add: ss_accept_def acceptorReadCallback_def acceptor_accept_def with_tcp_def split: if_splits)

lemma ss_inv_wired:
  assumes "ss_inv C n name cls k s"
  shows "i < length (ss_conns s) \<Longrightarrow> callback_set ci_create i s \<and> callback_set ci_close i s \<and> callback_set ci_read i s"
    and "acc_readCallback (server_acceptor (ss_tcp s))"
  using assms by (simp_all add: ss_inv_def server_inv_def callback_set_def vec_at_def list_all_length conn_wired_def)

lemma ss_inv_accept:
  assumes inv: "ss_inv C n name cls k s" and acc: "0 \<le> fd" "toIPPort ntop sa = Some peer" "NUL \<notin> set peer" "NUL \<notin> set name"
    "length peer + length name \<le> 49" and run: "ss_accept C ntop mem (fd, sa) s = Some s'"
  shows "ss_inv C n name cls k s'"
proof -
  let ?m = "length (ss_conns s)"
  from run obtain srv where srv: "acceptorReadCallback ntop mem (fd, sa) (ss_tcp s) = Some srv"
    and s': "s' = (with_tcp srv s)\<lparr>ss_conns := ss_conns s @
        map (\<lambda>ci. TCPConnection_new C (ci_fd ci) (ci_name ci)) (drop (length (srv_conns (ss_tcp s))) (srv_conns srv)),
      ss_todo := ss_todo s @ drop (length (io_tasks (ss_tcp s))) (io_tasks srv)\<rparr>"
    using ss_inv_wired(2) [OF inv] by (auto simp: ss_accept_def bind_eq_Some_conv Let_def)
  have srv_inv: "server_inv n name cls k srv"
    using inv server_inv_accept [OF _ acc srv] by (simp add: ss_inv_def)
  have old: "server_inv n name cls k (ss_tcp s)" "length (srv_conns (ss_tcp s)) = ?m" using inv by (simp_all add: ss_inv_def)
  have idx: "next_thread_idx (io_thread_pool (ss_tcp s)) = ?m mod n" and cls: "?m \<notin> set cls"
    using old by (auto simp: server_inv_def)
  from srv [unfolded accept_result [OF acc(1,2)]] idx old(2) obtain nm where
    new: "srv_conns srv = srv_conns (ss_tcp s) @ [\<lparr>ci_loop = ?m mod n, ci_fd = fd, ci_name = nm, ci_create = True, ci_close = True, ci_read = True\<rparr>]"
      "io_tasks srv = io_tasks (ss_tcp s) @ [(?m mod n, ?m)]" "createCallback srv = createCallback (ss_tcp s)"
      "srv_readCallback srv = srv_readCallback (ss_tcp s)" by auto
  have s'_conns: "ss_conns s' = ss_conns s @ [TCPConnection_new C fd nm]" "ss_todo s' = ss_todo s @ [(?m mod n, ?m)]" "ss_tcp s' = srv"
    using s' new by (simp_all add: with_tcp_def)
  have st: "conn_status (TCPConnection_new C fd nm) = kConnecting" by (simp add: TCPConnection_new_def)
  show ?thesis
    using inv srv_inv new cls http_conn_new [of C fd nm] st old(2)
    unfolding ss_inv_def s'_conns by (auto simp: nth_append less_Suc_eq)
qed

lemma ss_inv_create:
  assumes inv: "ss_inv C n name cls k s" and run: "ss_create e l s = Some s'"
  shows "ss_inv C n name cls k s'"
proof -
  from run obtain l' i c c' where f: "find (\<lambda>(l', i). l' = l) (ss_todo s) = Some (l', i)" and c: "vec_at (ss_conns s) i = Some c"
    and h: "handleCreate e (ss_on_create i s) c = Some c'"
    and s': "s' = s\<lparr>ss_conns := (ss_conns s)[i := c'], ss_todo := remove1 (l, i) (ss_todo s)\<rparr>"
    by (auto simp: ss_create_def bind_eq_Some_conv split: option.splits prod.splits)
  have in_todo: "(l, i) \<in> set (ss_todo s)" using f by (auto simp: find_Some_iff) (metis nth_mem)
  note i = ss_inv_todo [OF inv this]
  have ci: "c = ss_conns s ! i" using c i(1) by (simp add: vec_at_def)
  have hc: "http_conn C c" using inv i(1) ci by (simp add: ss_inv_def list_all_length)
  have on: "ss_on_create i s = connectionOnCreate"
    using inv ss_inv_wired(1) [OF inv i(1)] by (simp add: ss_inv_def ss_on_create_def)
  note c' = http_conn_create [OF hc _ h [unfolded on], folded ci]
  have "i \<notin> set cls" using inv i by (auto simp: ss_inv_def)
  then show ?thesis
    using inv c' i ci unfolding ss_inv_def s'
    by (auto simp: nth_list_update list_all_length)
qed

lemma ss_inv_erase:
  assumes inv: "ss_inv C n name cls k s" and run: "ss_erase s = Some s'"
  shows "ss_inv C n name cls (Suc k) s'"
proof -
  from run obtain srv where srv: "run_erase (ss_tcp s) = Some srv" "s' = with_tcp srv s" by (auto simp: ss_erase_def)
  then have "createCallback srv = createCallback (ss_tcp s)" "srv_readCallback srv = srv_readCallback (ss_tcp s)"
    "srv_conns srv = srv_conns (ss_tcp s)"
    by (auto simp: run_erase_def split: list.splits)
  with inv srv server_inv_erase [OF _ srv(1)] show ?thesis by (simp add: ss_inv_def with_tcp_def)
qed

context conn_buffers
begin

lemma ss_inv_event:
  assumes inv: "ss_inv C n name cls k s" and ev: "env_ok e" "vec_at (ss_conns s) i = Some c" "poll_view (conn_trace c) None = Some known"
    "revents AND POLLOUT \<noteq> 0 \<longrightarrow> known AND POLLOUT \<noteq> 0" and run: "ss_event C E e i revents s = Some s'"
  shows "\<exists>cls'. ss_inv C n name cls' k s'"
proof -
  have i: "i < length (ss_conns s)" "c = ss_conns s ! i" using ev(2) by (auto simp: vec_at_def split: if_splits)
  note wired = ss_inv_wired(1) [OF inv i(1)]
  then have on: "ss_on_read C i s e = http_read C e" "ss_on_close i s = connectionCloseCallback i (ss_tcp s)"
    using inv by (simp_all add: ss_inv_def ss_on_read_def ss_on_close_def)
  from run ev(2) on obtain w c' srv where
    h: "conn_event C e (http_read C e) revents ((app_http (ss_app s), ss_env E i s), c) = Some (w, c')"
    and srv: "(if count_list (conn_trace c) CloseCallback < count_list (conn_trace c') CloseCallback
        then connectionCloseCallback i (ss_tcp s) else Some (ss_tcp s)) = Some srv"
    and s': "s' = s\<lparr>ss_app := \<lparr>app_tcp = srv, app_http = fst w\<rparr>, ss_conns := (ss_conns s)[i := c']\<rparr>"
    by (auto simp: ss_event_def bind_eq_Some_conv cong: if_cong)
  have hc: "http_conn C c" using inv i by (simp add: ss_inv_def list_all_length)
  have hc': "http_conn C c'" "conn_status c' \<noteq> kConnecting" by (rule http_conn_event [OF hc ev(1,3,4) h])+
  have st: "conn_status c \<noteq> kConnecting" "conn_status c \<noteq> kDisconnected" using http_watched [OF hc ev(3)] by simp_all
  then have cls: "i \<notin> set cls" using inv i by (auto simp: ss_inv_def)
  have closed: "count_list (conn_trace c) CloseCallback < count_list (conn_trace c') CloseCallback \<longleftrightarrow> conn_status c' = kDisconnected"
    using http_closes [OF hc] http_closes [OF hc'(1)] st by simp
  have same: "createCallback srv = 1" "srv_readCallback srv = 1" "srv_conns srv = srv_conns (ss_tcp s)"
    using srv inv by (auto simp: ss_inv_def connectionCloseCallback_def bind_eq_Some_conv split: if_splits)
  let ?cls = "if conn_status c' = kDisconnected then cls @ [i] else cls"
  have "server_inv n name ?cls k srv"
    using srv inv server_inv_close [OF _ cls, of n name k "ss_tcp s" srv] by (simp add: closed ss_inv_def split: if_splits)
  then have "ss_inv C n name ?cls k s'"
    using inv same hc' st cls i unfolding ss_inv_def s' by (auto simp: nth_list_update list_all_length)
  then show ?thesis by blast
qed

lemma ss_reach_inv:
  assumes "ss_reach C ntop E (ss_start cbs (EventLoopThreadPool_new tid fds own n) sock optval name use_cache) s"
    and "NUL \<notin> set name" and "0 < n"
  shows "\<exists>cls k. ss_inv C n name cls k s"
  using assms(1)
proof (induction rule: ss_reach.induct)
  case ss_started
  have "ss_inv C n name [] 0 (ss_start cbs (EventLoopThreadPool_new tid fds own n) sock optval name use_cache)"
    using assms(3)
    by (simp add: ss_inv_def ss_start_def HTTPServer_start_def callbacks_keep_tcp HTTPServer_construct_def server_inv_def named_by_number_def
        server_start_def setConnectionReadCallback_def setConnectionCreateCallback_def TCPServer_new_def Acceptor_setReadCallback_def
        acceptor_listen_def Let_def)
  then show ?case by blast
next
  case (ss_accepts s fd sa peer mem s')
  then obtain cls k where inv: "ss_inv C n name cls k s" by blast
  then have "server_name (ss_tcp s) = name" by (simp add: ss_inv_def server_inv_def)
  with ss_accepts ss_inv_accept [OF inv _ _ _ assms(2)] show ?case by metis
next
  case (ss_refuses s fd mem sa s')
  then show ?case using refuse_same by blast
next
  case (ss_creates s e l s')
  then show ?case using ss_inv_create by blast
next
  case (ss_events s e i c known revents s')
  then obtain cls k where "ss_inv C n name cls k s" by blast
  from ss_inv_event [OF this ss_events.hyps(2-6)] show ?case by blast
next
  case (ss_erases s s')
  then show ?case using ss_inv_erase by blast
qed

lemma ss_reach_consistent:
  assumes "ss_reach C ntop E (ss_start cbs (EventLoopThreadPool_new tid fds own n) sock optval name use_cache) s"
    and "NUL \<notin> set name" and "0 < n"
  shows "ss_consistent C n s" and "ss_todo s \<noteq> [] \<Longrightarrow> \<exists>s'. ss_create e (fst (hd (ss_todo s))) s = Some s'"
proof -
  obtain cls k where inv: "ss_inv C n name cls k s" using ss_reach_inv [OF assms] by blast
  then show "ss_consistent C n s" by (rule ss_inv_consistent)
  assume "ss_todo s \<noteq> []"
  then obtain i l todo where todo: "ss_todo s = (l, i) # todo" by (metis neq_Nil_conv surj_pair)
  with ss_inv_todo [OF inv, of l i] have i: "i < length (ss_conns s)" "conn_status (ss_conns s ! i) = kConnecting" by simp_all
  moreover have "createCallback (ss_tcp s) = 1" using inv by (simp add: ss_inv_def)
  moreover have "callback_set ci_create i s" using ss_inv_wired(1) [OF inv i(1)] by simp
  ultimately show "\<exists>s'. ss_create e (fst (hd (ss_todo s))) s = Some s'"
    by (simp add: ss_create_def todo vec_at_def handleCreate_def ss_on_create_def connectionOnCreate_def Let_def cpp_assert_def)
qed

end

section \<open>Properties\<close>

text \<open>
  C3: the whole server is consistent, whatever its clients, the kernel and the order of its threads do, and with either class of buffer. Each of its
  connections is an HTTP connection in a state that such a connection reaches on its own. A connection
  that waits to be created has one closure for it in the queue of its loop, and creating the first of them succeeds. A connection is in the table under its own
  name until it is erased; it is closed exactly when its name is queued for erasure or it has been erased, and the name is queued once: no open
  connection is ever dropped, and when the queue is empty the table holds the open connections and nothing else.
\<close>

theorem server_consistent:
  fixes s :: "('k, buffer) server_system" and t :: "('k, linked_buffer) server_system"
  assumes "NUL \<notin> set name" and "0 < n"
    and "ss_reach Buffer_type ntop E (ss_start cbs (EventLoopThreadPool_new tid fds own n) sock optval name use_cache) s"
    and "ss_reach LinkedBuffer_type ntop E (ss_start cbs (EventLoopThreadPool_new tid fds own n) sock optval name use_cache) t"
  shows "ss_consistent Buffer_type n s \<and> (ss_todo s \<noteq> [] \<longrightarrow> (\<exists>s'. ss_create e (fst (hd (ss_todo s))) s = Some s')) \<and>
    ss_consistent LinkedBuffer_type n t \<and> (ss_todo t \<noteq> [] \<longrightarrow> (\<exists>t'. ss_create e (fst (hd (ss_todo t))) t = Some t'))"
  using conn_buf.ss_reach_consistent [OF assms(3,1,2)] conn_linked.ss_reach_consistent [OF assms(4,1,2)] by blast

text \<open>A client that connects and hangs up: the connection is accepted, created, closed and erased.\<close>

definition wit_system :: "(unit, 'b) server_system" where
  "wit_system = ss_start [] (EventLoopThreadPool_new 0 int Suc 2) 3 1 ''10.0.0.1:80'' False"

definition wit_hangup_io :: io_env where
  "wit_hangup_io = \<lparr>io_ndebug = False, io_in_loop = True, io_readv = (\<lambda>_. SysErr), io_writev = (\<lambda>_. - 1)\<rparr>"

lemma wit_accepted:
  "\<exists>s nm. ss_accept Buffer_type wit_ntop wit_peer (5, wit_peer) wit_system = Some s \<and> ss_todo s = [(0, 0)] \<and>
     ss_conns s = [TCPConnection_new Buffer_type 5 nm] \<and> srv_conns (ss_tcp s) = [\<lparr>ci_loop = 0, ci_fd = 5, ci_name = nm, ci_create = True, ci_close = True, ci_read = True\<rparr>] \<and>
     main_tasks (ss_tcp s) = [] \<and> createCallback (ss_tcp s) = 1 \<and> srv_readCallback (ss_tcp s) = 1"
  by (auto simp: ss_accept_def wit_system_def ss_start_def HTTPServer_start_def HTTPServer_construct_def server_start_def
      setConnectionReadCallback_def setConnectionCreateCallback_def TCPServer_new_def i32_def with_tcp_def
      Acceptor_setReadCallback_def acceptor_listen_def Let_def
      accept_result [OF _ wit_peer_text, of 5, simplified] bind_eq_Some_conv)

definition wit_open :: "string \<Rightarrow> (buffer, http_context) tcp_connection" where
  "wit_open nm = (TCPConnection_new Buffer_type 5 nm)\<lparr>conn_channel := enableReading (Channel_new 5), conn_status := kConnected,
     conn_context := Some HTTPContext_new, conn_trace := [PollAdd kReadEvent]\<rparr>"

lemma wit_created_closed:
  assumes "ss_todo s = [(0, 0)]" "ss_conns s = [TCPConnection_new Buffer_type 5 nm]" "createCallback (ss_tcp s) = 1"
    "srv_readCallback (ss_tcp s) = 1" "srv_conns (ss_tcp s) = [\<lparr>ci_loop = 0, ci_fd = 5, ci_name = nm, ci_create = True, ci_close = True, ci_read = True\<rparr>]" "main_tasks (ss_tcp s) = []"
  shows "ss_create wit_hangup_io 0 s = Some (s\<lparr>ss_conns := [wit_open nm], ss_todo := []\<rparr>)"
    and "\<exists>s'. ss_event Buffer_type wit_env wit_hangup_io 0 POLLHUP (s\<lparr>ss_conns := [wit_open nm], ss_todo := []\<rparr>) = Some s' \<and>
      main_tasks (ss_tcp s') = [nm] \<and> srv_conns (ss_tcp s') = srv_conns (ss_tcp s) \<and> length (ss_conns s') = 1"
  using assms
  by (simp_all add: ss_create_def ss_event_def ss_on_create_def ss_on_read_def ss_on_close_def callback_set_def vec_at_def handleCreate_def connectionOnCreate_def
      setContext_def wit_open_def wit_hangup_io_def cpp_assert_def Let_def TCPConnection_new_def emit_def enableReading_def Channel_new_def
      kNoneEvent_def conn_event_def Channel_handleEvent_def call_if_def conn_callbacks_def set_revents_type_def cpp_consts
      handleClose_def connectionCloseCallback_def)

theorem server_consistent_witness:
  "\<exists>s nm. ss_reach Buffer_type wit_ntop wit_env wit_system s \<and> ss_consistent Buffer_type 2 s \<and> length (ss_conns s) = 1 \<and>
     conn_status (ss_conns s ! 0) = kDisconnected \<and> connections (ss_tcp s) nm = None \<and> ci_name (srv_conns (ss_tcp s) ! 0) = nm"
proof -
  obtain s nm where s: "ss_accept Buffer_type wit_ntop wit_peer (5, wit_peer) wit_system = Some s" "ss_todo s = [(0, 0)]"
    "ss_conns s = [TCPConnection_new Buffer_type 5 nm]" "createCallback (ss_tcp s) = 1" "srv_readCallback (ss_tcp s) = 1"
    "srv_conns (ss_tcp s) = [\<lparr>ci_loop = 0, ci_fd = 5, ci_name = nm, ci_create = True, ci_close = True, ci_read = True\<rparr>]" "main_tasks (ss_tcp s) = []"
    using wit_accepted by blast
  let ?s = "s\<lparr>ss_conns := [wit_open nm], ss_todo := []\<rparr>"
  obtain s1 where s1: "ss_event Buffer_type wit_env wit_hangup_io 0 POLLHUP ?s = Some s1" "main_tasks (ss_tcp s1) = [nm]"
    "srv_conns (ss_tcp s1) = srv_conns (ss_tcp s)" "length (ss_conns s1) = 1"
    using wit_created_closed(2) [OF s(2-7)] by blast
  then obtain s2 where s2: "ss_erase s1 = Some s2" "ss_conns s2 = ss_conns s1" "srv_conns (ss_tcp s2) = srv_conns (ss_tcp s1)"
    "connections (ss_tcp s2) nm = None"
    by (auto simp: ss_erase_def run_erase_def with_tcp_def)
  have len: "length ''1.2.3.4:0'' + length (server_name (ss_tcp (wit_system :: (unit, buffer) server_system))) \<le> 49"
    by (simp add: wit_system_def ss_start_def HTTPServer_start_def HTTPServer_construct_def server_start_def
        setConnectionReadCallback_def setConnectionCreateCallback_def TCPServer_new_def)
  have "ss_reach Buffer_type wit_ntop wit_env wit_system s"
    by (rule ss_accepts [OF ss_started _ wit_peer_text _ len s(1)]) simp_all
  then have "ss_reach Buffer_type wit_ntop wit_env wit_system ?s"
    by (rule ss_creates [OF _ wit_created_closed(1) [OF s(2-7)]])
  then have "ss_reach Buffer_type wit_ntop wit_env wit_system s1"
  proof (rule ss_events [OF _ _ _ _ _ s1(1)])
    show "env_ok wit_hangup_io" by (simp add: env_ok_def wit_hangup_io_def readv_contract_def writev_contract_def)
    show "vec_at (ss_conns ?s) 0 = Some (wit_open nm)" by (simp add: vec_at_def)
    show "poll_view (conn_trace (wit_open nm)) None = Some kReadEvent" by (simp add: wit_open_def)
  qed (simp add: POLLHUP_def POLLOUT_def)
  then have r: "ss_reach Buffer_type wit_ntop wit_env wit_system s2" by (rule ss_erases [OF _ s2(1)])
  from server_consistent [of "''10.0.0.1:80''" 2 wit_ntop wit_env "[]" 0 int Suc 3 1 False s2, folded wit_system_def, OF _ _ r ss_started]
  have "ss_consistent Buffer_type 2 s2" by simp
  then show ?thesis using r s2(2-4) s1(3,4) s(6) by (auto simp: ss_consistent_def Let_def intro!: exI [of _ s2])
qed

end
