(* ===== verification/Shared_Cache.thy ===== *)
theory Shared_Cache
  imports Http_Server
begin

text \<open>
  The cache under several threads: \<open>SpinLock\<close> (\<open>srcs/net/server/http/http_server.h\<close>) and the section of
  \<open>connectionOnRead\<close> (\<open>http_server.cc\<close>) it guards. Each loop of the pool runs in its own thread and may be anywhere in that
  section: between two steps of one thread others may take steps. The operations on the atomic flag are
  single steps; a look into the cache, a call of the handler and the storing of a response are steps of their
  own.
\<close>

section \<open>The lock\<close>

text \<open>\<open>test_and_set\<close> gives the old value of the flag and sets it.\<close>

definition test_and_set :: "bool \<Rightarrow> bool \<times> bool" where
  "test_and_set lck = (lck, True)"

definition SpinLock_unlock :: "bool \<Rightarrow> bool" where
  "SpinLock_unlock lck = False"

section \<open>The guarded section\<close>

text \<open>What a thread wants from the cache: a response to a request of its connection, made by a handler if need be.\<close>

type_synonym cache_use = "http_env \<times> handler \<times> http_request"

datatype cache_pc =
    Away
  | Spinning cache_use
  | Holding cache_use
  | Missed cache_use
  | Made cache_use nat
  | Finished cache_use nat

text \<open>\<open>uses\<close> is a history: the completed uses with the response each got, in the order of release.\<close>

record cache_system =
  lck :: bool
  shared :: http_server
  at :: "nat \<Rightarrow> cache_pc"
  uses :: "(cache_use \<times> nat) list"

definition cache_system_new :: "http_server \<Rightarrow> cache_system" where
  "cache_system_new srv = \<lparr>lck = False, shared = srv, at = (\<lambda>_. Away), uses = []\<rparr>"

definition lookup_in :: "cache_use \<Rightarrow> http_server \<Rightarrow> (nat option \<times> http_server) option" where
  "lookup_in u srv =
     (case u of (E, cb, req) \<Rightarrow>
        do { (hit, ca) \<leftarrow> getRespCache (request_hash E req) (he_self E) (srv_cache srv); Some (hit, srv\<lparr>srv_cache := ca\<rparr>) })"

definition store_in :: "cache_use \<Rightarrow> nat \<Rightarrow> http_server \<Rightarrow> http_server option" where
  "store_in u p srv =
     (case u of (E, cb, req) \<Rightarrow>
        do { ca \<leftarrow> addRespCache (request_hash E req) (he_self E) p (srv_cache srv); Some (srv\<lparr>srv_cache := ca\<rparr>) })"

inductive cache_step :: "cache_system \<Rightarrow> cache_system \<Rightarrow> bool" where
  step_arrive: "at s t = Away \<Longrightarrow> cache_step s (s\<lparr>at := (at s)(t := Spinning u)\<rparr>)"
| step_spin: "at s t = Spinning u \<Longrightarrow> test_and_set (lck s) = (True, l) \<Longrightarrow> cache_step s (s\<lparr>lck := l\<rparr>)"
| step_acquire: "at s t = Spinning u \<Longrightarrow> test_and_set (lck s) = (False, l) \<Longrightarrow>
    cache_step s (s\<lparr>lck := l, at := (at s)(t := Holding u)\<rparr>)"
| step_hit: "at s t = Holding u \<Longrightarrow> lookup_in u (shared s) = Some (Some p, srv) \<Longrightarrow>
    cache_step s (s\<lparr>shared := srv, at := (at s)(t := Finished u p)\<rparr>)"
| step_miss: "at s t = Holding u \<Longrightarrow> lookup_in u (shared s) = Some (None, srv) \<Longrightarrow>
    cache_step s (s\<lparr>shared := srv, at := (at s)(t := Missed u)\<rparr>)"
| step_make: "at s t = Missed u \<Longrightarrow> u = (E, cb, req) \<Longrightarrow> make_response cb req (shared s) = (p, srv) \<Longrightarrow>
    cache_step s (s\<lparr>shared := srv, at := (at s)(t := Made u p)\<rparr>)"
| step_store: "at s t = Made u p \<Longrightarrow> store_in u p (shared s) = Some srv \<Longrightarrow>
    cache_step s (s\<lparr>shared := srv, at := (at s)(t := Finished u p)\<rparr>)"
| step_release: "at s t = Finished u p \<Longrightarrow>
    cache_step s (s\<lparr>lck := SpinLock_unlock (lck s), at := (at s)(t := Away), uses := uses s @ [(u, p)]\<rparr>)"

abbreviation cache_reach :: "http_server \<Rightarrow> cache_system \<Rightarrow> bool" where
  "cache_reach srv \<equiv> cache_step\<^sup>*\<^sup>* (cache_system_new srv)"

section \<open>One use after the other\<close>

text \<open>The same uses without interleaving: each is one call of \<open>find_response\<close>.\<close>

fun serve_in_turn :: "(cache_use \<times> nat) list \<Rightarrow> http_server \<Rightarrow> http_server option" where
  "serve_in_turn [] srv = Some srv"
| "serve_in_turn (((E, cb, req), p) # us) srv =
     do { (q, srv1) \<leftarrow> find_response E cb req srv; if q = p then serve_in_turn us srv1 else None }"

lemma serve_in_turn_append: "serve_in_turn (us @ vs) srv = serve_in_turn us srv \<bind> serve_in_turn vs"
proof (induction us srv rule: serve_in_turn.induct)
  case (2 E cb req p us srv)
  then show ?case by (cases "find_response E cb req srv") auto
qed simp

fun inside :: "cache_pc \<Rightarrow> bool" where
  "inside Away = False"
| "inside (Spinning u) = False"
| "inside _ = True"

text \<open>
  \<open>in_progress base pc srv\<close>: a use that found the server as \<open>base\<close> and has come to \<open>pc\<close> has made \<open>srv\<close> of it.
\<close>

fun in_progress :: "http_server \<Rightarrow> cache_pc \<Rightarrow> http_server \<Rightarrow> bool" where
  "in_progress base (Holding u) srv = (srv = base)"
| "in_progress base (Missed u) srv = (lookup_in u base = Some (None, srv))"
| "in_progress base (Made (E, cb, req) p) srv =
     (\<exists>srv1. lookup_in (E, cb, req) base = Some (None, srv1) \<and> make_response cb req srv1 = (p, srv))"
| "in_progress base (Finished (E, cb, req) p) srv = (find_response E cb req base = Some (p, srv))"
| "in_progress base _ srv = False"

definition cache_sys_inv :: "http_server \<Rightarrow> cache_system \<Rightarrow> bool" where
  "cache_sys_inv srv0 s \<longleftrightarrow>
     (\<exists>base. serve_in_turn (uses s) srv0 = Some base \<and> kUseRespCache base \<and>
        (if lck s then \<exists>t. (\<forall>u. inside (at s u) \<longleftrightarrow> u = t) \<and> in_progress base (at s t) (shared s)
         else (\<forall>u. \<not> inside (at s u)) \<and> shared s = base))"

lemma find_response_steps:
  assumes "kUseRespCache srv"
  shows "find_response E cb req srv =
    do {
      (hit, srv1) \<leftarrow> lookup_in (E, cb, req) srv;
      (case hit of
         Some p \<Rightarrow> Some (p, srv1)
       | None \<Rightarrow> do {
           let (p, srv2) = make_response cb req srv1;
           srv3 \<leftarrow> store_in (E, cb, req) p srv2;
           Some (p, srv3)
         })
    }"
  using assms
  by (cases "getRespCache (request_hash E req) (he_self E) (srv_cache srv)")
    (auto simp: find_response_def lookup_in_def store_in_def make_response_def Let_def split: option.split)

lemma find_response_use_cache: "find_response E cb req srv = Some (p, srv') \<Longrightarrow> kUseRespCache srv' = kUseRespCache srv"
proof (cases "kUseRespCache srv")
  case True
  assume "find_response E cb req srv = Some (p, srv')"
  then show ?thesis
    unfolding find_response_steps [OF True]
    by (auto simp: lookup_in_def store_in_def make_response_def Let_def split: bind_splits option.split_asm)
qed (auto simp: find_response_def make_response_def)

lemma not_locked:
  assumes "cache_sys_inv srv0 s" and "\<not> lck s"
  obtains base where "serve_in_turn (uses s) srv0 = Some base" "kUseRespCache base" "\<And>u. \<not> inside (at s u)" "shared s = base"
  using assms by (auto simp: cache_sys_inv_def)

lemma the_holder:
  assumes "cache_sys_inv srv0 s" and "inside (at s t)"
  obtains base where "serve_in_turn (uses s) srv0 = Some base" "kUseRespCache base" "lck s"
    "\<And>u. inside (at s u) \<longleftrightarrow> u = t" "in_progress base (at s t) (shared s)"
proof -
  obtain base where b: "serve_in_turn (uses s) srv0 = Some base" "kUseRespCache base"
    "if lck s then \<exists>t. (\<forall>u. inside (at s u) \<longleftrightarrow> u = t) \<and> in_progress base (at s t) (shared s)
     else (\<forall>u. \<not> inside (at s u)) \<and> shared s = base"
    using assms(1) unfolding cache_sys_inv_def by blast
  then have l: "lck s" using assms(2) by (auto split: if_splits)
  with b(3) obtain t' where t': "\<forall>u. inside (at s u) \<longleftrightarrow> u = t'" "in_progress base (at s t') (shared s)" by auto
  moreover from this assms(2) have "t' = t" by simp
  ultimately show ?thesis using b(1,2) l by (intro that) simp_all
qed

text \<open>A step of the holder that stays inside.\<close>

lemma holder_moves:
  assumes "cache_sys_inv srv0 s" and "inside (at s t)" and "inside pc"
    and "\<And>base. kUseRespCache base \<Longrightarrow> in_progress base (at s t) (shared s) \<Longrightarrow> in_progress base pc srv"
  shows "cache_sys_inv srv0 (s\<lparr>shared := srv, at := (at s)(t := pc)\<rparr>)"
proof (rule the_holder [OF assms(1,2)])
  fix base
  assume b: "serve_in_turn (uses s) srv0 = Some base" "kUseRespCache base" "lck s"
    "\<And>u. inside (at s u) \<longleftrightarrow> u = t" "in_progress base (at s t) (shared s)"
  with assms(3) assms(4) [OF b(2,5)] show ?thesis
    unfolding cache_sys_inv_def by (intro exI [of _ base]) (auto intro!: exI [of _ t])
qed

lemma cache_sys_inv_step:
  assumes "cache_step s s'" and "cache_sys_inv srv0 s"
  shows "cache_sys_inv srv0 s'"
  using assms(1)
proof cases
  case (step_arrive t u)
  have same: "inside (at s' v) = inside (at s v)" "inside (at s v) \<Longrightarrow> at s' v = at s v" for v using step_arrive by auto
  have eq: "uses s' = uses s" "lck s' = lck s" "shared s' = shared s" using step_arrive(1) by simp_all
  show ?thesis
  proof (cases "lck s")
    case False
    then show ?thesis using not_locked [OF assms(2)] unfolding cache_sys_inv_def eq same by auto
  next
    case True
    with assms(2) obtain v where v: "inside (at s v)" unfolding cache_sys_inv_def by auto
    show ?thesis
      by (rule the_holder [OF assms(2) v])
        (use True same(2) [OF v] in \<open>auto simp: cache_sys_inv_def eq same(1)\<close>)
  qed
next
  case (step_spin t u l)
  then have "lck s" "l" by (simp_all add: test_and_set_def)
  then have "s\<lparr>lck := l\<rparr> = s" by simp
  with step_spin(1) assms(2) show ?thesis by simp
next
  case (step_acquire t u l)
  then have "\<not> lck s" "l" by (simp_all add: test_and_set_def)
  from not_locked [OF assms(2) this(1)] obtain base where
    "serve_in_turn (uses s) srv0 = Some base" "kUseRespCache base" "\<And>u. \<not> inside (at s u)" "shared s = base" by blast
  with step_acquire(1) \<open>l\<close> show ?thesis
    unfolding cache_sys_inv_def by (intro exI [of _ base]) (auto intro!: exI [of _ t])
next
  case (step_hit t u p srv)
  obtain E cb req where u: "u = (E, cb, req)" by (cases u)
  show ?thesis
    unfolding step_hit(1) using step_hit(2,3)
    by (intro holder_moves [OF assms(2)]) (auto simp: u find_response_steps)
next
  case (step_miss t u srv)
  show ?thesis
    unfolding step_miss(1) using step_miss(2,3) by (intro holder_moves [OF assms(2)]) auto
next
  case (step_make t u E cb req p srv)
  show ?thesis
    unfolding step_make(1) using step_make(2-4) by (intro holder_moves [OF assms(2)]) auto
next
  case (step_store t u p srv)
  obtain E cb req where u: "u = (E, cb, req)" by (cases u)
  show ?thesis
    unfolding step_store(1) using step_store(2,3)
    by (intro holder_moves [OF assms(2)]) (auto simp: u find_response_steps)
next
  case (step_release t u p)
  obtain E cb req where u: "u = (E, cb, req)" by (cases u)
  have "inside (at s t)" using step_release(2) by simp
  from the_holder [OF assms(2) this] obtain base where b: "serve_in_turn (uses s) srv0 = Some base" "kUseRespCache base"
    "\<And>v. inside (at s v) \<longleftrightarrow> v = t" "in_progress base (at s t) (shared s)" by blast
  then have "find_response E cb req base = Some (p, shared s)" using step_release(2) u by simp
  then have "serve_in_turn (uses s @ [(u, p)]) srv0 = Some (shared s)" "kUseRespCache (shared s)"
    using b(1,2) u find_response_use_cache [of E cb req base p] by (simp_all add: serve_in_turn_append)
  with b(3) show ?thesis unfolding step_release(1) cache_sys_inv_def by (auto simp: SpinLock_unlock_def)
qed

lemma cache_reach_inv:
  assumes "cache_reach srv0 s" and "kUseRespCache srv0"
  shows "cache_sys_inv srv0 s"
  using assms(1)
proof (induction rule: rtranclp_induct)
  case base
  show ?case using assms(2) by (simp add: cache_sys_inv_def cache_system_new_def)
next
  case (step s s')
  show ?case by (rule cache_sys_inv_step [OF step.hyps(2) step.IH])
qed

section \<open>Properties\<close>


text \<open>Two threads want the same page; the first is inside, the second spins.\<close>

definition wit_use :: cache_use where
  "wit_use = (wit_env, wit_handler, HTTPRequest_new)"

definition wit_contended :: cache_system where
  "wit_contended = \<lparr>lck = True, shared = HTTPServer_new True, at = (\<lambda>_. Away)(0 := Holding wit_use, 1 := Spinning wit_use), uses = []\<rparr>"

lemma wit_contended_reach: "cache_reach (HTTPServer_new True) wit_contended"
proof -
  let ?s0 = "cache_system_new (HTTPServer_new True)"
  let ?s1 = "?s0\<lparr>at := (at ?s0)(0 := Spinning wit_use)\<rparr>"
  let ?s2 = "?s1\<lparr>at := (at ?s1)(1 := Spinning wit_use)\<rparr>"
  let ?s3 = "?s2\<lparr>lck := True, at := (at ?s2)(0 := Holding wit_use)\<rparr>"
  have "cache_step ?s0 ?s1" by (rule step_arrive) (simp add: cache_system_new_def)
  moreover have "cache_step ?s1 ?s2" by (rule step_arrive) (simp add: cache_system_new_def)
  moreover have "cache_step ?s2 ?s3" by (rule step_acquire) (simp_all add: cache_system_new_def test_and_set_def)
  moreover have "?s3 = wit_contended" by (simp add: wit_contended_def cache_system_new_def fun_eq_iff)
  ultimately show ?thesis by (metis (no_types, lifting) rtranclp.rtrancl_into_rtrancl rtranclp.rtrancl_refl)
qed


end
