(* ===== verification/Poller.thy ===== *)
theory Poller
  imports Channel
begin

text \<open>
  \<open>net::EpollPoller\<close> (\<open>srcs/net/poller/poller.h\<close>, \<open>epoll_poller.h\<close>, \<open>epoll_poller.cc\<close>): the map
  from file descriptors to channels, the registration of channels with the kernel, and one
  poll. Channel objects live in a store and a \<open>ChannelPtr\<close> is their address there.

  The kernel is outside. The requests made of it are recorded in \<open>ctl_calls\<close>, in order, each with
  its result, which the code only logs; \<open>interest\<close> reads off them what the kernel watches, as
  documented of \<open>epoll_ctl\<close>. The result of \<open>epoll_wait\<close> is a parameter: \<open>None\<close> for an error, else the
  reported descriptors with their events. The assertions of the three registration methods are
  compiled only where \<open>NDEBUG\<close> is defined, which turns \<open>assert\<close> off: they never check anything.
\<close>

section \<open>State\<close>

datatype ctl_op = EPOLL_CTL_ADD | EPOLL_CTL_MOD | EPOLL_CTL_DEL

type_synonym ctl_call = "ctl_op \<times> int \<times> 32 word \<times> bool"

type_synonym sys_epoll_ctl = "ctl_op \<Rightarrow> int \<Rightarrow> 32 word \<Rightarrow> bool"

type_synonym sys_epoll_wait = "nat \<Rightarrow> (int \<times> 32 word) list option"

record poller =
  fd2channels :: "int \<rightharpoonup> nat"
  active_channels :: "nat list"
  num_event_slots :: nat
  ctl_calls :: "ctl_call list"

type_synonym channel_store = "nat \<rightharpoonup> channel"

definition kInitNumberOfEvents :: nat where
  [cpp_consts]: "kInitNumberOfEvents = 16"

definition EpollPoller_new :: poller where
  "EpollPoller_new = \<lparr>fd2channels = Map.empty, active_channels = [], num_event_slots = kInitNumberOfEvents, ctl_calls = []\<rparr>"

section \<open>Operations\<close>

definition epollCtlWrapper :: "sys_epoll_ctl \<Rightarrow> channel \<Rightarrow> ctl_op \<Rightarrow> poller \<Rightarrow> poller" where
  "epollCtlWrapper ctl ch op p =
     (let fd = ch_fd ch; ev = ucast (events_type ch) :: 32 word in
      p\<lparr>ctl_calls := ctl_calls p @ [(op, fd, ev, ctl op fd ev)]\<rparr>)"

definition addChannel :: "sys_epoll_ctl \<Rightarrow> channel_store \<Rightarrow> nat \<Rightarrow> poller \<Rightarrow> poller option" where
  "addChannel ctl store ptr p =
     do {
       ch \<leftarrow> store ptr;
       let p1 = epollCtlWrapper ctl ch EPOLL_CTL_ADD p;
       Some (p1\<lparr>fd2channels := (fd2channels p1)(ch_fd ch \<mapsto> ptr)\<rparr>)
     }"

definition updateChannel :: "sys_epoll_ctl \<Rightarrow> channel_store \<Rightarrow> nat \<Rightarrow> poller \<Rightarrow> poller option" where
  "updateChannel ctl store ptr p =
     do {
       ch \<leftarrow> store ptr;
       Some (epollCtlWrapper ctl ch EPOLL_CTL_MOD p)
     }"

definition removeChannel :: "sys_epoll_ctl \<Rightarrow> channel_store \<Rightarrow> nat \<Rightarrow> poller \<Rightarrow> poller option" where
  "removeChannel ctl store ptr p =
     do {
       ch \<leftarrow> store ptr;
       let p1 = epollCtlWrapper ctl ch EPOLL_CTL_DEL p;
       Some (p1\<lparr>fd2channels := (fd2channels p1)(ch_fd ch := None)\<rparr>)
     }"

text \<open>
  The loop of \<open>poll\<close> over the reported events. A descriptor without a channel gives a null
  pointer, whose use is undefined.
\<close>

fun dispatch :: "(int \<times> 32 word) list \<Rightarrow> channel_store \<Rightarrow> poller \<Rightarrow> (channel_store \<times> poller) option" where
  "dispatch [] store p = Some (store, p)"
| "dispatch ((fd, ev) # evs) store p =
     do {
       ptr \<leftarrow> fd2channels p fd;
       ch \<leftarrow> store ptr;
       dispatch evs (store(ptr \<mapsto> set_revents_type (ucast ev) ch)) (p\<lparr>active_channels := active_channels p @ [ptr]\<rparr>)
     }"

definition poll :: "sys_epoll_wait \<Rightarrow> channel_store \<Rightarrow> poller \<Rightarrow> (int \<times> channel_store \<times> poller) option" where
  "poll wait store p =
     (let p0 = p\<lparr>active_channels := []\<rparr> in
      case wait (num_event_slots p0) of
        None \<Rightarrow> Some (- 1, store, p0)
      | Some evs \<Rightarrow>
          do {
            let p1 = (if length evs = num_event_slots p0 then p0\<lparr>num_event_slots := num_event_slots p0 * 2\<rparr> else p0);
            (store', p2) \<leftarrow> dispatch evs store p1;
            Some (int (length evs), store', p2)
          })"

section \<open>What the kernel watches\<close>

text \<open>
  A request that fails changes nothing; one that succeeds adds, changes or deletes the
  interest in a descriptor.
\<close>

fun interest :: "ctl_call list \<Rightarrow> (int \<rightharpoonup> 32 word) \<Rightarrow> (int \<rightharpoonup> 32 word)" where
  "interest [] w = w"
| "interest ((op, fd, ev, ok) # cs) w =
     interest cs (if \<not> ok then w
                  else case op of EPOLL_CTL_ADD \<Rightarrow> w(fd \<mapsto> ev) | EPOLL_CTL_MOD \<Rightarrow> w(fd \<mapsto> ev) | EPOLL_CTL_DEL \<Rightarrow> w(fd := None))"

abbreviation watched :: "poller \<Rightarrow> int \<rightharpoonup> 32 word" where
  "watched p \<equiv> interest (ctl_calls p) Map.empty"

text \<open>
  Documented behaviour of the kernel: adding a descriptor that is not watched, and changing
  or deleting one that is, succeeds; a wait fills at most the slots it is given, with watched
  descriptors, each once, and events that were asked for or are always reported
  (\<open>EPOLLERR\<close>, \<open>EPOLLHUP\<close>).
\<close>

definition ctl_contract :: "sys_epoll_ctl \<Rightarrow> (int \<rightharpoonup> 32 word) \<Rightarrow> bool" where
  "ctl_contract ctl w \<longleftrightarrow>
     (\<forall>fd ev. (w fd = None \<longrightarrow> ctl EPOLL_CTL_ADD fd ev) \<and>
        (w fd \<noteq> None \<longrightarrow> ctl EPOLL_CTL_MOD fd ev \<and> ctl EPOLL_CTL_DEL fd ev))"

definition wait_contract :: "sys_epoll_wait \<Rightarrow> (int \<rightharpoonup> 32 word) \<Rightarrow> bool" where
  "wait_contract wait w \<longleftrightarrow>
     (\<forall>n evs. wait n = Some evs \<longrightarrow> length evs \<le> n \<and> distinct (map fst evs) \<and> fst ` set evs \<subseteq> dom w)"

section \<open>The abstract registry\<close>

text \<open>
  What the poller promises: a finite map from descriptors to a channel and its events.
  Invariantly the map of the code and the interest of the kernel are the same
  registry, channels carry the descriptor they are registered under, and the number of slots
  is positive.
\<close>

definition poller_inv :: "channel_store \<Rightarrow> poller \<Rightarrow> bool" where
  "poller_inv store p \<longleftrightarrow>
     dom (fd2channels p) = dom (watched p) \<and>
     (\<forall>fd ptr. fd2channels p fd = Some ptr \<longrightarrow> (\<exists>ch. store ptr = Some ch \<and> ch_fd ch = fd)) \<and>
     0 < num_event_slots p"

definition registry :: "poller \<Rightarrow> int \<rightharpoonup> nat \<times> 32 word" where
  "registry p fd =
     do { ptr \<leftarrow> fd2channels p fd; ev \<leftarrow> watched p fd; Some (ptr, ev) }"

lemma interest_append: "interest (cs @ ds) w = interest ds (interest cs w)"
  by (induction cs w rule: interest.induct) simp_all

lemma ctl_simps [simp]:
  "fd2channels (epollCtlWrapper ctl ch op p) = fd2channels p"
  "num_event_slots (epollCtlWrapper ctl ch op p) = num_event_slots p"
  "active_channels (epollCtlWrapper ctl ch op p) = active_channels p"
  by (simp_all add: epollCtlWrapper_def Let_def)

lemma watched_ctl:
  "watched (epollCtlWrapper ctl ch op p) =
     (if \<not> ctl op (ch_fd ch) (ucast (events_type ch)) then watched p
      else if op = EPOLL_CTL_DEL then (watched p)(ch_fd ch := None) else (watched p)(ch_fd ch \<mapsto> ucast (events_type ch)))"
  by (cases op) (simp_all add: epollCtlWrapper_def Let_def interest_append)

lemma ctl_calls_simps [simp]:
  "ctl_calls (p\<lparr>fd2channels := m\<rparr>) = ctl_calls p" "ctl_calls (p\<lparr>active_channels := a\<rparr>) = ctl_calls p"
  "ctl_calls (p\<lparr>num_event_slots := k\<rparr>) = ctl_calls p"
  by simp_all

lemma poller_inv_new: "poller_inv store EpollPoller_new"
  by (simp add: poller_inv_def EpollPoller_new_def kInitNumberOfEvents_def)

lemma watched_iff: "poller_inv store p \<Longrightarrow> watched p fd = None \<longleftrightarrow> fd2channels p fd = None"
  unfolding poller_inv_def by (metis domIff)

lemma registry_None: "poller_inv store p \<Longrightarrow> registry p fd = None \<longleftrightarrow> fd2channels p fd = None"
  using watched_iff [of store p fd] by (cases "fd2channels p fd"; cases "watched p fd") (simp_all add: registry_def)

lemma registry_Some: "poller_inv store p \<Longrightarrow> fd2channels p fd = Some ptr \<Longrightarrow> \<exists>ev. registry p fd = Some (ptr, ev)"
  using watched_iff [of store p fd] by (cases "fd2channels p fd"; cases "watched p fd") (simp_all add: registry_def)

lemma registry_same: "fd2channels q = fd2channels p \<Longrightarrow> ctl_calls q = ctl_calls p \<Longrightarrow> registry q = registry p"
  unfolding registry_def by simp

lemma addChannel_registry:
  assumes "poller_inv store p" and "ctl_contract ctl (watched p)" and "store ptr = Some ch" and "registry p (ch_fd ch) = None"
  shows "\<exists>p'. addChannel ctl store ptr p = Some p' \<and> poller_inv store p' \<and>
    registry p' = (registry p)(ch_fd ch \<mapsto> (ptr, ucast (events_type ch)))"
proof -
  have n: "watched p (ch_fd ch) = None" using assms(1,4) by (simp add: registry_None watched_iff)
  then have ok: "ctl EPOLL_CTL_ADD (ch_fd ch) ev" for ev using assms(2) by (simp add: ctl_contract_def)
  show ?thesis
    using assms(1,3)
    by (auto simp: addChannel_def watched_ctl ok poller_inv_def registry_def fun_eq_iff)
qed

lemma updateChannel_registry:
  assumes "poller_inv store p" and "ctl_contract ctl (watched p)" and "store ptr = Some ch" and "fd2channels p (ch_fd ch) = Some ptr"
  shows "\<exists>p'. updateChannel ctl store ptr p = Some p' \<and> poller_inv store p' \<and>
    registry p' = (registry p)(ch_fd ch \<mapsto> (ptr, ucast (events_type ch)))"
proof -
  have "watched p (ch_fd ch) \<noteq> None" using assms(1,4) by (simp add: watched_iff)
  then have ok: "ctl EPOLL_CTL_MOD (ch_fd ch) ev" for ev using assms(2) by (simp add: ctl_contract_def)
  have "insert (ch_fd ch) (dom (fd2channels p)) = dom (fd2channels p)" using assms(4) by auto
  then show ?thesis
    using assms(1,3,4)
    by (auto simp: updateChannel_def watched_ctl ok poller_inv_def registry_def fun_eq_iff)
qed

lemma removeChannel_registry:
  assumes "poller_inv store p" and "ctl_contract ctl (watched p)" and "store ptr = Some ch" and "fd2channels p (ch_fd ch) = Some ptr"
  shows "\<exists>p'. removeChannel ctl store ptr p = Some p' \<and> poller_inv store p' \<and> registry p' = (registry p)(ch_fd ch := None)"
proof -
  have "watched p (ch_fd ch) \<noteq> None" using assms(1,4) by (simp add: watched_iff)
  then have ok: "ctl EPOLL_CTL_DEL (ch_fd ch) ev" for ev using assms(2) by (simp add: ctl_contract_def)
  show ?thesis
    using assms(1,3)
    by (auto simp: removeChannel_def watched_ctl ok poller_inv_def registry_def fun_eq_iff)
qed

section \<open>Polling\<close>

text \<open>What a poll leaves in a channel object: the reported events, if it is registered and was reported.\<close>

definition reported :: "(int \<times> 32 word) list \<Rightarrow> poller \<Rightarrow> nat \<Rightarrow> channel \<Rightarrow> channel" where
  "reported evs p ptr ch =
     (case map_of evs (ch_fd ch) of
        Some ev \<Rightarrow> if fd2channels p (ch_fd ch) = Some ptr then set_revents_type (ucast ev) ch else ch
      | None \<Rightarrow> ch)"

lemma set_revents_fd [simp]: "ch_fd (set_revents_type r ch) = ch_fd ch"
  by (simp add: set_revents_type_def)

lemma poller_inv_revents:
  assumes "poller_inv store p" and "store ptr = Some ch"
  shows "poller_inv (store(ptr \<mapsto> set_revents_type r ch)) p"
  using assms unfolding poller_inv_def by fastforce

lemma poller_inv_active [simp]: "poller_inv store (p\<lparr>active_channels := a\<rparr>) = poller_inv store p"
  by (simp add: poller_inv_def)

lemma poller_inv_slots: "poller_inv store p \<Longrightarrow> 0 < k \<Longrightarrow> poller_inv store (p\<lparr>num_event_slots := k\<rparr>)"
  by (simp add: poller_inv_def)

lemma poller_inv_channel: "poller_inv store p \<Longrightarrow> fd2channels p fd = Some ptr \<Longrightarrow> \<exists>ch. store ptr = Some ch \<and> ch_fd ch = fd"
  by (simp add: poller_inv_def)

lemma reported_cong: "fd2channels q = fd2channels p \<Longrightarrow> reported evs q = reported evs p"
  by (intro ext) (simp add: reported_def split: option.split)

lemma dispatch_reports:
  assumes "poller_inv store p" and "distinct (map fst evs)" and "fst ` set evs \<subseteq> dom (fd2channels p)"
  shows "dispatch evs store p =
      Some (\<lambda>ptr. map_option (reported evs p ptr) (store ptr),
        p\<lparr>active_channels := active_channels p @ map (\<lambda>(fd, ev). the (fd2channels p fd)) evs\<rparr>)"
  using assms
proof (induction evs arbitrary: store p)
  case Nil
  then show ?case by (simp add: reported_def option.map_ident)
next
  case (Cons e evs)
  obtain fd ev where e: "e = (fd, ev)" by (cases e)
  from Cons.prems(3) e obtain ptr where ptr: "fd2channels p fd = Some ptr" by auto
  from poller_inv_channel [OF Cons.prems(1) ptr] obtain ch where ch: "store ptr = Some ch" "ch_fd ch = fd" by blast
  let ?store = "store(ptr \<mapsto> set_revents_type (ucast ev) ch)"
  let ?p = "p\<lparr>active_channels := active_channels p @ [ptr]\<rparr>"
  have new: "map_of evs fd = None" using Cons.prems(2) e by (auto simp: map_of_eq_None_iff)
  have "map_option (reported evs ?p q) (?store q) = map_option (reported ((fd, ev) # evs) p q) (store q)" for q
    using ch ptr new by (cases "store q") (auto simp: reported_def split: option.split)
  moreover have "dispatch evs ?store ?p = Some (\<lambda>q. map_option (reported evs ?p q) (?store q),
      ?p\<lparr>active_channels := active_channels ?p @ map (\<lambda>(fd, ev). the (fd2channels ?p fd)) evs\<rparr>)"
  proof (rule Cons.IH)
    show "poller_inv ?store ?p" using poller_inv_revents [OF Cons.prems(1) ch(1)] by simp
  qed (use Cons.prems(2,3) e in auto)
  ultimately show ?case using e ptr ch by simp
qed

lemma poll_reports:
  assumes "poller_inv store p" and "wait_contract wait (watched p)" and "wait (num_event_slots p) = Some evs"
  shows "\<exists>store' p'. poll wait store p = Some (int (length evs), store', p') \<and>
    store' = (\<lambda>ptr. map_option (reported evs p ptr) (store ptr)) \<and>
    active_channels p' = map (\<lambda>(fd, ev). the (fd2channels p fd)) evs \<and>
    registry p' = registry p \<and> poller_inv store' p' \<and>
    num_event_slots p' = (if length evs = num_event_slots p then 2 * num_event_slots p else num_event_slots p)"
proof -
  define p1 where "p1 = (if length evs = num_event_slots p then p\<lparr>active_channels := [], num_event_slots := num_event_slots p * 2\<rparr>
    else p\<lparr>active_channels := []\<rparr>)"
  have p1: "fd2channels p1 = fd2channels p" "ctl_calls p1 = ctl_calls p" "active_channels p1 = []"
    "num_event_slots p1 = (if length evs = num_event_slots p then 2 * num_event_slots p else num_event_slots p)"
    by (simp_all add: p1_def)
  have inv: "poller_inv store p1"
    using assms(1) p1 by (simp add: poller_inv_def)
  have "fst ` set evs \<subseteq> dom (fd2channels p1)" "distinct (map fst evs)"
    using assms p1 by (auto simp: wait_contract_def poller_inv_def)
  note run = dispatch_reports [OF inv this(2,1)]
  have "poller_inv (\<lambda>ptr. map_option (reported evs p ptr) (store ptr)) p1"
    using inv unfolding poller_inv_def by (fastforce simp: reported_def split: option.split)
  moreover have "poll wait store p = do { (store', p2) \<leftarrow> dispatch evs store p1; Some (int (length evs), store', p2) }"
    using assms(3) by (simp add: poll_def p1_def Let_def)
  moreover have "registry (p1\<lparr>active_channels := a\<rparr>) = registry p" for a
    by (rule registry_same) (simp_all add: p1)
  ultimately show ?thesis
    by (simp add: run reported_cong [OF p1(1)] p1)
qed

section \<open>Sequences of requests\<close>

text \<open>
  The users of a poller change the events of a channel and then register, update or remove it.
  \<open>registry_run\<close> is what they expect; it is \<open>None\<close> when a descriptor is added twice, or a channel
  that is not registered is updated or removed. The answers of the kernel depend on what it watches.
\<close>

type_synonym poll_request = "ctl_op \<times> nat \<times> events"

fun registry_run :: "(nat \<rightharpoonup> int) \<Rightarrow> poll_request list \<Rightarrow> (int \<rightharpoonup> nat \<times> 32 word) \<Rightarrow> (int \<rightharpoonup> nat \<times> 32 word) option" where
  "registry_run fds [] r = Some r"
| "registry_run fds ((op, ptr, ev) # reqs) r =
     do {
       fd \<leftarrow> fds ptr;
       if op = EPOLL_CTL_ADD
       then if r fd = None then registry_run fds reqs (r(fd \<mapsto> (ptr, ucast ev))) else None
       else if map_option fst (r fd) \<noteq> Some ptr then None
       else registry_run fds reqs (if op = EPOLL_CTL_MOD then r(fd \<mapsto> (ptr, ucast ev)) else r(fd := None))
     }"

fun poller_run ::
  "((int \<rightharpoonup> 32 word) \<Rightarrow> sys_epoll_ctl) \<Rightarrow> poll_request list \<Rightarrow> channel_store \<Rightarrow> poller \<Rightarrow> (channel_store \<times> poller) option" where
  "poller_run kern [] store p = Some (store, p)"
| "poller_run kern ((op, ptr, ev) # reqs) store p =
     do {
       ch \<leftarrow> store ptr;
       let store' = store(ptr \<mapsto> ch\<lparr>events_type := ev\<rparr>);
       p' \<leftarrow> (case op of
                EPOLL_CTL_ADD \<Rightarrow> addChannel (kern (watched p)) store' ptr p
              | EPOLL_CTL_MOD \<Rightarrow> updateChannel (kern (watched p)) store' ptr p
              | EPOLL_CTL_DEL \<Rightarrow> removeChannel (kern (watched p)) store' ptr p);
       poller_run kern reqs store' p'
     }"

lemma poller_inv_events:
  assumes "poller_inv store p" and "store ptr = Some ch"
  shows "poller_inv (store(ptr \<mapsto> ch\<lparr>events_type := ev\<rparr>)) p"
  using assms unfolding poller_inv_def by fastforce

lemma registry_ptr: "poller_inv store p \<Longrightarrow> map_option fst (registry p fd) = fd2channels p fd"
  using watched_iff [of store p fd] by (cases "fd2channels p fd"; cases "watched p fd") (simp_all add: registry_def)

lemma poller_run_registry:
  assumes "\<And>w. ctl_contract (kern w) w" and "poller_inv store p" and "\<And>q. map_option ch_fd (store q) = fds q"
    and "registry_run fds reqs (registry p) = Some r"
  shows "\<exists>store' p'. poller_run kern reqs store p = Some (store', p') \<and> registry p' = r \<and> poller_inv store' p'"
  using assms(2-4)
proof (induction reqs arbitrary: store p)
  case Nil
  then show ?case by simp
next
  case (Cons req reqs)
  obtain op ptr ev where req: "req = (op, ptr, ev)" by (cases req)
  from Cons.prems(3) req obtain fd where fd: "fds ptr = Some fd" by (auto split: bind_splits)
  with Cons.prems(2) [of ptr] obtain ch where ch: "store ptr = Some ch" "ch_fd ch = fd" by auto
  let ?ch = "ch\<lparr>events_type := ev\<rparr>"
  define store1 where "store1 = store(ptr \<mapsto> ?ch)"
  have inv: "poller_inv store1 p" unfolding store1_def using poller_inv_events [OF Cons.prems(1) ch(1)] .
  have fds: "map_option ch_fd (store1 q) = fds q" for q using Cons.prems(2) [of q] ch by (auto simp: store1_def)
  have sp: "store1 ptr = Some ?ch" "ch_fd ?ch = fd" using ch by (simp_all add: store1_def)
  have go: "\<exists>store' p'. poller_run kern ((op, ptr, ev) # reqs) store p = Some (store', p') \<and> registry p' = r \<and> poller_inv store' p'"
    if "(case op of EPOLL_CTL_ADD \<Rightarrow> addChannel (kern (watched p)) store1 ptr p
          | EPOLL_CTL_MOD \<Rightarrow> updateChannel (kern (watched p)) store1 ptr p
          | EPOLL_CTL_DEL \<Rightarrow> removeChannel (kern (watched p)) store1 ptr p) = Some p1"
      and "poller_inv store1 p1" and "registry_run fds reqs (registry p1) = Some r" for p1
    using Cons.IH [OF that(2) fds that(3)] that(1) ch(1) by (simp add: store1_def [symmetric])
  show ?case
  proof (cases op)
    case EPOLL_CTL_ADD
    then have r: "registry p fd = None" "registry_run fds reqs ((registry p)(fd \<mapsto> (ptr, ucast ev))) = Some r"
      using Cons.prems(3) req fd by (auto split: if_splits)
    from addChannel_registry [OF inv assms(1) sp(1)] r(1) sp(2)
    obtain p1 where "addChannel (kern (watched p)) store1 ptr p = Some p1" "poller_inv store1 p1"
      "registry p1 = (registry p)(fd \<mapsto> (ptr, ucast ev))" by auto
    with go [of p1] EPOLL_CTL_ADD r(2) req show ?thesis by simp
  next
    case EPOLL_CTL_MOD
    then have r: "fd2channels p fd = Some ptr" "registry_run fds reqs ((registry p)(fd \<mapsto> (ptr, ucast ev))) = Some r"
      using Cons.prems(3) req fd registry_ptr [OF inv, of fd] by (auto split: if_splits)
    from updateChannel_registry [OF inv assms(1) sp(1)] r(1) sp(2)
    obtain p1 where "updateChannel (kern (watched p)) store1 ptr p = Some p1" "poller_inv store1 p1"
      "registry p1 = (registry p)(fd \<mapsto> (ptr, ucast ev))" by auto
    with go [of p1] EPOLL_CTL_MOD r(2) req show ?thesis by simp
  next
    case EPOLL_CTL_DEL
    then have r: "fd2channels p fd = Some ptr" "registry_run fds reqs ((registry p)(fd := None)) = Some r"
      using Cons.prems(3) req fd registry_ptr [OF inv, of fd] by (auto split: if_splits)
    from removeChannel_registry [OF inv assms(1) sp(1)] r(1) sp(2)
    obtain p1 where "removeChannel (kern (watched p)) store1 ptr p = Some p1" "poller_inv store1 p1"
      "registry p1 = (registry p)(fd := None)" by auto
    with go [of p1] EPOLL_CTL_DEL r(2) req show ?thesis by simp
  qed
qed

section \<open>Properties\<close>

text \<open>
  C25: a poller serves as the registry its users expect. After any sequence of registrations,
  updates and removals that adds no descriptor twice and updates or removes only registered
  channels, the map of the code and the interest list of the kernel hold exactly the
  registered channels with their latest events.
\<close>

theorem poller_refines_registry:
  assumes "\<And>w. ctl_contract (kern w) w" and "\<And>q. map_option ch_fd (store q) = fds q"
    and "registry_run fds reqs Map.empty = Some r"
  shows "\<exists>store' p. poller_run kern reqs store EpollPoller_new = Some (store', p) \<and> registry p = r \<and>
    dom (fd2channels p) = dom (watched p)"
proof -
  have "registry EpollPoller_new = Map.empty" by (simp add: registry_def EpollPoller_new_def fun_eq_iff)
  with poller_run_registry [OF assms(1) poller_inv_new, where store = store and fds = fds and reqs = reqs and r = r] assms(2,3)
  show ?thesis by (auto simp: poller_inv_def)
qed

definition own_kernel :: "(int \<rightharpoonup> 32 word) \<Rightarrow> sys_epoll_ctl" where
  "own_kernel w op fd ev = ((op = EPOLL_CTL_ADD) = (w fd = None))"

lemma own_kernel_ok: "ctl_contract (own_kernel w) w"
  by (simp add: ctl_contract_def own_kernel_def)

theorem poller_refines_registry_witness:
  "\<exists>store' p. poller_run own_kernel [(EPOLL_CTL_ADD, 7, kReadEvent), (EPOLL_CTL_MOD, 7, kReadEvent OR kWriteEvent)]
      [7 \<mapsto> Channel_new 5] EpollPoller_new = Some (store', p) \<and> registry p = [5 \<mapsto> (7, 7)] \<and> dom (fd2channels p) = dom (watched p)"
proof (rule poller_refines_registry [where fds = "[7 \<mapsto> 5]"])
  show "ctl_contract (own_kernel w) w" for w by (rule own_kernel_ok)
  show "map_option ch_fd ([7 \<mapsto> Channel_new 5] q) = [7 \<mapsto> 5] q" for q by (simp add: Channel_new_def)
  show "registry_run [7 \<mapsto> 5] [(EPOLL_CTL_ADD, 7, kReadEvent), (EPOLL_CTL_MOD, 7, kReadEvent OR kWriteEvent)] Map.empty =
    Some [5 \<mapsto> (7, 7)]"
    by (simp add: kReadEvent_eq kWriteEvent_def POLLOUT_def)
qed

text \<open>
  C26: one poll hands every reported event to the channel registered for its descriptor. It
  never meets a descriptor without a channel; the active channels are those reported, in order,
  each with the reported events, and all other channels are unchanged; when all slots were filled
  their number is doubled.
\<close>

theorem poll_hands_out_events:
  assumes "poller_inv store p" and "wait_contract wait (watched p)" and "wait (num_event_slots p) = Some evs"
  shows "\<exists>store' p'. poll wait store p = Some (int (length evs), store', p') \<and>
    store' = (\<lambda>ptr. map_option (reported evs p ptr) (store ptr)) \<and>
    active_channels p' = map (\<lambda>(fd, ev). the (fd2channels p fd)) evs \<and>
    registry p' = registry p \<and> poller_inv store' p' \<and>
    num_event_slots p' = (if length evs = num_event_slots p then 2 * num_event_slots p else num_event_slots p)"
  using assms by (rule poll_reports)

definition wit_poller :: poller where
  "wit_poller = \<lparr>fd2channels = [5 \<mapsto> 7], active_channels = [3], num_event_slots = 1,
     ctl_calls = [(EPOLL_CTL_ADD, 5, 3, True)]\<rparr>"

theorem poll_hands_out_events_witness:
  "\<exists>store' p'. poll (\<lambda>n. Some [(5, 1)]) [7 \<mapsto> Channel_new 5] wit_poller = Some (1, store', p') \<and>
     map_option revents_type (store' 7) = Some POLLIN \<and> active_channels p' = [7] \<and> num_event_slots p' = 2"
proof -
  have "poller_inv [7 \<mapsto> Channel_new 5] wit_poller" by (simp add: poller_inv_def wit_poller_def Channel_new_def)
  moreover have "wait_contract (\<lambda>n. if n = 1 then Some [(5, 1)] else None) (watched wit_poller)"
    by (simp add: wait_contract_def wit_poller_def)
  ultimately obtain store' p' where run: "poll (\<lambda>n. if n = 1 then Some [(5, 1)] else None) [7 \<mapsto> Channel_new 5] wit_poller =
      Some (1, store', p')" "store' = (\<lambda>ptr. map_option (reported [(5, 1)] wit_poller ptr) ([7 \<mapsto> Channel_new 5] ptr))"
      "active_channels p' = [7]" "num_event_slots p' = 2"
    using poll_hands_out_events [of "[7 \<mapsto> Channel_new 5]" wit_poller "\<lambda>n. if n = 1 then Some [(5, 1)] else None" "[(5, 1)]"]
    by (auto simp: wit_poller_def)
  moreover have "poll (\<lambda>n. Some [(5, 1)]) store wit_poller = poll (\<lambda>n. if n = 1 then Some [(5, 1)] else None) store wit_poller" for store
    by (simp add: poll_def wit_poller_def)
  ultimately show ?thesis
    by (auto simp: reported_def wit_poller_def Channel_new_def set_revents_type_def POLLIN_def)
qed

end
