(* ===== verification/Watched_Connection.thy ===== *)
theory Watched_Connection
  imports Http_Server Poller
begin

text \<open>
  A connection of the HTTP server and the poller of its loop together. The requests a
  connection makes of its loop (\<open>tcp_connection.cc\<close>: \<open>addChannelInPoller\<close>, \<open>updateChannelInPoller\<close>, \<open>removeChannelInPoller\<close>), in the order of its
  trace, are carried out by the \<open>EpollPoller\<close> (\<open>epoll_poller.cc\<close>) on a kernel that does what is
  documented of \<open>epoll_ctl\<close>: it adds a descriptor only once, and changes or deletes only one it has.
\<close>

section \<open>Carrying out the requests of a connection\<close>

definition kernel_contract :: "((int \<rightharpoonup> 32 word) \<Rightarrow> sys_epoll_ctl) \<Rightarrow> bool" where
  "kernel_contract kern \<longleftrightarrow>
     (\<forall>w fd ev. kern w EPOLL_CTL_ADD fd ev = (w fd = None) \<and> kern w EPOLL_CTL_MOD fd ev = (w fd \<noteq> None) \<and>
        kern w EPOLL_CTL_DEL fd ev = (w fd \<noteq> None))"

text \<open>The channel object at \<open>ptr\<close> has the events of the request when the request is made.\<close>

definition channel_with :: "nat \<Rightarrow> int \<Rightarrow> events \<Rightarrow> channel_store" where
  "channel_with ptr fd ev = [ptr \<mapsto> (Channel_new fd)\<lparr>events_type := ev\<rparr>]"

fun poll_action ::
  "((int \<rightharpoonup> 32 word) \<Rightarrow> sys_epoll_ctl) \<Rightarrow> nat \<Rightarrow> int \<Rightarrow> conn_action \<Rightarrow> poller \<Rightarrow> poller option" where
  "poll_action kern ptr fd (PollAdd ev) p = addChannel (kern (watched p)) (channel_with ptr fd ev) ptr p"
| "poll_action kern ptr fd (PollUpdate ev) p = updateChannel (kern (watched p)) (channel_with ptr fd ev) ptr p"
| "poll_action kern ptr fd PollRemove p = removeChannel (kern (watched p)) (channel_with ptr fd 0) ptr p"
| "poll_action kern ptr fd _ p = Some p"

fun poll_actions ::
  "((int \<rightharpoonup> 32 word) \<Rightarrow> sys_epoll_ctl) \<Rightarrow> nat \<Rightarrow> int \<Rightarrow> conn_action list \<Rightarrow> poller \<Rightarrow> poller option" where
  "poll_actions kern ptr fd [] p = Some p"
| "poll_actions kern ptr fd (x # xs) p = poll_action kern ptr fd x p \<bind> poll_actions kern ptr fd xs"

text \<open>What the poller and the kernel know of a connection, according to \<open>poll_view\<close>.\<close>

definition knows :: "poller \<Rightarrow> nat \<Rightarrow> int \<Rightarrow> events option \<Rightarrow> bool" where
  "knows p ptr fd r \<longleftrightarrow>
     watched p = (case r of None \<Rightarrow> Map.empty | Some ev \<Rightarrow> [fd \<mapsto> ucast ev]) \<and>
     fd2channels p = (case r of None \<Rightarrow> Map.empty | Some ev \<Rightarrow> [fd \<mapsto> ptr])"

text \<open>No channel is added twice.\<close>

fun adds_once :: "conn_action list \<Rightarrow> events option \<Rightarrow> bool" where
  "adds_once [] r \<longleftrightarrow> True"
| "adds_once (x # xs) r \<longleftrightarrow> (\<forall>ev. x = PollAdd ev \<longrightarrow> r = None) \<and> adds_once xs (poll_view [x] r)"

lemma poll_view_Cons: "poll_view (x # xs) r = poll_view xs (poll_view [x] r)"
  by (cases x) simp_all

lemma adds_once_append: "adds_once (xs @ ys) r \<longleftrightarrow> adds_once xs r \<and> adds_once ys (poll_view xs r)"
proof (induction xs arbitrary: r)
  case (Cons x xs)
  then show ?case by (simp add: poll_view_Cons [of x xs])
qed simp

lemma no_add_adds_once: "(\<forall>ev. PollAdd ev \<notin> set xs) \<Longrightarrow> adds_once xs r"
  by (induction xs arbitrary: r) auto

lemma poll_action_knows:
  assumes "kernel_contract kern" and "knows p ptr fd r" and "\<forall>ev. x = PollAdd ev \<longrightarrow> r = None"
  shows "\<exists>p'. poll_action kern ptr fd x p = Some p' \<and> knows p' ptr fd (poll_view [x] r)"
  using assms
  by (cases x; cases r)
    (auto simp: kernel_contract_def knows_def channel_with_def addChannel_def updateChannel_def removeChannel_def
      watched_ctl Channel_new_def)

lemma poll_actions_know:
  assumes "kernel_contract kern" and "knows p ptr fd r" and "adds_once xs r"
  shows "\<exists>p'. poll_actions kern ptr fd xs p = Some p' \<and> knows p' ptr fd (poll_view xs r)"
  using assms(2,3)
proof (induction xs arbitrary: p r)
  case (Cons x xs)
  from poll_action_knows [OF assms(1) Cons.prems(1), of x] Cons.prems(2) obtain p1 where
    p1: "poll_action kern ptr fd x p = Some p1" "knows p1 ptr fd (poll_view [x] r)" by auto
  from Cons.IH [OF p1(2)] Cons.prems(2) p1(1) show ?case by (simp add: poll_view_Cons [of x xs])
qed simp

section \<open>A connection adds its channel once\<close>

definition no_add :: "('b, 'c) tcp_connection \<Rightarrow> ('b, 'c) tcp_connection \<Rightarrow> bool" where
  "no_add c c' \<longleftrightarrow> (\<exists>t. conn_trace c' = conn_trace c @ t \<and> (\<forall>ev. PollAdd ev \<notin> set t))"

lemma no_addI: "conn_trace c' = conn_trace c @ t \<Longrightarrow> (\<And>ev. PollAdd ev \<notin> set t) \<Longrightarrow> no_add c c'"
  by (auto simp: no_add_def)

lemma no_add_same: "conn_trace c' = conn_trace c \<Longrightarrow> no_add c c'"
  by (rule no_addI [of _ _ "[]"]) simp_all

lemma no_add_trans: "no_add c c' \<Longrightarrow> no_add c' c'' \<Longrightarrow> no_add c c''"
  unfolding no_add_def by fastforce

lemma no_add_close: "no_add c (handleClose c)"
  by (rule no_addI [of _ _ "if conn_status c = kDisconnected then [] else [PollRemove, CloseCallback]"])
    (simp_all add: handleClose_def)

lemma no_add_shutdown: "shutdown e c = Some c' \<Longrightarrow> no_add c c'"
  by (rule no_addI [of _ _ "if conn_status c = kDisconnected \<or> isWriting (conn_channel c) then [] else [ShutdownWr]"])
    (auto simp: shutdown_def bind_eq_Some_conv Let_def split: if_splits)

lemma no_add_write: "handleWrite C e c = Some c' \<Longrightarrow> no_add c c'"
  by (auto simp: no_add_def handleWrite_def bind_eq_Some_conv handleError_def handleClose_def shutdown_def Let_def split: if_splits)

lemma no_add_send: "send C e cb c = Some c' \<Longrightarrow> no_add c c'"
  by (auto simp: no_add_def send_def bind_eq_Some_conv handleError_def handleClose_def Let_def split: if_splits)

lemma no_add_on_read:
  assumes "connectionOnRead C E e srv c = Some (srv', c')"
  shows "no_add c c'"
proof -
  from assms obtain resp srv1 b x where d: "deliver C E e resp srv1 (c\<lparr>conn_in := b, conn_context := x\<rparr>) = Some (srv', c')"
    by (auto simp: connectionOnRead_def bind_eq_Some_conv)
  have "no_add (c\<lparr>conn_in := b, conn_context := x\<rparr>) c'"
    using d by (cases resp)
      (auto simp: deliver_def bind_eq_Some_conv no_add_same split: if_splits dest!: no_add_send no_add_shutdown intro: no_add_trans)
  then show ?thesis by (auto simp: no_add_def)
qed

lemma no_add_read:
  assumes "handleRead C e (http_read C e) w c = Some (w', c')"
  shows "no_add c c'"
proof -
  have "no_add c c'" if "no_add (c\<lparr>conn_in := b\<rparr>) c'" for b using that by (auto simp: no_add_def)
  moreover from assms have "c' = c \<or> (\<exists>b. http_read C e w (c\<lparr>conn_in := b\<rparr>) = Some (w', c') \<or> c' = handleClose (c\<lparr>conn_in := b\<rparr>))"
    by (auto simp: handleRead_def bind_eq_Some_conv handleError_def Let_def split: if_splits)
  ultimately show ?thesis using no_add_on_read no_add_close no_add_same http_read_run by metis
qed

lemma no_add_event:
  assumes "conn_event C e (http_read C e) revents (srv, c) = Some (srv', c')"
  shows "no_add c c'"
proof -
  let ?cbs = "conn_callbacks C e (http_read C e)"
  let ?c = "c\<lparr>conn_channel := set_revents_type revents (conn_channel c)\<rparr>"
  obtain b1 b2 b3 b4 w1 c1 w2 c2 w3 c3 where
    st: "call_if b1 (closeCallback ?cbs) (srv, ?c) = Some (w1, c1)" "call_if b2 (errorCallback ?cbs) (w1, c1) = Some (w2, c2)"
    "call_if b3 (readCallback ?cbs) (w2, c2) = Some (w3, c3)" "call_if b4 (writeCallback ?cbs) (w3, c3) = Some (srv', c')"
    using assms by (auto simp: conn_event_def Channel_handleEvent_def bind_eq_Some_conv)
  have "no_add ?c c1" "no_add c1 c2" "no_add c2 c3" "no_add c3 c'"
    using st by (auto simp: call_if_def conn_callbacks_def handleError_def no_add_same
        intro: no_add_close no_add_write no_add_read split: if_splits)
  then have "no_add ?c c'" using no_add_trans by metis
  then show ?thesis by (auto simp: no_add_def)
qed

definition open_events :: "('b, 'c) tcp_connection \<Rightarrow> events option" where
  "open_events c =
     (if conn_status c = kConnected \<or> conn_status c = kDisconnecting then Some (events_type (conn_channel c)) else None)"

definition kernel_follows ::
  "((int \<rightharpoonup> 32 word) \<Rightarrow> sys_epoll_ctl) \<Rightarrow> nat \<Rightarrow> ('b, 'c) tcp_connection \<Rightarrow> bool" where
  "kernel_follows kern ptr c \<longleftrightarrow>
     (\<exists>p. poll_actions kern ptr (ch_fd (conn_channel c)) (conn_trace c) EpollPoller_new = Some p \<and>
        knows p ptr (ch_fd (conn_channel c)) (open_events c))"

context conn_buffers
begin

lemma http_view: "http_conn C c \<Longrightarrow> poll_view (conn_trace c) None = open_events c"
  using http_conn_refines by (fastforce simp: conn_rel_def open_events_def)

lemma http_adds_once: "http_conn C c \<Longrightarrow> adds_once (conn_trace c) None"
  unfolding http_conn_def
proof (induction rule: conn_reach.induct)
  case (conn_new fd name)
  show ?case by (simp add: TCPConnection_new_def)
next
  case (conn_create c e c')
  from http_view [unfolded http_conn_def, OF conn_create.hyps(1)] conn_create.hyps(2) have "poll_view (conn_trace c) None = None"
    by (simp add: open_events_def)
  moreover from conn_create.hyps(3) obtain ev where "conn_trace c' = conn_trace c @ [PollAdd ev]"
    by (auto simp: handleCreate_def connectionOnCreate_def setContext_def bind_eq_Some_conv Let_def)
  ultimately show ?case using conn_create.IH by (simp add: adds_once_append)
next
  case (conn_event c e registered revents w w' c')
  from no_add_event [OF conn_event.hyps(5)] conn_event.IH show ?case
    by (auto simp: no_add_def adds_once_append no_add_adds_once)
qed

lemma http_followed: "kernel_contract kern \<Longrightarrow> http_conn C c \<Longrightarrow> kernel_follows kern ptr c"
proof -
  assume k: "kernel_contract kern" and c: "http_conn C c"
  have "knows EpollPoller_new ptr (ch_fd (conn_channel c)) None" by (simp add: knows_def EpollPoller_new_def)
  from poll_actions_know [OF k this http_adds_once [OF c]] http_view [OF c] show ?thesis
    by (simp add: kernel_follows_def)
qed

end

section \<open>Properties\<close>

text \<open>
  C14: the kernel watches a connection as long as it is open, and for the events its channel asks for. Whatever has happened to a
  connection of the HTTP server, with either class of buffer, the poller that carried out its requests has it in its table, and the kernel
  watches its descriptor for exactly the events of the channel, while it is connected or disconnecting; before it is
  created and after it is closed neither knows the descriptor, although an update may be requested after the removal.
\<close>

theorem kernel_watches_open_connections:
  assumes "kernel_contract kern" and "http_conn Buffer_type c" and "http_conn LinkedBuffer_type d"
  shows "kernel_follows kern ptr c \<and> kernel_follows kern ptr d"
  using conn_buf.http_followed [OF assms(1,2)] conn_linked.http_followed [OF assms(1,3)] by simp

theorem kernel_watches_open_connections_witness:
  "\<exists>c. handleCreate \<lparr>io_ndebug = True, io_in_loop = True, io_readv = (\<lambda>_. SysErr), io_writev = (\<lambda>_. -1)\<rparr> connectionOnCreate
       (TCPConnection_new Buffer_type 7 ''a'') = Some c \<and> open_events c = Some kReadEvent \<and> kernel_follows own_kernel 3 c"
proof -
  let ?e = "\<lparr>io_ndebug = True, io_in_loop = True, io_readv = (\<lambda>_. SysErr), io_writev = (\<lambda>_. -1)\<rparr>"
  have k: "kernel_contract own_kernel" by (simp add: kernel_contract_def own_kernel_def)
  obtain c where c: "handleCreate ?e connectionOnCreate (TCPConnection_new Buffer_type 7 ''a'') = Some c" "open_events c = Some kReadEvent"
    by (auto simp: handleCreate_def connectionOnCreate_def setContext_def TCPConnection_new_def open_events_def Channel_new_def
        enableReading_def kNoneEvent_def cpp_assert_def Let_def)
  have "http_conn Buffer_type c"
    unfolding http_conn_def by (rule conn_create [OF conn_new _ c(1)]) (simp add: TCPConnection_new_def)
  moreover have "http_conn LinkedBuffer_type (TCPConnection_new LinkedBuffer_type 7 ''a'')"
    unfolding http_conn_def by (rule conn_new)
  ultimately show ?thesis using kernel_watches_open_connections [OF k, of c _ 3] c by blast
qed

text \<open>A client that has sent half a line and then hangs up while output is pending: the hang-up closes the connection, and the report of
  writability in the same event makes \<open>handleWrite\<close> write and update the removed channel.\<close>

definition wit_hangup :: "io_env" where
  "wit_hangup = \<lparr>io_ndebug = True, io_in_loop = True, io_readv = (\<lambda>_. SysErr), io_writev = (\<lambda>vs. int (length (concat vs)))\<rparr>"

lemma update_after_remove:
  fixes c :: "(linked_buffer, http_context) tcp_connection"
  assumes "c = (TCPConnection_new LinkedBuffer_type 7 ''a'')\<lparr>conn_status := kConnected, conn_out := wit_two_nodes,
      conn_channel := \<lparr>ch_fd = 7, events_type = 7, revents_type = 0\<rparr>\<rparr>"
  shows "\<exists>c'. conn_event LinkedBuffer_type wit_hangup (connectionOnRead LinkedBuffer_type wit_env wit_hangup) (POLLHUP OR POLLOUT) (srv, c) =
      Some (srv, c') \<and> conn_trace c' = [PollRemove, CloseCallback, Written 6, PollUpdate 3]"
proof -
  have inv: "lb_inv wit_two_nodes" "lb_content wit_two_nodes \<noteq> []" "length (lb_content wit_two_nodes) = 6"
    using wit_two_nodes_ok by simp_all
  have wr: "writev_contract (io_writev wit_hangup)" by (simp add: wit_hangup_def writev_contract_def)
  from LinkedBuffer_readToFD_correct [OF inv(1) lb_content_nodes [OF inv(1,2)] wr] inv(3) obtain b' where
    "LinkedBuffer_readToFD (io_writev wit_hangup) wit_two_nodes = Some (6, b')" "LinkedBuffer_readableSize b' = Some 0"
    by (auto simp: wit_hangup_def)
  then show ?thesis
    by (simp add: assms conn_event_def Channel_handleEvent_def call_if_def conn_callbacks_def set_revents_type_def cpp_consts
        TCPConnection_new_def handleClose_def handleWrite_def Let_def disableWriting_def kWriteEvent_def)
      (simp add: wit_hangup_def cpp_assert_def)
qed

end
