(* ===== verification/Buffer_Calls.thy ===== *)
theory Buffer_Calls
  imports Buffer Linked_Buffer
begin

text \<open>
  Well-formedness of the two buffer classes under every sequence of calls of their public
  operations, in the form of type soundness: a call that is allowed has a defined result
  (progress), and the result is well-formed again (preservation). \<open>Buffer\<close> allows every call at
  any time; \<open>LinkedBuffer\<close> has calls that a client must not make.
\<close>

section \<open>Calls\<close>

datatype 'i buffer_call =
    CallAppend string | CallRead nat | CallReadUntil 'i | CallReadAll
  | CallWriteFromFD sys_readv | CallReadToFD sys_writev

fun Buffer_call :: "nat buffer_call \<Rightarrow> buffer \<Rightarrow> buffer option" where
  "Buffer_call (CallAppend xs) b = Buffer_append xs b"
| "Buffer_call (CallRead n) b = Some (snd (Buffer_read n b))"
| "Buffer_call (CallReadUntil it) b = Some (snd (Buffer_readUntil it b))"
| "Buffer_call CallReadAll b = Some (snd (Buffer_readAll b))"
| "Buffer_call (CallWriteFromFD rd) b = map_option snd (Buffer_writeFromFD rd b)"
| "Buffer_call (CallReadToFD wr) b = map_option snd (Buffer_readToFD wr b)"

fun LinkedBuffer_call :: "lb_iter buffer_call \<Rightarrow> linked_buffer \<Rightarrow> linked_buffer option" where
  "LinkedBuffer_call (CallAppend xs) b = LinkedBuffer_append xs b"
| "LinkedBuffer_call (CallRead n) b = map_option snd (LinkedBuffer_read n b)"
| "LinkedBuffer_call (CallReadUntil it) b = map_option snd (LinkedBuffer_readUntil it b)"
| "LinkedBuffer_call CallReadAll b = Some (snd (LinkedBuffer_readAll b))"
| "LinkedBuffer_call (CallWriteFromFD rd) b = map_option snd (LinkedBuffer_writeFromFD rd b)"
| "LinkedBuffer_call (CallReadToFD wr) b = map_option snd (LinkedBuffer_readToFD wr b)"

text \<open>
  The calls a client may make. The kernel keeps its contract. Of a \<open>LinkedBuffer\<close>, \<open>read\<close> needs a reader that
  has been set, and a node if it is asked for no byte; \<open>readToFD\<close> needs a node; and the
  iterator given to \<open>readUntil\<close> is one of the buffer: at a character, at the start of an empty node, or \<open>end()\<close>.
\<close>

fun Buffer_call_ok :: "nat buffer_call \<Rightarrow> buffer \<Rightarrow> bool" where
  "Buffer_call_ok (CallWriteFromFD rd) b \<longleftrightarrow> readv_contract rd"
| "Buffer_call_ok (CallReadToFD wr) b \<longleftrightarrow> writev_contract wr"
| "Buffer_call_ok _ b \<longleftrightarrow> True"

definition lb_valid_iter :: "linked_buffer \<Rightarrow> lb_iter \<Rightarrow> bool" where
  "lb_valid_iter b it \<longleftrightarrow>
     (case node_iter it of
        None \<Rightarrow> False
      | Some n \<Rightarrow> lb_first b \<le> n \<and> n \<le> lb_end_node b \<and> lb_fits n (drop (n - lb_first b) (lb_nodes b)) it)"

fun LinkedBuffer_call_ok :: "lb_iter buffer_call \<Rightarrow> linked_buffer \<Rightarrow> bool" where
  "LinkedBuffer_call_ok (CallRead n) b \<longleftrightarrow> node_iter (reader_iter b) \<noteq> None \<and> (n > 0 \<or> lb_nodes b \<noteq> [])"
| "LinkedBuffer_call_ok (CallReadUntil it) b \<longleftrightarrow> node_iter (reader_iter b) \<noteq> None \<and> lb_valid_iter b it"
| "LinkedBuffer_call_ok (CallWriteFromFD rd) b \<longleftrightarrow> readv_contract rd"
| "LinkedBuffer_call_ok (CallReadToFD wr) b \<longleftrightarrow> writev_contract wr \<and> lb_nodes b \<noteq> []"
| "LinkedBuffer_call_ok _ b \<longleftrightarrow> True"

section \<open>Type soundness of a class\<close>

text \<open>
  A class is its fresh object, what a call makes of an object, and when a call is allowed;
  \<open>wf\<close> is the well-formedness its operations keep.
\<close>

inductive call_reach :: "'b \<Rightarrow> ('c \<Rightarrow> 'b \<Rightarrow> 'b option) \<Rightarrow> ('c \<Rightarrow> 'b \<Rightarrow> bool) \<Rightarrow> 'b \<Rightarrow> bool" for fresh call ok where
  call_fresh: "call_reach fresh call ok fresh"
| call_step: "call_reach fresh call ok b \<Longrightarrow> ok c b \<Longrightarrow> call c b = Some b' \<Longrightarrow> call_reach fresh call ok b'"

locale sound_class =
  fixes fresh :: 'b and call :: "'c \<Rightarrow> 'b \<Rightarrow> 'b option" and ok :: "'c \<Rightarrow> 'b \<Rightarrow> bool" and wf :: "'b \<Rightarrow> bool"
  assumes wf_fresh: "wf fresh"
    and wf_call: "wf b \<Longrightarrow> ok c b \<Longrightarrow> \<exists>b'. call c b = Some b' \<and> wf b'"
begin

lemma preservation: "call_reach fresh call ok b \<Longrightarrow> wf b"
  by (induction rule: call_reach.induct) (use wf_fresh wf_call in fastforce)+

lemma progress: "call_reach fresh call ok b \<Longrightarrow> ok c b \<Longrightarrow> call c b \<noteq> None"
  using preservation wf_call by fastforce

end

section \<open>Both classes are sound\<close>

lemma Buffer_read_sound: "Buffer_inv b \<Longrightarrow> Buffer_inv (snd (Buffer_read n b))"
  using Buffer_read_correct [of b n] Buffer_read_too_much [of b n]
  by (cases "n \<le> length (Buffer_content b)") auto

lemma Buffer_call_sound:
  assumes "Buffer_inv b" "Buffer_call_ok c b"
  shows "\<exists>b'. Buffer_call c b = Some b' \<and> Buffer_inv b'"
proof (cases c)
  case (CallAppend xs)
  then show ?thesis using Buffer_append_correct [OF assms(1)] by auto
next
  case (CallRead n)
  then show ?thesis using Buffer_read_sound [OF assms(1)] by simp
next
  case (CallReadUntil it)
  then show ?thesis using Buffer_read_sound [OF assms(1)] assms(1) by (simp add: Buffer_readUntil_def)
next
  case CallReadAll
  then show ?thesis using Buffer_readAll_correct(2) [OF assms(1)] by simp
next
  case (CallWriteFromFD rd)
  with assms have "readv_contract rd" by simp
  with CallWriteFromFD Buffer_writeFromFD_correct [OF assms(1), of rd] assms(1) show ?thesis
    by (cases "rd [Buffer_writableSize b, kTmpBuffSize]") (fastforce simp: Buffer_writeFromFD_def)+
next
  case (CallReadToFD wr)
  with assms have "writev_contract wr" by simp
  with CallReadToFD Buffer_readToFD_correct [OF assms(1) _ refl] show ?thesis by fastforce
qed

text \<open>\<open>read\<close> of a \<open>LinkedBuffer\<close> that has not so many bytes changes nothing.\<close>

lemma LinkedBuffer_read_too_much:
  assumes "lb_inv b" "node_iter (reader_iter b) \<noteq> None" "length (lb_content b) < n"
  shows "LinkedBuffer_read n b = Some (False, b)"
  using LinkedBuffer_readableSize_correct [OF assms(1,2)] assms(3) by (simp add: LinkedBuffer_read_def)

lemma LinkedBuffer_read_sound:
  assumes "lb_inv b" "node_iter (reader_iter b) \<noteq> None" "n > 0 \<or> lb_nodes b \<noteq> []"
  shows "\<exists>b'. map_option snd (LinkedBuffer_read n b) = Some b' \<and> lb_inv b'"
proof (cases "n \<le> length (lb_content b)")
  case True
  then have "lb_nodes b \<noteq> []" using assms lb_content_nodes [OF assms(1)] by fastforce
  from LinkedBuffer_read_correct [OF assms(1) this True] show ?thesis by auto
qed (use assms LinkedBuffer_read_too_much in auto)

text \<open>Two iterators of the same buffer can be compared.\<close>

lemma lb_valid_iter_less:
  assumes "lb_inv b" "node_iter (reader_iter b) \<noteq> None" "lb_valid_iter b it"
  shows "\<exists>l. LinkedBufferIter_less it (reader_iter b) = Some l"
proof (cases "lb_nodes b")
  case Nil
  with assms show ?thesis
    by (auto simp: lb_inv_def lb_fits_def LinkedBufferIter_new_def lb_valid_iter_def LinkedBufferIter_less_def
        char_iter_diff_def split: option.splits)
next
  case (Cons nd nds)
  with assms obtain c where r: "reader_iter b = \<lparr>node_iter = Some (lb_first b), char_iter = Some c\<rparr>"
    by (auto simp: lb_inv_def lb_fits_def)
  from assms(3) obtain n where n: "node_iter it = Some n" "lb_fits n (drop (n - lb_first b) (lb_nodes b)) it"
    by (auto simp: lb_valid_iter_def split: option.splits)
  show ?thesis
  proof (cases "n = lb_first b")
    case True
    with n Cons obtain d where "char_iter it = Some d" by (auto simp: lb_fits_def)
    with n r show ?thesis by (simp add: LinkedBufferIter_less_def char_iter_diff_def)
  qed (use n r in \<open>simp add: LinkedBufferIter_less_def\<close>)
qed

lemma LinkedBuffer_readUntil_sound:
  assumes "lb_inv b" "node_iter (reader_iter b) \<noteq> None" "lb_valid_iter b it"
  shows "\<exists>b'. map_option snd (LinkedBuffer_readUntil it b) = Some b' \<and> lb_inv b'"
proof -
  from lb_valid_iter_less [OF assms] obtain l where l: "LinkedBufferIter_less it (reader_iter b) = Some l" by blast
  from assms(3) obtain n where n: "lb_suffix b n (drop (n - lb_first b) (lb_nodes b))"
    "lb_fits n (drop (n - lb_first b) (lb_nodes b)) it"
    by (auto simp: lb_valid_iter_def lb_suffix_def split: option.splits)
  show ?thesis
  proof (cases l)
    case True
    with l assms(1) show ?thesis by (simp add: LinkedBuffer_readUntil_def)
  next
    case False
    with l lb_readUntil_inv [OF assms(1) n] show ?thesis by auto
  qed
qed

lemma LinkedBuffer_call_sound:
  assumes "lb_inv b" "LinkedBuffer_call_ok c b"
  shows "\<exists>b'. LinkedBuffer_call c b = Some b' \<and> lb_inv b'"
proof (cases c)
  case (CallAppend xs)
  then show ?thesis using LinkedBuffer_append_correct [OF assms(1), of xs] by auto
next
  case (CallRead n)
  then show ?thesis using LinkedBuffer_read_sound [OF assms(1), of n] assms(2) by simp
next
  case (CallReadUntil it)
  then show ?thesis using LinkedBuffer_readUntil_sound [OF assms(1), of it] assms(2) by simp
next
  case CallReadAll
  then show ?thesis by (simp add: LinkedBuffer_readAll_def lb_inv_def lb_caps_def)
next
  case (CallWriteFromFD rd)
  show ?thesis
  proof (cases "rd [LinkedBuffer_kTmpBuffSize]")
    case (SysBytes bs)
    have "length bs \<le> LinkedBuffer_kTmpBuffSize"
      using assms(2) CallWriteFromFD readv_contractD [where rd = rd, OF _ SysBytes] by simp
    with CallWriteFromFD SysBytes assms(1) LinkedBuffer_append_correct [OF assms(1), of bs] show ?thesis
      by (auto simp: LinkedBuffer_writeFromFD_def)
  qed (use CallWriteFromFD assms(1) in \<open>simp add: LinkedBuffer_writeFromFD_def\<close>)
next
  case (CallReadToFD wr)
  then show ?thesis using LinkedBuffer_readToFD_correct [OF assms(1)] assms(2) by fastforce
qed

interpretation Buffer_class: sound_class "Buffer_new n" Buffer_call Buffer_call_ok Buffer_inv
  by unfold_locales (simp_all add: Buffer_new_inv Buffer_call_sound)

interpretation LinkedBuffer_class: sound_class LinkedBuffer_new LinkedBuffer_call LinkedBuffer_call_ok lb_inv
  by unfold_locales (simp_all add: lb_inv_new LinkedBuffer_call_sound)

section \<open>Properties\<close>


text \<open>\<open>append("GET")\<close> on both, then \<open>read(1)\<close>, reach the objects of the witness.\<close>

definition wit_read_buffer :: buffer where
  "wit_read_buffer = \<lparr>buffer_vec = replicate 8 NUL @ ''GET'', reader_index = 9, writer_index = 11\<rparr>"

definition wit_read_linked :: linked_buffer where
  "wit_read_linked = \<lparr>lb_nodes = [\<lparr>node_chars = ''GET'', node_capacity = 1024\<rparr>], lb_first = 0,
     reader_iter = \<lparr>node_iter = Some 0, char_iter = Some 1\<rparr>\<rparr>"

lemma wit_read_buffer_reach: "call_reach (Buffer_new 0) Buffer_call Buffer_call_ok wit_read_buffer"
proof (rule call_step)
  show "call_reach (Buffer_new 0) Buffer_call Buffer_call_ok (wit_read_buffer\<lparr>reader_index := 8\<rparr>)"
  proof (rule call_step)
    show "call_reach (Buffer_new 0) Buffer_call Buffer_call_ok (Buffer_new 0)" by (rule call_fresh)
    show "Buffer_call_ok (CallAppend ''GET'') (Buffer_new 0)" by simp
    show "Buffer_call (CallAppend ''GET'') (Buffer_new 0) = Some (wit_read_buffer\<lparr>reader_index := 8\<rparr>)" by code_simp
  qed
  show "Buffer_call_ok (CallRead 1) (wit_read_buffer\<lparr>reader_index := 8\<rparr>)" by simp
  show "Buffer_call (CallRead 1) (wit_read_buffer\<lparr>reader_index := 8\<rparr>) = Some wit_read_buffer" by code_simp
qed

lemma wit_read_linked_reach: "call_reach LinkedBuffer_new LinkedBuffer_call LinkedBuffer_call_ok wit_read_linked"
proof (rule call_step)
  let ?b = "wit_read_linked\<lparr>reader_iter := \<lparr>node_iter = Some 0, char_iter = Some 0\<rparr>\<rparr>"
  show "call_reach LinkedBuffer_new LinkedBuffer_call LinkedBuffer_call_ok ?b"
  proof (rule call_step)
    show "call_reach LinkedBuffer_new LinkedBuffer_call LinkedBuffer_call_ok LinkedBuffer_new" by (rule call_fresh)
    show "LinkedBuffer_call_ok (CallAppend ''GET'') LinkedBuffer_new" by simp
    show "LinkedBuffer_call (CallAppend ''GET'') LinkedBuffer_new = Some ?b" by code_simp
  qed
  show "LinkedBuffer_call_ok (CallRead 1) ?b" by simp
  show "LinkedBuffer_call (CallRead 1) ?b = Some wit_read_linked"
    by (simp add: wit_read_linked_def LinkedBuffer_read_def LinkedBuffer_readableSize_def lb_node_iters.simps lb_end_node_def
        toFirstCharOfNextNode_def charDistanceToEndOfNode_def lb_node_at_def LinkedBufferIter_plus_eq_def lb_forward.simps
        lb_advance_def freeNodesBefore_def pop_nodes.simps)
qed


text \<open>What the conditions of \<open>LinkedBuffer_call_ok\<close> exclude is undefined.\<close>

lemma LinkedBuffer_forbidden_calls:
  "LinkedBuffer_call (CallRead n) LinkedBuffer_new = None"
  "LinkedBuffer_call (CallReadToFD wr) LinkedBuffer_new = None"
  "LinkedBuffer_call (CallReadUntil it) LinkedBuffer_new = None"
  "lb_inv b \<Longrightarrow> lb_nodes b = [] \<Longrightarrow> LinkedBuffer_call (CallRead 0) b = None"
  by (auto simp: LinkedBuffer_new_def LinkedBufferIter_new_def LinkedBuffer_read_def LinkedBuffer_readToFD_def
      LinkedBuffer_readUntil_def LinkedBuffer_readableSize_def lb_node_iters.simps numReadableNodes_def
      LinkedBufferIter_less_def LinkedBufferIter_plus_eq_def lb_forward.simps charDistanceToEndOfNode_def lb_node_at_def
      lb_end_node_def lb_inv_def lb_fits_def bind_eq_None_conv)

end
