(* ===== verification/Date.thy ===== *)
theory Date
  imports Prelude
begin

text \<open>
  \<open>net::Date\<close> (\<open>srcs/timer/date.h\<close>, \<open>date.cc\<close>): dates of the Gregorian calendar as Julian
  day numbers, and the conversion in both directions. All arithmetic is on \<open>int\<close>, checked
  for overflow at every operation.
\<close>

section \<open>Dates\<close>

record year_month_day =
  ymd_year :: int
  ymd_month :: int
  ymd_day :: int

datatype date = MkDate (julianDayNumber: int)

definition getJulianDayNumber :: "int \<Rightarrow> int \<Rightarrow> int \<Rightarrow> int option" where
  "getJulianDayNumber year month day =
     do {
       t \<leftarrow> i32 (14 - month);
       let a = t sdiv 12;
       t \<leftarrow> i32 (year + 4800);
       y \<leftarrow> i32 (t - a);
       t \<leftarrow> i32 (12 * a);
       t \<leftarrow> i32 (month + t);
       m \<leftarrow> i32 (t - 3);
       t \<leftarrow> i32 (153 * m);
       t \<leftarrow> i32 (t + 2);
       r \<leftarrow> i32 (day + t sdiv 5);
       t \<leftarrow> i32 (y * 365);
       r \<leftarrow> i32 (r + t);
       r \<leftarrow> i32 (r + y sdiv 4);
       r \<leftarrow> i32 (r - y sdiv 100);
       r \<leftarrow> i32 (r + y sdiv 400);
       i32 (r - 32045)
     }"

definition getYearMonthDay :: "int \<Rightarrow> year_month_day option" where
  "getYearMonthDay julian =
     do {
       a \<leftarrow> i32 (julian + 32044);
       t \<leftarrow> i32 (4 * a);
       t \<leftarrow> i32 (t + 3);
       let b = t sdiv 146097;
       t \<leftarrow> i32 (b * 146097);
       c \<leftarrow> i32 (a - t sdiv 4);
       t \<leftarrow> i32 (4 * c);
       t \<leftarrow> i32 (t + 3);
       let d = t sdiv 1461;
       t \<leftarrow> i32 (1461 * d);
       e \<leftarrow> i32 (c - t sdiv 4);
       t \<leftarrow> i32 (5 * e);
       t \<leftarrow> i32 (t + 2);
       let m = t sdiv 153;
       t \<leftarrow> i32 (153 * m);
       t \<leftarrow> i32 (t + 2);
       t \<leftarrow> i32 (e - t sdiv 5);
       dy \<leftarrow> i32 (t + 1);
       t \<leftarrow> i32 (m + 3);
       mo \<leftarrow> i32 (t - 12 * (m sdiv 10));
       t \<leftarrow> i32 (b * 100);
       t \<leftarrow> i32 (t + d);
       t \<leftarrow> i32 (t - 4800);
       yr \<leftarrow> i32 (t + m sdiv 10);
       Some \<lparr>ymd_year = yr, ymd_month = mo, ymd_day = dy\<rparr>
     }"

definition kDaysPerWeek :: int where
  [cpp_consts]: "kDaysPerWeek = 7"

definition kJulianDayOf1970_01_01 :: int where
  "kJulianDayOf1970_01_01 = 2440588"

definition Date_new :: "int \<Rightarrow> int \<Rightarrow> int \<Rightarrow> date option" where
  "Date_new y m d = map_option MkDate (getJulianDayNumber y m d)"

definition Date_default :: date where
  "Date_default = MkDate 0"

definition Date_valid :: "date \<Rightarrow> bool" where
  "Date_valid d \<longleftrightarrow> julianDayNumber d > 0"

definition yearMonthDay :: "date \<Rightarrow> year_month_day option" where
  "yearMonthDay d = getYearMonthDay (julianDayNumber d)"

definition Date_year :: "date \<Rightarrow> int option" where
  "Date_year d = map_option ymd_year (yearMonthDay d)"

definition Date_month :: "date \<Rightarrow> int option" where
  "Date_month d = map_option ymd_month (yearMonthDay d)"

definition Date_day :: "date \<Rightarrow> int option" where
  "Date_day d = map_option ymd_day (yearMonthDay d)"

definition weekDay :: "date \<Rightarrow> int option" where
  "weekDay d = do { t \<leftarrow> i32 (julianDayNumber d + 1); Some (t smod kDaysPerWeek) }"

definition toIsoString :: "date \<Rightarrow> string option" where
  "toIsoString d =
     do {
       ymd \<leftarrow> yearMonthDay d;
       Some (c_str (snprintf 32 (fmt_d 4 (ymd_year ymd) @ ''-'' @ fmt_0d 2 (ymd_month ymd) @ ''-'' @ fmt_0d 2 (ymd_day ymd))))
     }"

text \<open>\<open>swap\<close> returns both objects; \<open>operator<\<close> and \<open>operator==\<close> compare day numbers.\<close>

definition Date_swap :: "date \<Rightarrow> date \<Rightarrow> date \<times> date" where
  "Date_swap this that = (MkDate (julianDayNumber that), MkDate (julianDayNumber this))"

definition Date_less :: "date \<Rightarrow> date \<Rightarrow> bool" where
  "Date_less x y \<longleftrightarrow> julianDayNumber x < julianDayNumber y"

definition Date_equal :: "date \<Rightarrow> date \<Rightarrow> bool" where
  "Date_equal x y \<longleftrightarrow> julianDayNumber x = julianDayNumber y"

instantiation date :: linorder
begin

definition less_date :: "date \<Rightarrow> date \<Rightarrow> bool" where
  "less_date = Date_less"

definition less_eq_date :: "date \<Rightarrow> date \<Rightarrow> bool" where
  "less_eq_date x y \<longleftrightarrow> Date_less x y \<or> Date_equal x y"

instance
  by standard (auto simp: less_eq_date_def less_date_def Date_less_def Date_equal_def intro: date.expand)

end

lemma Date_equal_iff [simp]: "Date_equal x y \<longleftrightarrow> x = y"
  by (auto simp: Date_equal_def intro: date.expand)

lemma Date_swap_eq [simp]: "Date_swap x y = (y, x)"
  by (simp add: Date_swap_def)

lemma kJulianDayOf1970_01_01_eq: "getJulianDayNumber 1970 1 1 = Some kJulianDayOf1970_01_01"
  by (simp add: getJulianDayNumber_def kJulianDayOf1970_01_01_def i32_def)

section \<open>The conversion without overflow checks\<close>

text \<open>
  Years are counted from the first of March of the year -4800. \<open>year_start y\<close> is the number
  of days before year \<open>y\<close>, and \<open>month_start m\<close> the number of days of the year before its
  month \<open>m\<close>, the months counted from March.
\<close>

definition year_start :: "int \<Rightarrow> int" where
  "year_start y = y * 365 + y div 4 - y div 100 + y div 400"

definition month_start :: "int \<Rightarrow> int" where
  "month_start m = (153 * m + 2) div 5"

lemma month_start_bounds: "0 \<le> m \<Longrightarrow> m \<le> 11 \<Longrightarrow> 0 \<le> (153 * m + 2) div 5 \<and> (153 * m + 2) div 5 \<le> 337" for m :: int
  using div_bounds [of 5 "153 * m + 2"] by linarith

lemma getJulianDayNumber_eq:
  assumes "- 4799 \<le> year" "year \<le> 5000000" "1 \<le> month" "month \<le> 12" "1 \<le> day" "day \<le> 31"
    and "a = (if month \<le> 2 then 1 else 0)"
  shows "getJulianDayNumber year month day =
    Some (day + month_start (month + 12 * a - 3) + year_start (year + 4800 - a) - 32045)"
proof -
  define y where "y = year + 4800 - a"
  define m where "m = month + 12 * a - 3"
  define ms where "ms = (153 * m + 2) div 5"
  have a: "(14 - month) sdiv 12 = a" "0 \<le> a" "a \<le> 1"
    using assms(3,4,7) div_eqI [of 12 a "14 - month"] by auto
  have y: "0 \<le> y" "y \<le> 5004800" and m: "0 \<le> m" "m \<le> 11"
    using assms by (auto simp: y_def m_def)
  have d: "0 \<le> y div 4" "y div 4 \<le> y" "0 \<le> y div 100" "y div 100 \<le> y" "0 \<le> y div 400" "y div 400 \<le> y"
    using y div_bounds [of 4 y] div_bounds [of 100 y] div_bounds [of 400 y] by linarith+
  have ms: "0 \<le> ms" "ms \<le> 337" using month_start_bounds [OF m] by (simp_all add: ms_def)
  have s: "y sdiv 4 = y div 4" "y sdiv 100 = y div 100" "y sdiv 400 = y div 400" "(153 * m + 2) sdiv 5 = ms"
    using y m by (simp_all add: ms_def)
  have i: "i32 (14 - month) = Some (14 - month)" "i32 (year + 4800) = Some (year + 4800)" "i32 y = Some y"
    "i32 (12 * a) = Some (12 * a)" "i32 (month + 12 * a) = Some (month + 12 * a)" "i32 m = Some m"
    "i32 (153 * m) = Some (153 * m)" "i32 (153 * m + 2) = Some (153 * m + 2)" "i32 (day + ms) = Some (day + ms)"
    "i32 (y * 365) = Some (y * 365)" "i32 (day + ms + y * 365) = Some (day + ms + y * 365)"
    "i32 (day + ms + y * 365 + y div 4) = Some (day + ms + y * 365 + y div 4)"
    "i32 (day + ms + y * 365 + y div 4 - y div 100) = Some (day + ms + y * 365 + y div 4 - y div 100)"
    "i32 (day + ms + y * 365 + y div 4 - y div 100 + y div 400) =
      Some (day + ms + y * 365 + y div 4 - y div 100 + y div 400)"
    "i32 (day + ms + y * 365 + y div 4 - y div 100 + y div 400 - 32045) =
      Some (day + ms + y * 365 + y div 4 - y div 100 + y div 400 - 32045)"
    using assms(1-6) a(2,3) y m d ms by (intro i32_Some; linarith)+
  have "getJulianDayNumber year month day = Some (day + ms + y * 365 + y div 4 - y div 100 + y div 400 - 32045)"
    by (simp only: getJulianDayNumber_def Let_def bind.bind_lunit i a(1) s y_def [symmetric] m_def [symmetric])
  then show ?thesis by (simp add: month_start_def year_start_def ms_def y_def m_def)
qed

text \<open>
  The intermediate values of \<open>getYearMonthDay\<close>: century \<open>b\<close> and day \<open>c\<close> in it, year \<open>d\<close> of the
  century and day \<open>e\<close> in it, month \<open>m\<close> of the year.
\<close>

lemma civil_bounds:
  fixes a b c d e m :: int
  assumes "0 \<le> a" and b: "b = (4 * a + 3) div 146097" and c: "c = a - (b * 146097) div 4"
    and d: "d = (4 * c + 3) div 1461" and e: "e = c - (1461 * d) div 4" and m: "m = (5 * e + 2) div 153"
  shows "0 \<le> b" "b * 146097 \<le> 4 * a + 3" "0 \<le> c" "c \<le> 36524" "0 \<le> d" "d \<le> 99"
    "0 \<le> e" "e \<le> 365" "0 \<le> m" "m \<le> 11"
proof -
  show b': "0 \<le> b" "b * 146097 \<le> 4 * a + 3"
    using assms(1) div_bounds [of 146097 "4 * a + 3"] b by linarith+
  show c': "0 \<le> c" "c \<le> 36524"
    using div_bounds [of 146097 "4 * a + 3"] div_bounds [of 4 "b * 146097"] b c by linarith+
  show d': "0 \<le> d" "d \<le> 99"
    using c' div_bounds [of 1461 "4 * c + 3"] d by linarith+
  show e': "0 \<le> e" "e \<le> 365"
    using div_bounds [of 1461 "4 * c + 3"] div_bounds [of 4 "1461 * d"] d e by linarith+
  show "0 \<le> m" "m \<le> 11"
    using e' div_bounds [of 153 "5 * e + 2"] m by linarith+
qed

lemma getYearMonthDay_eq:
  fixes a b c d e m :: int
  assumes "0 \<le> a" and "a \<le> 536870911" and b: "b = (4 * a + 3) div 146097" and c: "c = a - (b * 146097) div 4"
    and d: "d = (4 * c + 3) div 1461" and e: "e = c - (1461 * d) div 4" and m: "m = (5 * e + 2) div 153"
  shows "getYearMonthDay (a - 32044) = Some \<lparr>ymd_year = b * 100 + d - 4800 + m div 10,
    ymd_month = m + 3 - 12 * (m div 10), ymd_day = e - month_start m + 1\<rparr>"
proof -
  note bd = civil_bounds [OF assms(1) b c d e m]
  have q: "0 \<le> m div 10" "m div 10 \<le> 1"
    using bd(9,10) div_bounds [of 10 m] by linarith+
  have s: "(4 * a + 3) sdiv 146097 = b" "b * 146097 sdiv 4 = b * 146097 div 4" "(4 * c + 3) sdiv 1461 = d"
    "1461 * d sdiv 4 = 1461 * d div 4" "(5 * e + 2) sdiv 153 = m" "(153 * m + 2) sdiv 5 = month_start m"
    "m sdiv 10 = m div 10"
    using assms(1) bd b d m by (simp_all add: month_start_def)
  have t: "a - b * 146097 div 4 = c" "c - 1461 * d div 4 = e" "a - 32044 + 32044 = a"
    using c e by simp_all
  have ms: "0 \<le> month_start m" "month_start m \<le> 337"
    using month_start_bounds [OF bd(9,10)] by (simp_all add: month_start_def)
  have i: "i32 a = Some a" "i32 (4 * a) = Some (4 * a)" "i32 (4 * a + 3) = Some (4 * a + 3)"
    "i32 (b * 146097) = Some (b * 146097)" "i32 c = Some c" "i32 (4 * c) = Some (4 * c)"
    "i32 (4 * c + 3) = Some (4 * c + 3)" "i32 (1461 * d) = Some (1461 * d)" "i32 e = Some e"
    "i32 (5 * e) = Some (5 * e)" "i32 (5 * e + 2) = Some (5 * e + 2)" "i32 (153 * m) = Some (153 * m)"
    "i32 (153 * m + 2) = Some (153 * m + 2)" "i32 (e - month_start m) = Some (e - month_start m)"
    "i32 (e - month_start m + 1) = Some (e - month_start m + 1)" "i32 (m + 3) = Some (m + 3)"
    "i32 (m + 3 - 12 * (m div 10)) = Some (m + 3 - 12 * (m div 10))" "i32 (b * 100) = Some (b * 100)"
    "i32 (b * 100 + d) = Some (b * 100 + d)" "i32 (b * 100 + d - 4800) = Some (b * 100 + d - 4800)"
    "i32 (b * 100 + d - 4800 + m div 10) = Some (b * 100 + d - 4800 + m div 10)"
    using assms(1,2) bd q ms by (intro i32_Some; linarith)+
  show ?thesis
    by (simp only: getYearMonthDay_def Let_def bind.bind_lunit i s t)
qed

section \<open>Round trips\<close>

lemma year_start_century:
  assumes "0 \<le> b" and "0 \<le> d" and "d \<le> 99"
  shows "year_start (b * 100 + d) = b * 146097 div 4 + 1461 * d div 4"
proof -
  note b4 = div_bounds [where k = 4 and x = d, OF zero_less_numeral] div_bounds [where k = 4 and x = b, OF zero_less_numeral]
  have q1: "(b * 100 + d) div 4 = 25 * b + d div 4" by (rule div_eqI) (use b4 in \<open>simp_all add: algebra_simps\<close>)
  have q2: "(b * 100 + d) div 100 = b" by (rule div_eqI) (use assms in \<open>simp_all add: algebra_simps\<close>)
  have q3: "(b * 100 + d) div 400 = b div 4" by (rule div_eqI) (use assms b4 in \<open>simp_all add: algebra_simps\<close>)
  have q4: "b * 146097 div 4 = 36524 * b + b div 4" by (rule div_eqI) (use b4 in \<open>simp_all add: algebra_simps\<close>)
  have q5: "1461 * d div 4 = 365 * d + d div 4" by (rule div_eqI) (use b4 in \<open>simp_all add: algebra_simps\<close>)
  note q = q1 q2 q3 q4 q5
  show ?thesis by (simp add: year_start_def q)
qed

lemma month_of_day:
  assumes "0 \<le> e" and "e \<le> 365" and "m = (5 * e + 2) div 153"
  shows "month_start m \<le> e" "e \<le> month_start m + 30"
  using assms div_bounds [of 153 "5 * e + 2"] div_bounds [of 5 "153 * m + 2"]
  by (simp_all add: month_start_def)

lemma julian_round_trip:
  assumes "0 \<le> j" and "j \<le> 536838867"
  shows "\<exists>ymd. getYearMonthDay j = Some ymd \<and> 1 \<le> ymd_month ymd \<and> ymd_month ymd \<le> 12 \<and>
    1 \<le> ymd_day ymd \<and> ymd_day ymd \<le> 31 \<and> - 4799 \<le> ymd_year ymd \<and> ymd_year ymd \<le> 5000000 \<and>
    getJulianDayNumber (ymd_year ymd) (ymd_month ymd) (ymd_day ymd) = Some j"
proof -
  define a where "a = j + 32044"
  define b where "b = (4 * a + 3) div 146097"
  define c where "c = a - (b * 146097) div 4"
  define d where "d = (4 * c + 3) div 1461"
  define e where "e = c - (1461 * d) div 4"
  define m where "m = (5 * e + 2) div 153"
  have a: "0 \<le> a" "32044 \<le> a" "a \<le> 536870911" using assms by (simp_all add: a_def)
  note bd = civil_bounds [OF a(1) b_def c_def d_def e_def m_def]
  have q: "m div 10 = (if 10 \<le> m then 1 else 0)"
    using bd(9,10) by (intro div_eqI) auto
  have b_le: "b \<le> 14700" using bd(2) a(3) by linarith
  have pos: "1 \<le> b * 100 + d"
  proof (cases "b = 0")
    case True
    then have "4 * c + 3 \<ge> 1461" using a(2) by (simp add: c_def)
    then have "1 \<le> d" using div_bounds [of 1461 "4 * c + 3"] d_def by linarith
    with True show ?thesis by simp
  next
    case False
    with bd(1,5) show ?thesis by linarith
  qed
  let ?y = "b * 100 + d - 4800 + m div 10" and ?m = "m + 3 - 12 * (m div 10)" and ?d = "e - month_start m + 1"
  have r: "1 \<le> ?m" "?m \<le> 12" "1 \<le> ?d" "?d \<le> 31" "- 4799 \<le> ?y" "?y \<le> 5000000"
    using bd q pos b_le month_of_day [OF bd(7,8) m_def] by (auto split: if_splits)
  have am: "?m + 12 * (if ?m \<le> 2 then 1 else 0) - 3 = m" "?y + 4800 - (if ?m \<le> 2 then 1 else 0) = b * 100 + d"
    using bd(9,10) q by auto
  have "getJulianDayNumber ?y ?m ?d = Some (?d + month_start m + year_start (b * 100 + d) - 32045)"
    using getJulianDayNumber_eq [OF r(5,6,1-4) refl] unfolding am .
  moreover have "?d + month_start m + year_start (b * 100 + d) - 32045 = j"
    using year_start_century [OF bd(1,5,6)] by (simp add: e_def c_def a_def)
  moreover have "getYearMonthDay j = Some \<lparr>ymd_year = ?y, ymd_month = ?m, ymd_day = ?d\<rparr>"
    using getYearMonthDay_eq [OF a(1,3) b_def c_def d_def e_def m_def] by (simp add: a_def)
  ultimately show ?thesis using r by simp
qed

text \<open>The Gregorian calendar.\<close>

definition is_leap :: "int \<Rightarrow> bool" where
  "is_leap y \<longleftrightarrow> y mod 4 = 0 \<and> (y mod 100 \<noteq> 0 \<or> y mod 400 = 0)"

definition days_in_month :: "int \<Rightarrow> int \<Rightarrow> int" where
  "days_in_month y m =
     (if m = 2 then (if is_leap y then 29 else 28) else if m \<in> {4, 6, 9, 11} then 30 else 31)"

definition valid_ymd :: "int \<Rightarrow> int \<Rightarrow> int \<Rightarrow> bool" where
  "valid_ymd y m d \<longleftrightarrow> 1 \<le> m \<and> m \<le> 12 \<and> 1 \<le> d \<and> d \<le> days_in_month y m"

lemma leap_century:
  assumes "is_leap (y + 4800)" and "y + 4799 = b * 100 + d" and "0 \<le> d" and "d \<le> 99"
  shows "d mod 4 = 3" and "d = 99 \<Longrightarrow> b mod 4 = 3"
proof -
  have y: "y + 4800 = b * 100 + (d + 1)" using assms(2) by simp
  have "4 dvd b * 100 + (d + 1)"
    using assms(1) unfolding y is_leap_def by (simp add: dvd_eq_mod_eq_0)
  then have "4 dvd d + 1" by (simp add: dvd_add_right_iff)
  then show "d mod 4 = 3" by presburger
  assume d: "d = 99"
  have y100: "y + 4800 = (b + 1) * 100" using y d by simp
  have "(y + 4800) mod 100 = 0" unfolding y100 by simp
  then have "(y + 4800) mod 400 = 0" using assms(1) by (simp add: is_leap_def)
  then obtain k where "(b + 1) * 100 = 400 * k" unfolding y100 by (auto elim: dvdE simp: mod_eq_0_iff_dvd)
  then have "b + 1 = 4 * k" by presburger
  then show "b mod 4 = 3" by presburger
qed

lemma is_leap_shift: "is_leap (y + 4800) = is_leap y"
  using mod_add_right_eq [of y 4800 4] mod_add_right_eq [of y 4800 100] mod_add_right_eq [of y 4800 400]
  by (simp add: is_leap_def)

text \<open>A day of the year that starts in March: the month it falls into, and its place in the century.\<close>

lemma month_of_valid_day:
  assumes "1 \<le> m" "m \<le> 12" "a = (if m \<le> 2 then 1 else 0)" "m' = m + 12 * a - 3"
    "1 \<le> d" "d \<le> days_in_month y m"
  shows "(5 * (d - 1 + month_start m') + 2) div 153 = m'" "0 \<le> d - 1 + month_start m'"
    "d - 1 + month_start m' \<le> 364 \<or> d - 1 + month_start m' = 365 \<and> is_leap y \<and> a = 1"
proof -
  have "m \<in> {1, 2, 3, 4, 5, 6, 7, 8, 9, 10, 11, 12}" using assms(1,2) by simp presburger
  with assms(3-6) have *: "153 * m' \<le> 5 * (d - 1 + month_start m') + 2 \<and>
      5 * (d - 1 + month_start m') + 2 < 153 * m' + 153 \<and> 0 \<le> d - 1 + month_start m' \<and>
      (d - 1 + month_start m' \<le> 364 \<or> d - 1 + month_start m' = 365 \<and> is_leap y \<and> a = 1)"
    by (elim insertE emptyE) (auto simp: month_start_def days_in_month_def split: if_splits)
  then show "(5 * (d - 1 + month_start m') + 2) div 153 = m'"
    by (intro div_eqI) simp_all
  from * show "0 \<le> d - 1 + month_start m'"
    "d - 1 + month_start m' \<le> 364 \<or> d - 1 + month_start m' = 365 \<and> is_leap y \<and> a = 1" by simp_all
qed

lemma century_of_valid_day:
  fixes b d e :: int
  assumes "0 \<le> b" "0 \<le> d" "d \<le> 99" "0 \<le> e" "e \<le> 364 \<or> e = 365 \<and> d mod 4 = 3 \<and> (d = 99 \<longrightarrow> b mod 4 = 3)"
  shows "(4 * (e + 1461 * d div 4) + 3) div 1461 = d"
    "(4 * (e + 1461 * d div 4 + b * 146097 div 4) + 3) div 146097 = b"
proof -
  have q: "1461 * d div 4 = 365 * d + d div 4" "b * 146097 div 4 = 36524 * b + b div 4"
    using div_bounds [of 4 d] div_bounds [of 4 b] by (intro div_eqI; simp add: algebra_simps)+
  have md: "4 * (d div 4) + d mod 4 = d" "4 * (b div 4) + b mod 4 = b" by simp_all
  have mb: "0 \<le> d mod 4" "d mod 4 \<le> 3" "0 \<le> b mod 4" by simp_all
  have "1461 * d \<le> 4 * e + (4 * 365) * d + 4 * (d div 4) + 3"
    using assms(4) md(1) mb by linarith
  moreover have "4 * e + (4 * 365) * d + 4 * (d div 4) + 3 < 1461 * d + 1461"
  proof (cases "e \<le> 364")
    case True
    then show ?thesis using md(1) mb by linarith
  next
    case False
    with assms(5) have "e = 365" "d mod 4 = 3" by auto
    then show ?thesis using md(1) by linarith
  qed
  ultimately show "(4 * (e + 1461 * d div 4) + 3) div 1461 = d"
    unfolding q by (intro div_eqI) (simp_all add: algebra_simps)
  have c: "4 * (e + (365 * d + d div 4)) + 3 < 146097 + b mod 4"
  proof (cases "e = 365 \<and> d = 99")
    case True
    with assms(5) show ?thesis by simp
  next
    case False
    have "e + 365 * d \<le> 36499"
    proof (cases "e \<le> 364")
      case True
      with assms(3) show ?thesis by linarith
    next
      case e: False
      with False assms(3,5) have "e = 365" "d \<le> 98" by auto
      then show ?thesis by linarith
    qed
    moreover have "d div 4 \<le> 24" using assms(3) md(1) mb(1) by linarith
    ultimately show ?thesis using mb(3) by (simp add: algebra_simps)
  qed
  have "4 * 365 * d = 1460 * d" "4 * 36524 * b = 146096 * b" "0 \<le> d div 4" "b mod 4 \<le> 3"
    using assms(2) by (simp_all add: pos_imp_zdiv_nonneg_iff)
  then have "146097 * b \<le> 4 * e + 4 * 365 * d + 4 * (d div 4) + 4 * 36524 * b + 4 * (b div 4) + 3"
    "4 * e + 4 * 365 * d + 4 * (d div 4) + 4 * 36524 * b + 4 * (b div 4) + 3 < 146097 * b + 146097"
    using assms(2,4) md mb c by (simp_all only: distrib_left)
  then show "(4 * (e + 1461 * d div 4 + b * 146097 div 4) + 3) div 146097 = b"
    unfolding q by (intro div_eqI) (simp_all add: algebra_simps)
qed

lemma date_round_trip:
  assumes "- 4799 \<le> y" and "y \<le> 1000000" and "valid_ymd y m d"
  shows "\<exists>j. getJulianDayNumber y m d = Some j \<and>
    getYearMonthDay j = Some \<lparr>ymd_year = y, ymd_month = m, ymd_day = d\<rparr>"
proof -
  define a :: int where "a = (if m \<le> 2 then 1 else 0)"
  define Y where "Y = y + 4800 - a"
  define m' where "m' = m + 12 * a - 3"
  define b where "b = Y div 100"
  define c where "c = Y mod 100"
  define e where "e = d - 1 + month_start m'"
  have md: "1 \<le> m" "m \<le> 12" "1 \<le> d" "d \<le> days_in_month y m"
    using assms(3) by (simp_all add: valid_ymd_def)
  note day = month_of_valid_day [OF md(1,2) a_def m'_def md(3,4), folded e_def]
  have "d \<le> 31" using md(4) by (simp add: days_in_month_def split: if_splits)
  then have j: "getJulianDayNumber y m d = Some (d + month_start m' + year_start Y - 32045)"
    using getJulianDayNumber_eq [OF assms(1) _ md(1-3) _ a_def] assms(2) by (simp add: m'_def Y_def)
  have Y: "Y = b * 100 + c" "0 \<le> c" "c \<le> 99" by (simp_all add: b_def c_def)
  have "0 \<le> Y" "Y \<le> 1004800" using assms(1,2) by (auto simp: Y_def a_def)
  then have b: "0 \<le> b" "b \<le> 10048" using Y by linarith+
  have "e \<le> 364 \<or> e = 365 \<and> c mod 4 = 3 \<and> (c = 99 \<longrightarrow> b mod 4 = 3)"
    using day(3)
  proof
    assume leap: "e = 365 \<and> is_leap y \<and> a = 1"
    then have "is_leap (y + 4800)" "y + 4799 = b * 100 + c"
      using Y(1) by (simp_all add: is_leap_shift Y_def)
    with leap leap_century [OF this Y(2,3)] show ?thesis by simp
  qed simp
  note cent = century_of_valid_day [OF b(1) Y(2,3) day(2) this]
  let ?a = "e + 1461 * c div 4 + b * 146097 div 4"
  have "0 \<le> 1461 * c div 4" "0 \<le> b * 146097 div 4" "e \<le> 365"
    using Y(2) b(1) day(3) by (auto simp: pos_imp_zdiv_nonneg_iff)
  moreover have "1461 * c div 4 \<le> 36524" "b * 146097 div 4 \<le> 367000000"
    using Y(3) b(2) div_bounds [of 4 "1461 * c"] div_bounds [of 4 "b * 146097"] by linarith+
  ultimately have bounds: "0 \<le> ?a" "?a \<le> 536870911" using day(2) by linarith+
  have ymd: "getYearMonthDay (?a - 32044) = Some \<lparr>ymd_year = b * 100 + c - 4800 + m' div 10,
      ymd_month = m' + 3 - 12 * (m' div 10), ymd_day = e - month_start m' + 1\<rparr>"
    by (rule getYearMonthDay_eq [OF bounds cent(2) [symmetric] _ _ _ day(1) [symmetric]])
      (use cent(1) in \<open>simp_all add: algebra_simps\<close>)
  have a10: "m' div 10 = a"
    using md(1,2) by (intro div_eqI) (auto simp: m'_def a_def)
  have aj: "?a - 32044 = d + month_start m' + year_start Y - 32045"
    using year_start_century [OF b(1) Y(2,3)] Y(1) by (simp add: e_def)
  have "b * 100 + c - 4800 + a = y" "m' + 3 - 12 * a = m" "e - month_start m' + 1 = d"
    using Y(1) by (simp_all add: e_def m'_def Y_def)
  with ymd have "getYearMonthDay (?a - 32044) = Some \<lparr>ymd_year = y, ymd_month = m, ymd_day = d\<rparr>"
    by (simp only: a10)
  with j show ?thesis by (simp only: aj) simp
qed

section \<open>Properties\<close>

text \<open>
  C38: the two conversions are inverse to each other on the Gregorian calendar. Every date
  that exists, from the year -4799 to the year 1000000, has a day number that converts back
  to it; the first of January 1970 has the number the code computes at start-up.
\<close>

theorem date_to_julian_and_back:
  assumes "- 4799 \<le> y" and "y \<le> 1000000" and "valid_ymd y m d"
  shows "\<exists>date. Date_new y m d = Some date \<and>
    yearMonthDay date = Some \<lparr>ymd_year = y, ymd_month = m, ymd_day = d\<rparr>"
  using date_round_trip [OF assms] by (auto simp: Date_new_def yearMonthDay_def)

theorem date_to_julian_and_back_witness:
  "\<exists>date. Date_new 2000 2 29 = Some date \<and> yearMonthDay date = Some \<lparr>ymd_year = 2000, ymd_month = 2, ymd_day = 29\<rparr>"
  using date_to_julian_and_back [of 2000 2 29] by (simp add: valid_ymd_def days_in_month_def is_leap_def)

text \<open>
  Every day number from 0 to 536838867 is converted to a month, a day and a year, without
  overflow, that give the same number back, and one day later the computation overflows:
  the range is exact.
\<close>

theorem julian_to_date_and_back:
  assumes "0 \<le> j"
  shows "if j \<le> 536838867
    then \<exists>ymd. yearMonthDay (MkDate j) = Some ymd \<and> 1 \<le> ymd_month ymd \<and> ymd_month ymd \<le> 12 \<and>
      1 \<le> ymd_day ymd \<and> ymd_day ymd \<le> 31 \<and> Date_new (ymd_year ymd) (ymd_month ymd) (ymd_day ymd) = Some (MkDate j)
    else yearMonthDay (MkDate j) = None"
proof (cases "j \<le> 536838867")
  case True
  with julian_round_trip [OF assms True] show ?thesis by (auto simp: yearMonthDay_def Date_new_def)
next
  case False
  then show ?thesis by (auto simp: yearMonthDay_def getYearMonthDay_def i32_def)
qed

theorem julian_to_date_and_back_witness:
  "(\<exists>ymd. yearMonthDay (MkDate 2440588) = Some ymd \<and>
     Date_new (ymd_year ymd) (ymd_month ymd) (ymd_day ymd) = Some (MkDate 2440588)) \<and>
   yearMonthDay (MkDate 536838868) = None"
  using julian_to_date_and_back [of 2440588] julian_to_date_and_back [of 536838868] by auto

end
