(* ===== verification/Time_Zone.thy ===== *)
theory Time_Zone
  imports Date
begin

text \<open>
  \<open>net::TimeZone\<close> (\<open>srcs/timer/time_zone.h\<close>, \<open>time_zone.cc\<close>): conversion between seconds since
  the epoch and broken-down UTC time, the search for the local time type in force, the
  reader of compiled time zone files, and local time.

  \<open>gmtime_r\<close> and \<open>timegm\<close> of the C library, which local time uses, are parameters. A file is
  its content, or nothing when it cannot be opened; \<open>File\<close> reads it from the front and
  throws (\<open>Inl\<close>) when it is too short.
\<close>

section \<open>Data\<close>

record transition =
  gmttime :: int
  localtime :: int
  localtimeIdx :: int

record local_time =
  gmtOffset :: int
  isDst :: bool
  arrbIdx :: int

record tz_data =
  transitions :: "transition list"
  localtimes :: "local_time list"
  names :: "string list"
  tz_abbreviation :: string

record tm =
  tm_sec :: int
  tm_min :: int
  tm_hour :: int
  tm_mday :: int
  tm_mon :: int
  tm_year :: int
  tm_wday :: int
  tm_yday :: int
  tm_isdst :: int
  tm_gmtoff :: int
  tm_zone :: string

definition tm_zero :: tm where
  "tm_zero = \<lparr>tm_sec = 0, tm_min = 0, tm_hour = 0, tm_mday = 0, tm_mon = 0, tm_year = 0, tm_wday = 0, tm_yday = 0,
     tm_isdst = 0, tm_gmtoff = 0, tm_zone = []\<rparr>"

definition tz_data_new :: tz_data where
  "tz_data_new = \<lparr>transitions = [], localtimes = [], names = [], tz_abbreviation = []\<rparr>"

definition kSecondsPerDay :: int where
  [cpp_consts]: "kSecondsPerDay = 24 * 60 * 60"

section \<open>UTC\<close>

text \<open>The constructor of \<open>Date\<close> from a broken-down time.\<close>

definition Date_of_tm :: "tm \<Rightarrow> date option" where
  "Date_of_tm t =
     do {
       year \<leftarrow> i32 (tm_year t + 1900);
       month \<leftarrow> i32 (tm_mon t + 1);
       n \<leftarrow> getJulianDayNumber year month (tm_mday t);
       Some (MkDate n)
     }"

text \<open>\<open>seconds\<close> is an \<open>unsigned\<close>.\<close>

definition fillHMS :: "int \<Rightarrow> tm \<Rightarrow> tm" where
  "fillHMS seconds utc =
     (let minutes = seconds div 60 in
      utc\<lparr>tm_sec := seconds mod 60, tm_min := minutes mod 60, tm_hour := minutes div 60\<rparr>)"

definition toUtcTime :: "int \<Rightarrow> bool \<Rightarrow> tm option" where
  "toUtcTime secondsSinceEpoch yday =
     do {
       let utc = tm_zero\<lparr>tm_zone := ''GMT''\<rparr>;
       let seconds0 = to_int32 (secondsSinceEpoch smod kSecondsPerDay);
       let days0 = to_int32 (secondsSinceEpoch sdiv kSecondsPerDay);
       (seconds, days) \<leftarrow>
         (if seconds0 < 0 then do { d \<leftarrow> i32 (days0 - 1); Some (seconds0 + kSecondsPerDay, d) }
          else Some (seconds0, days0));
       let utc = fillHMS seconds utc;
       jd \<leftarrow> i32 (days + kJulianDayOf1970_01_01);
       let date = MkDate jd;
       ymd \<leftarrow> yearMonthDay date;
       yr \<leftarrow> i32 (ymd_year ymd - 1900);
       wd \<leftarrow> weekDay date;
       let utc = utc\<lparr>tm_year := yr, tm_mon := ymd_month ymd - 1, tm_mday := ymd_day ymd, tm_wday := wd\<rparr>;
       if yday then do {
         startOfYear \<leftarrow> Date_new (ymd_year ymd) 1 1;
         n \<leftarrow> i32 (julianDayNumber date - julianDayNumber startOfYear);
         Some (utc\<lparr>tm_yday := n\<rparr>)
       }
       else Some utc
     }"

definition fromUtcTime6 :: "int \<Rightarrow> int \<Rightarrow> int \<Rightarrow> int \<Rightarrow> int \<Rightarrow> int \<Rightarrow> int option" where
  "fromUtcTime6 year month day hour minute seconds =
     do {
       date \<leftarrow> Date_new year month day;
       h \<leftarrow> i32 (hour * 3600);
       m \<leftarrow> i32 (minute * 60);
       s \<leftarrow> i32 (h + m);
       secondsInDay \<leftarrow> i32 (s + seconds);
       days \<leftarrow> i32 (julianDayNumber date - kJulianDayOf1970_01_01);
       i64 (days * kSecondsPerDay + secondsInDay)
     }"

definition fromUtcTime :: "tm \<Rightarrow> int option" where
  "fromUtcTime utc =
     do {
       year \<leftarrow> i32 (tm_year utc + 1900);
       month \<leftarrow> i32 (tm_mon utc + 1);
       fromUtcTime6 year month (tm_mday utc) (tm_hour utc) (tm_min utc) (tm_sec utc)
     }"

section \<open>Transitions\<close>

text \<open>\<open>Comp\<close>: the field compared.\<close>

definition Comp_key :: "bool \<Rightarrow> transition \<Rightarrow> int" where
  "Comp_key compareGmt t = (if compareGmt then gmttime t else localtime t)"

definition Comp_less :: "bool \<Rightarrow> transition \<Rightarrow> transition \<Rightarrow> bool" where
  "Comp_less compareGmt lhs rhs \<longleftrightarrow> Comp_key compareGmt lhs < Comp_key compareGmt rhs"

definition Comp_equal :: "bool \<Rightarrow> transition \<Rightarrow> transition \<Rightarrow> bool" where
  "Comp_equal compareGmt lhs rhs \<longleftrightarrow> Comp_key compareGmt lhs = Comp_key compareGmt rhs"

text \<open>\<open>std::lower_bound\<close>: binary search in the \<open>len\<close> elements from \<open>first\<close> on.\<close>

fun std_lower_bound :: "('a \<Rightarrow> bool) \<Rightarrow> 'a list \<Rightarrow> nat \<Rightarrow> nat \<Rightarrow> nat" where
  "std_lower_bound below xs first len =
     (if len = 0 then first
      else
        (let half = len div 2 in
         if below (xs ! (first + half)) then std_lower_bound below xs (first + half + 1) (len - half - 1)
         else std_lower_bound below xs first half))"

declare std_lower_bound.simps [simp del]

definition local_at :: "local_time list \<Rightarrow> int \<Rightarrow> local_time option" where
  "local_at lts i = (if 0 \<le> i then vec_at lts (nat i) else None)"

definition findLocaltime :: "bool \<Rightarrow> tz_data \<Rightarrow> transition \<Rightarrow> bool \<Rightarrow> local_time option" where
  "findLocaltime ndebug data sentry gmt =
     (if transitions data = [] \<or> Comp_less gmt sentry (hd (transitions data))
      then vec_at (localtimes data) 0
      else
        (let transI = std_lower_bound (\<lambda>t. Comp_less gmt t sentry) (transitions data) 0 (length (transitions data)) in
         if transI \<noteq> length (transitions data) then
           do {
             transI \<leftarrow> (if \<not> Comp_equal gmt sentry (transitions data ! transI)
                       then do { cpp_assert ndebug (transI \<noteq> 0); if transI = 0 then None else Some (transI - 1) }
                       else Some transI);
             local_at (localtimes data) (localtimeIdx (transitions data ! transI))
           }
         else local_at (localtimes data) (localtimeIdx (last (transitions data)))))"

section \<open>Local time\<close>

text \<open>A \<open>TimeZone\<close> is a pointer to its data. The position of a name in the abbreviations may be their end.\<close>

definition TimeZone_fixed :: "int \<Rightarrow> string \<Rightarrow> tz_data option" where
  "TimeZone_fixed eastOfUtc name =
     Some (tz_data_new\<lparr>localtimes := [\<lparr>gmtOffset = eastOfUtc, isDst = False, arrbIdx = 0\<rparr>], tz_abbreviation := name\<rparr>)"

definition TimeZone_valid :: "tz_data option \<Rightarrow> bool" where
  "TimeZone_valid zone \<longleftrightarrow> zone \<noteq> None"

definition zone_name :: "tz_data \<Rightarrow> local_time \<Rightarrow> string option" where
  "zone_name data l =
     (if 0 \<le> arrbIdx l \<and> nat (arrbIdx l) \<le> length (tz_abbreviation data)
      then Some (c_str (drop (nat (arrbIdx l)) (tz_abbreviation data))) else None)"

definition toLocalTime :: "bool \<Rightarrow> (int \<Rightarrow> tm) \<Rightarrow> tz_data option \<Rightarrow> int \<Rightarrow> tm option" where
  "toLocalTime ndebug gmtime_r zone seconds =
     do {
       data \<leftarrow> zone;
       l \<leftarrow> findLocaltime ndebug data \<lparr>gmttime = seconds, localtime = 0, localtimeIdx = 0\<rparr> True;
       localSeconds \<leftarrow> i64 (seconds + gmtOffset l);
       name \<leftarrow> zone_name data l;
       Some ((gmtime_r localSeconds)\<lparr>tm_isdst := of_bool (isDst l), tm_gmtoff := gmtOffset l, tm_zone := name\<rparr>)
     }"

definition fromLocalTime ::
  "bool \<Rightarrow> (int \<Rightarrow> tm) \<Rightarrow> (tm \<Rightarrow> int) \<Rightarrow> tz_data option \<Rightarrow> tm \<Rightarrow> int option" where
  "fromLocalTime ndebug gmtime_r timegm zone localTm =
     do {
       data \<leftarrow> zone;
       let seconds = timegm localTm;
       l \<leftarrow> findLocaltime ndebug data \<lparr>gmttime = 0, localtime = seconds, localtimeIdx = 0\<rparr> False;
       seconds1 \<leftarrow>
         (if tm_isdst localTm \<noteq> 0 then do {
            t \<leftarrow> i64 (seconds - gmtOffset l);
            tryTm \<leftarrow> toLocalTime ndebug gmtime_r zone t;
            if tm_isdst tryTm = 0 \<and> tm_hour tryTm = tm_hour localTm \<and> tm_min tryTm = tm_min localTm
            then i64 (seconds - 3600) else Some seconds
          }
          else Some seconds);
       i64 (seconds1 - gmtOffset l)
     }"

section \<open>Time zone files\<close>

text \<open>
  Readers of big-endian numbers from the rest of a file; \<open>None\<close> is the exception the code
  throws when the file is too short. \<open>read_many\<close> is a loop of reads: the values read, and
  the rest of the file unless a read has thrown.
\<close>

definition readUInt8 :: "string \<Rightarrow> (int \<times> string) option" where
  "readUInt8 f = (case f of [] \<Rightarrow> None | x # f' \<Rightarrow> Some (of_char x, f'))"

definition readBytes :: "nat \<Rightarrow> string \<Rightarrow> (string \<times> string) option" where
  "readBytes n f = (if length f < n then None else Some (take n f, drop n f))"

definition be32 :: "string \<Rightarrow> int" where
  "be32 bs = (let u = foldl (\<lambda>n x. 256 * n + of_char x) 0 bs in if u < 2 ^ 31 then u else u - 2 ^ 32)"

definition readInt32 :: "string \<Rightarrow> (int \<times> string) option" where
  "readInt32 f = do { (bs, f') \<leftarrow> readBytes 4 f; Some (be32 bs, f') }"

fun read_many :: "(string \<Rightarrow> ('a \<times> string) option) \<Rightarrow> nat \<Rightarrow> string \<Rightarrow> 'a list \<times> string option" where
  "read_many rd 0 f = ([], Some f)"
| "read_many rd (Suc n) f =
     (case rd f of None \<Rightarrow> ([], None) | Some (x, f') \<Rightarrow> map_prod (Cons x) id (read_many rd n f'))"

definition read_ttinfo :: "string \<Rightarrow> (local_time \<times> string) option" where
  "read_ttinfo f =
     do {
       (gmtoff, f1) \<leftarrow> readInt32 f;
       (isdst, f2) \<leftarrow> readUInt8 f1;
       (abbrind, f3) \<leftarrow> readUInt8 f2;
       Some (\<lparr>gmtOffset = gmtoff, isDst = (isdst \<noteq> 0), arrbIdx = abbrind\<rparr>, f3)
     }"

text \<open>The header: the counts of times, types and characters.\<close>

definition read_header :: "string \<Rightarrow> ((int \<times> int \<times> int) \<times> string) option" where
  "read_header f =
     do {
       (head, f1) \<leftarrow> readBytes 4 f;
       (if head \<noteq> ''TZif'' then None else Some ());
       (version, f2) \<leftarrow> readBytes 1 f1;
       (unused, f3) \<leftarrow> readBytes 15 f2;
       (isgmtcnt, f4) \<leftarrow> readInt32 f3;
       (isstdcnt, f5) \<leftarrow> readInt32 f4;
       (leapcnt, f6) \<leftarrow> readInt32 f5;
       (timecnt, f7) \<leftarrow> readInt32 f6;
       (typecnt, f8) \<leftarrow> readInt32 f7;
       (charcnt, f9) \<leftarrow> readInt32 f8;
       Some ((timecnt, typecnt, charcnt), f9)
     }"

fun make_transitions :: "local_time list \<Rightarrow> (int \<times> int) list \<Rightarrow> transition list option" where
  "make_transitions lts [] = Some []"
| "make_transitions lts ((t, i) # ts) =
     do {
       l \<leftarrow> local_at lts i;
       rest \<leftarrow> make_transitions lts ts;
       Some (\<lparr>gmttime = t, localtime = t + gmtOffset l, localtimeIdx = i\<rparr> # rest)
     }"

text \<open>
  The reader. It returns \<open>true\<close> in every case; what was stored before an exception stays.
  Reserving a negative number of elements throws as well; an array of negative size and an
  index behind the table of types are undefined.
\<close>

definition readTimeZoneFile :: "string option \<Rightarrow> (bool \<times> tz_data) option" where
  "readTimeZoneFile zonefile =
     (case zonefile of
        None \<Rightarrow> Some (True, tz_data_new)
      | Some f \<Rightarrow>
          (case read_header f of
             None \<Rightarrow> Some (True, tz_data_new)
           | Some ((timecnt, typecnt, charcnt), f0) \<Rightarrow>
               if timecnt < 0 then Some (True, tz_data_new)
               else
                 (case read_many readInt32 (nat timecnt) f0 of
                    (_, None) \<Rightarrow> Some (True, tz_data_new)
                  | (tts, Some f1) \<Rightarrow>
                      (case read_many readUInt8 (nat timecnt) f1 of
                         (_, None) \<Rightarrow> Some (True, tz_data_new)
                       | (idx, Some f2) \<Rightarrow>
                           (case read_many read_ttinfo (nat typecnt) f2 of
                              (lts, None) \<Rightarrow> Some (True, tz_data_new\<lparr>localtimes := lts\<rparr>)
                            | (lts, Some f3) \<Rightarrow>
                                do {
                                  ts \<leftarrow> make_transitions lts (zip tts idx);
                                  let data = tz_data_new\<lparr>localtimes := lts, transitions := ts\<rparr>;
                                  if charcnt < 0 then None
                                  else case readBytes (nat charcnt) f3 of
                                         None \<Rightarrow> Some (True, data)
                                       | Some (abbr, _) \<Rightarrow> Some (True, data\<lparr>tz_abbreviation := abbr\<rparr>)
                                })))))"

definition TimeZone_file :: "string option \<Rightarrow> tz_data option option" where
  "TimeZone_file zonefile =
     do { (ok, data) \<leftarrow> readTimeZoneFile zonefile; Some (if \<not> ok then None else Some data) }"

section \<open>UTC round trips\<close>

lemma day_of_seconds:
  fixes t :: int
  assumes "q = t sdiv 86400" and "r = t smod 86400"
  shows "- 86400 < r" "r < 86400" "t div 86400 = (if r < 0 then q - 1 else q)"
    "t mod 86400 = (if r < 0 then r + 86400 else r)"
proof -
  have t: "t = 86400 * q + r" using assms mult_sdiv_smod_eq [of 86400 t] by simp
  have "\<bar>r\<bar> < 86400"
    using assms(2) by (simp add: signed_modulo_int_def abs_mult sgn_if)
  then show r: "- 86400 < r" "r < 86400" by linarith+
  show d: "t div 86400 = (if r < 0 then q - 1 else q)"
    using r t by (intro div_eqI) (auto simp: algebra_simps)
  have m: "t mod 86400 = t - 86400 * (t div 86400)" by (simp add: minus_mult_div_eq_mod)
  show "t mod 86400 = (if r < 0 then r + 86400 else r)"
    unfolding m d by (simp add: t right_diff_distrib del: mod_mult_self1 mod_mult_self2)
qed

definition utc_of :: "int \<Rightarrow> int \<Rightarrow> year_month_day \<Rightarrow> tm" where
  "utc_of jd s ymd = (fillHMS s (tm_zero\<lparr>tm_zone := ''GMT''\<rparr>))\<lparr>tm_year := ymd_year ymd - 1900,
     tm_mon := ymd_month ymd - 1, tm_mday := ymd_day ymd, tm_wday := (jd + 1) mod 7\<rparr>"

lemma utc_of_fields:
  "tm_sec (utc_of jd s ymd) = s mod 60" "tm_min (utc_of jd s ymd) = s div 60 mod 60"
  "tm_hour (utc_of jd s ymd) = s div 60 div 60" "tm_wday (utc_of jd s ymd) = (jd + 1) mod 7"
  by (simp_all add: utc_of_def fillHMS_def Let_def)

lemma toUtcTime_eq:
  assumes "jd = t div 86400 + 2440588" and "0 \<le> jd" and "jd \<le> 536838867" and "getYearMonthDay jd = Some ymd"
    and "- 4799 \<le> ymd_year ymd" and "ymd_year ymd \<le> 5000000"
  shows "toUtcTime t False = Some (utc_of jd (t mod 86400) ymd)"
proof -
  define q where "q = t sdiv 86400"
  define r where "r = t smod 86400"
  note dm = day_of_seconds [OF q_def r_def]
  have q: "- 2440588 \<le> q" "q \<le> 536838867"
    using assms(1-3) dm(3) by (auto split: if_splits)
  have i: "i32 jd = Some jd" "i32 (ymd_year ymd - 1900) = Some (ymd_year ymd - 1900)"
    "i32 (jd + 1) = Some (jd + 1)" "i32 (q - 1) = Some (q - 1)"
    using dm(1,2) q assms(2,3,5,6) by (intro i32_Some; linarith)+
  have c: "to_int32 r = r" "to_int32 q = q"
    using dm(1,2) q by (intro to_int32_id; linarith)+
  have w: "(jd + 1) smod 7 = (jd + 1) mod 7" using assms(2) by simp
  have jd: "(if r < 0 then q - 1 else q) + 2440588 = jd" using assms(1) dm(3) by simp
  have k: "kSecondsPerDay = 86400" by (simp add: kSecondsPerDay_def)
  show ?thesis
    using jd dm(4) assms(4)
    by (simp add: toUtcTime_def k q_def [symmetric] r_def [symmetric] i c w yearMonthDay_def weekDay_def kDaysPerWeek_def
        kJulianDayOf1970_01_01_def utc_of_def Let_def split: if_splits)
qed

lemma hms_seconds: "s div 60 div 60 * 3600 + s div 60 mod 60 * 60 + s mod 60 = s" for s :: int
  by presburger

lemma hms_range:
  fixes s :: int
  assumes "0 \<le> s" and "s < 86400"
  shows "0 \<le> s mod 60" "s mod 60 < 60" "0 \<le> s div 60 mod 60" "s div 60 mod 60 < 60" "0 \<le> s div 60 div 60" "s div 60 div 60 < 24"
  using assms div_bounds [of 60 s] div_bounds [of 60 "s div 60"] by simp_all

lemma fromUtcTime6_eq:
  assumes "getJulianDayNumber y m d = Some jd" and "0 \<le> jd" and "jd \<le> 536838867"
    and "0 \<le> h" "h < 24" "0 \<le> mi" "mi < 60" "0 \<le> s" "s < 60"
  shows "fromUtcTime6 y m d h mi s = Some ((jd - 2440588) * 86400 + (h * 3600 + mi * 60 + s))"
proof -
  have i: "i32 (h * 3600) = Some (h * 3600)" "i32 (mi * 60) = Some (mi * 60)"
    "i32 (h * 3600 + mi * 60) = Some (h * 3600 + mi * 60)" "i32 (h * 3600 + mi * 60 + s) = Some (h * 3600 + mi * 60 + s)"
    "i32 (jd - 2440588) = Some (jd - 2440588)"
    using assms by (intro i32_Some; linarith)+
  have "i64 ((jd - 2440588) * 86400 + (h * 3600 + mi * 60 + s)) = Some ((jd - 2440588) * 86400 + (h * 3600 + mi * 60 + s))"
    using assms by (intro i64_Some; simp add: algebra_simps)
  with i assms(1) show ?thesis
    by (simp add: fromUtcTime6_def Date_new_def kJulianDayOf1970_01_01_def kSecondsPerDay_def)
qed

lemma utc_round_trip:
  assumes "- 210866803200 \<le> t" and "t \<le> 46172011391999"
  shows "\<exists>utc. toUtcTime t False = Some utc \<and> fromUtcTime utc = Some t \<and>
    0 \<le> tm_sec utc \<and> tm_sec utc < 60 \<and> 0 \<le> tm_min utc \<and> tm_min utc < 60 \<and> 0 \<le> tm_hour utc \<and> tm_hour utc < 24 \<and>
    tm_wday utc = (t div 86400 + 4) mod 7"
proof -
  define jd where "jd = t div 86400 + 2440588"
  define s where "s = t mod 86400"
  have jd: "0 \<le> jd" "jd \<le> 536838867"
    using assms div_bounds [of 86400 t] unfolding jd_def by linarith+
  have t: "(jd - 2440588) * 86400 + s = t" by (simp add: jd_def s_def)
  have s: "0 \<le> s" "s < 86400" by (simp_all add: s_def)
  obtain ymd where ymd: "getYearMonthDay jd = Some ymd" "1 \<le> ymd_month ymd" "ymd_month ymd \<le> 12"
    "- 4799 \<le> ymd_year ymd" "ymd_year ymd \<le> 5000000"
    "getJulianDayNumber (ymd_year ymd) (ymd_month ymd) (ymd_day ymd) = Some jd"
    using julian_round_trip [OF jd] by blast
  have utc: "toUtcTime t False = Some (utc_of jd s ymd)"
    using toUtcTime_eq [OF jd_def jd ymd(1,4,5)] by (simp add: s_def)
  have "i32 (ymd_year ymd) = Some (ymd_year ymd)" "i32 (ymd_month ymd) = Some (ymd_month ymd)"
    using ymd(2-5) by (intro i32_Some; linarith)+
  then have "fromUtcTime (utc_of jd s ymd) = Some t"
    using fromUtcTime6_eq [OF ymd(6) jd hms_range(5,6,3,4,1,2) [OF s]] t
    by (simp add: fromUtcTime_def utc_of_def fillHMS_def Let_def hms_seconds)
  moreover have "(jd + 1) mod 7 = (t div 86400 + 4) mod 7"
    using mod_add_right_eq [of "t div 86400" 2440589 7] by (simp add: jd_def add.assoc)
  ultimately show ?thesis
    using hms_range [OF s] by (intro exI [of _ "utc_of jd s ymd"] conjI) (simp_all only: utc utc_of_fields)
qed

section \<open>Which local time type is in force\<close>

definition splits_at :: "('a \<Rightarrow> bool) \<Rightarrow> 'a list \<Rightarrow> nat \<Rightarrow> nat \<Rightarrow> nat \<Rightarrow> bool" where
  "splits_at below xs first stop i \<longleftrightarrow> first \<le> i \<and> i \<le> stop \<and>
     (\<forall>j. first \<le> j \<and> j < i \<longrightarrow> below (xs ! j)) \<and> (\<forall>j. i \<le> j \<and> j < stop \<longrightarrow> \<not> below (xs ! j))"

lemma lower_bound_correct:
  assumes "\<And>i j. i \<le> j \<Longrightarrow> j < length xs \<Longrightarrow> below (xs ! j) \<Longrightarrow> below (xs ! i)" and "first + len \<le> length xs"
  shows "splits_at below xs first (first + len) (std_lower_bound below xs first len)"
  using assms(2)
proof (induction len arbitrary: first rule: less_induct)
  case (less len)
  let ?h = "first + len div 2"
  show ?case
  proof (cases "len = 0")
    case True
    then show ?thesis by (auto simp: std_lower_bound.simps [of _ _ _ 0] splits_at_def)
  next
    case len: False
    show ?thesis
    proof (cases "below (xs ! ?h)")
      case True
      let ?i = "std_lower_bound below xs (?h + 1) (len - len div 2 - 1)"
      have eq: "std_lower_bound below xs first len = ?i"
        using len True by (simp add: std_lower_bound.simps [of _ _ _ len] Let_def)
      have "splits_at below xs (?h + 1) (?h + 1 + (len - len div 2 - 1)) ?i"
        using len less.prems by (intro less.IH) auto
      moreover have "below (xs ! j)" if "j \<le> ?h" for j
        using assms(1) [OF that _ True] len less.prems by simp
      moreover have "?h + 1 + (len - len div 2 - 1) = first + len" using len by simp
      moreover have "j \<le> ?h \<or> ?h + 1 \<le> j" for j by linarith
      ultimately show ?thesis
        unfolding eq splits_at_def by auto
    next
      case False
      let ?i = "std_lower_bound below xs first (len div 2)"
      have eq: "std_lower_bound below xs first len = ?i"
        using len False by (simp add: std_lower_bound.simps [of _ _ _ len] Let_def)
      have "splits_at below xs first ?h ?i"
        using len less.prems by (intro less.IH) auto
      moreover have "\<not> below (xs ! j)" if "?h \<le> j" "j < first + len" for j
        using assms(1) [OF that(1)] that(2) less.prems False by auto
      moreover have "j < ?h \<or> ?h \<le> j" for j by linarith
      ultimately show ?thesis
        unfolding eq splits_at_def by auto
    qed
  qed
qed

text \<open>The reference: the type of the last transition that has happened, or the first type of all.\<close>

definition zone_at :: "bool \<Rightarrow> tz_data \<Rightarrow> int \<Rightarrow> local_time option" where
  "zone_at gmt data k =
     (let ts = filter (\<lambda>t. Comp_key gmt t \<le> k) (transitions data) in
      if ts = [] then vec_at (localtimes data) 0
      else local_at (localtimes data) (localtimeIdx (last ts)))"

lemma filter_take:
  assumes "n \<le> length xs" and "\<And>j. j < n \<Longrightarrow> P (xs ! j)" and "\<And>j. n \<le> j \<Longrightarrow> j < length xs \<Longrightarrow> \<not> P (xs ! j)"
  shows "filter P xs = take n xs"
proof -
  have "filter P (take n xs) = take n xs" using assms(1,2) by (auto simp: filter_id_conv in_set_conv_nth)
  moreover have "filter P (drop n xs) = []" using assms(1,3) by (auto simp: filter_empty_conv in_set_conv_nth)
  ultimately show ?thesis by (metis append_take_drop_id append_Nil2 filter_append)
qed

lemma findLocaltime_zone_at:
  assumes "sorted_wrt (\<lambda>x y. Comp_key gmt x < Comp_key gmt y) (transitions data)"
  shows "findLocaltime nd data sentry gmt = zone_at gmt data (Comp_key gmt sentry)"
proof -
  let ?xs = "transitions data" and ?k = "Comp_key gmt sentry"
  let ?P = "\<lambda>t. Comp_key gmt t \<le> ?k"
  have less: "Comp_key gmt (?xs ! i) < Comp_key gmt (?xs ! j)" if "i < j" "j < length ?xs" for i j
    using assms that by (simp add: sorted_wrt_iff_nth_less)
  show ?thesis
  proof (cases "?xs = [] \<or> Comp_less gmt sentry (hd ?xs)")
    case True
    have "filter ?P ?xs = take 0 ?xs"
    proof (rule filter_take)
      fix j assume j: "j < length ?xs"
      then have "hd ?xs = ?xs ! 0" by (cases ?xs) simp_all
      with j True less [of 0 j] show "\<not> ?P (?xs ! j)"
        by (cases "j = 0") (auto simp: Comp_less_def)
    qed simp_all
    with True show ?thesis by (simp add: findLocaltime_def zone_at_def)
  next
    case False
    let ?i = "std_lower_bound (\<lambda>t. Comp_less gmt t sentry) ?xs 0 (length ?xs)"
    have "splits_at (\<lambda>t. Comp_less gmt t sentry) ?xs 0 (0 + length ?xs) ?i"
    proof (rule lower_bound_correct)
      fix i j
      assume "i \<le> j" "j < length ?xs" "Comp_less gmt (?xs ! j) sentry"
      then show "Comp_less gmt (?xs ! i) sentry"
        using less [of i j] by (cases "i = j") (auto simp: Comp_less_def)
    qed simp
    then have i: "?i \<le> length ?xs" "\<And>j. j < ?i \<Longrightarrow> Comp_key gmt (?xs ! j) < ?k"
      "\<And>j. ?i \<le> j \<Longrightarrow> j < length ?xs \<Longrightarrow> ?k \<le> Comp_key gmt (?xs ! j)"
      by (auto simp: splits_at_def Comp_less_def)
    show ?thesis
    proof (cases "?i = length ?xs")
      case True
      then have "filter ?P ?xs = take (length ?xs) ?xs" using i(2) by (intro filter_take) (auto intro: less_imp_le)
      with True False show ?thesis by (auto simp: findLocaltime_def zone_at_def Let_def)
    next
      case lt: False
      then have il: "?i < length ?xs" using i(1) by simp
      show ?thesis
      proof (cases "Comp_key gmt (?xs ! ?i) = ?k")
        case True
        have "filter ?P ?xs = take (Suc ?i) ?xs"
        proof (rule filter_take)
          fix j assume "j < Suc ?i" then show "?P (?xs ! j)" using i(2) True by (cases "j = ?i") (auto intro: less_imp_le)
        next
          fix j assume "Suc ?i \<le> j" "j < length ?xs" then show "\<not> ?P (?xs ! j)" using less [of ?i j] True by auto
        qed (use il in simp)
        then show ?thesis
          using True lt False il
          by (simp add: findLocaltime_def zone_at_def Let_def Comp_equal_def take_Suc_conv_app_nth)
      next
        case ne: False
        have f: "filter ?P ?xs = take ?i ?xs"
        proof (rule filter_take)
          fix j assume j: "?i \<le> j" "j < length ?xs"
          then show "\<not> ?P (?xs ! j)" using i(3) [of ?i] less [of ?i j] ne il by (cases "j = ?i") auto
        qed (use i in \<open>auto intro: less_imp_le\<close>)
        have "?i \<noteq> 0"
        proof
          assume "?i = 0"
          with ne i(3) [of 0] il False show False by (auto simp: Comp_less_def hd_conv_nth)
        qed
        then obtain m where m: "?i = Suc m" by (cases ?i) auto
        then show ?thesis
          using ne lt False il f
          by (simp add: findLocaltime_def zone_at_def Let_def Comp_equal_def take_Suc_conv_app_nth)
      qed
    qed
  qed
qed

section \<open>Writing a time zone file\<close>

definition put32 :: "int \<Rightarrow> string" where
  "put32 x = map (\<lambda>k. char_of (x div 2 ^ k)) [24, 16, 8, 0]"

definition put_ttinfo :: "local_time \<Rightarrow> string" where
  "put_ttinfo l = put32 (gmtOffset l) @ [char_of (of_bool (isDst l) :: int), char_of (arrbIdx l)]"

definition tz_file :: "tz_data \<Rightarrow> string" where
  "tz_file data = ''TZif2'' @ replicate 15 NUL @ put32 0 @ put32 0 @ put32 0 @
     put32 (int (length (transitions data))) @ put32 (int (length (localtimes data))) @
     put32 (int (length (tz_abbreviation data))) @
     concat (map (\<lambda>t. put32 (gmttime t)) (transitions data)) @
     map (\<lambda>t. char_of (localtimeIdx t)) (transitions data) @
     concat (map put_ttinfo (localtimes data)) @ tz_abbreviation data"

definition is32 :: "int \<Rightarrow> bool" where
  "is32 x \<longleftrightarrow> - (2 ^ 31) \<le> x \<and> x < 2 ^ 31"

definition tz_data_ok :: "tz_data \<Rightarrow> bool" where
  "tz_data_ok data \<longleftrightarrow>
     (\<forall>t \<in> set (transitions data). is32 (gmttime t) \<and> 0 \<le> localtimeIdx t \<and> localtimeIdx t < 256 \<and>
        (\<exists>l. local_at (localtimes data) (localtimeIdx t) = Some l \<and> localtime t = gmttime t + gmtOffset l)) \<and>
     (\<forall>l \<in> set (localtimes data). is32 (gmtOffset l) \<and> 0 \<le> arrbIdx l \<and> arrbIdx l < 256) \<and>
     is32 (int (length (transitions data))) \<and> is32 (int (length (localtimes data))) \<and>
     is32 (int (length (tz_abbreviation data)))"

lemma of_char_char_of_int [simp]: "(of_char (char_of (x :: int)) :: int) = x mod 256"
  by (simp add: of_char_of take_bit_eq_mod)

lemma mod_bytes:
  fixes x :: int
  shows "256 * (256 * (256 * (x div 16777216 mod 256) + x div 65536 mod 256) + x div 256 mod 256) + x mod 256 = x mod 4294967296"
  using zmod_zmult2_eq [of 256 x 256] zmod_zmult2_eq [of 256 x 65536] zmod_zmult2_eq [of 256 x 16777216] by simp

lemma be32_put32_mod:
  "be32 (put32 x) = (if x mod 4294967296 < 2147483648 then x mod 4294967296 else x mod 4294967296 - 4294967296)"
proof -
  have "foldl (\<lambda>n c. 256 * n + of_char c) (0 :: int) (put32 x) = x mod 4294967296"
    unfolding mod_bytes [symmetric] by (simp add: put32_def)
  then show ?thesis by (simp add: be32_def)
qed

lemma be32_put32 [simp]:
  assumes "is32 x"
  shows "be32 (put32 x) = x"
proof (cases "0 \<le> x")
  case True
  then have "x mod 4294967296 = x" using assms by (simp add: is32_def)
  with assms show ?thesis unfolding be32_put32_mod by (simp only:) (simp add: is32_def)
next
  case False
  have "(x + 4294967296) mod 4294967296 = x + 4294967296"
    using False assms by (intro mod_pos_pos_trivial) (simp_all add: is32_def)
  then have "x mod 4294967296 = x + 4294967296" by simp
  with False assms show ?thesis unfolding be32_put32_mod by (simp only:) (simp add: is32_def)
qed

lemma length_put32 [simp]: "length (put32 x) = 4"
  by (simp add: put32_def)

lemma readBytes_append: "length bs = n \<Longrightarrow> readBytes n (bs @ f) = Some (bs, f)"
  by (simp add: readBytes_def)

lemma readInt32_put32: "is32 x \<Longrightarrow> readInt32 (put32 x @ f) = Some (x, f)"
  by (simp add: readInt32_def readBytes_append)

lemma readUInt8_char: "0 \<le> x \<Longrightarrow> x < 256 \<Longrightarrow> readUInt8 (char_of x # f) = Some (x, f)" for x :: int
  by (simp add: readUInt8_def)

lemma read_many_concat:
  assumes "\<And>x f. x \<in> set xs \<Longrightarrow> rd (put x @ f) = Some (g x, f)" and "n = length xs"
  shows "read_many rd n (concat (map put xs) @ f) = (map g xs, Some f)"
  unfolding assms(2) using assms(1) by (induction xs) simp_all

lemma read_ttinfo_put:
  assumes "is32 (gmtOffset l)" "0 \<le> arrbIdx l" "arrbIdx l < 256"
  shows "read_ttinfo (put_ttinfo l @ f) = Some (l, f)"
proof -
  have "readUInt8 (char_of (of_bool (isDst l) :: int) # f') = Some (of_bool (isDst l), f')" for f'
    by (cases "isDst l") (simp_all add: readUInt8_def)
  with assms show ?thesis
    by (simp add: read_ttinfo_def put_ttinfo_def readInt32_put32 readUInt8_char)
qed

lemma make_transitions_same:
  assumes "\<And>t. t \<in> set ts \<Longrightarrow> \<exists>l. local_at lts (localtimeIdx t) = Some l \<and> localtime t = gmttime t + gmtOffset l"
  shows "make_transitions lts (zip (map gmttime ts) (map localtimeIdx ts)) = Some ts"
  using assms
proof (induction ts)
  case (Cons t ts)
  from Cons.prems [of t] obtain l where "local_at lts (localtimeIdx t) = Some l" "localtime t = gmttime t + gmtOffset l"
    by auto
  with Cons show ?case by simp
qed simp

lemma read_header_put:
  assumes "is32 a" "is32 b" "is32 c"
  shows "read_header (''TZif2'' @ replicate 15 NUL @ put32 0 @ put32 0 @ put32 0 @ put32 a @ put32 b @ put32 c @ f) =
    Some ((a, b, c), f)"
proof -
  have z: "is32 0" by (simp add: is32_def)
  have e: "''TZif2'' @ g = ''TZif'' @ ''2'' @ g" for g by simp
  show ?thesis
    unfolding e read_header_def
    by (simp only: readBytes_append [of "''TZif''" 4] readBytes_append [of "''2''" 1] readBytes_append [of "replicate 15 NUL" 15]
        readInt32_put32 z assms list.size length_replicate)
      (simp add: readBytes_def readInt32_put32 z assms)
qed

lemma read_tz_file:
  assumes "tz_data_ok data"
  shows "readTimeZoneFile (Some (tz_file data @ rest)) = Some (True, data\<lparr>names := []\<rparr>)"
proof -
  let ?ts = "transitions data" and ?ls = "localtimes data"
  have ok: "\<And>t. t \<in> set ?ts \<Longrightarrow> is32 (gmttime t)" "\<And>t. t \<in> set ?ts \<Longrightarrow> 0 \<le> localtimeIdx t \<and> localtimeIdx t < 256"
    "\<And>t. t \<in> set ?ts \<Longrightarrow> \<exists>l. local_at ?ls (localtimeIdx t) = Some l \<and> localtime t = gmttime t + gmtOffset l"
    "\<And>l. l \<in> set ?ls \<Longrightarrow> is32 (gmtOffset l) \<and> 0 \<le> arrbIdx l \<and> arrbIdx l < 256"
    "is32 (int (length ?ts))" "is32 (int (length ?ls))" "is32 (int (length (tz_abbreviation data)))"
    using assms by (auto simp: tz_data_ok_def)
  have times: "read_many readInt32 (length ?ts) (concat (map (\<lambda>t. put32 (gmttime t)) ?ts) @ f) = (map gmttime ?ts, Some f)" for f
    using ok(1) by (intro read_many_concat) (simp_all add: readInt32_put32)
  have idx: "read_many readUInt8 (length ?ts) (map (\<lambda>t. char_of (localtimeIdx t)) ?ts @ f) = (map localtimeIdx ?ts, Some f)" for f
    using read_many_concat [of ?ts readUInt8 "\<lambda>t. [char_of (localtimeIdx t)]" localtimeIdx] ok(2) by (simp add: readUInt8_char)
  have types: "read_many read_ttinfo (length ?ls) (concat (map put_ttinfo ?ls) @ f) = (?ls, Some f)" for f
    using read_many_concat [of ?ls read_ttinfo put_ttinfo "\<lambda>l. l"] ok(4) read_ttinfo_put by simp
  show ?thesis
    by (simp add: tz_file_def readTimeZoneFile_def read_header_put [OF ok(5-7), simplified] times idx types
        make_transitions_same [OF ok(3)] readBytes_append tz_data_new_def)
qed

section \<open>Local time\<close>

text \<open>
  What the code needs of the C library on the seconds between \<open>lo\<close> and \<open>hi\<close>: \<open>timegm\<close> takes
  what \<open>gmtime_r\<close> has filled in back to the seconds, and does not look at the daylight
  saving flag, the offset and the name.
\<close>

definition timegm_inverts :: "(int \<Rightarrow> tm) \<Rightarrow> (tm \<Rightarrow> int) \<Rightarrow> int \<Rightarrow> int \<Rightarrow> bool" where
  "timegm_inverts gmtime_r timegm lo hi \<longleftrightarrow>
     (\<forall>t. lo \<le> t \<and> t \<le> hi \<longrightarrow> timegm (gmtime_r t) = t) \<and>
     (\<forall>u d g z. timegm (u\<lparr>tm_isdst := d, tm_gmtoff := g, tm_zone := z\<rparr>) = timegm u)"

definition sorted_transitions :: "tz_data \<Rightarrow> bool" where
  "sorted_transitions data \<longleftrightarrow> (\<forall>gmt. sorted_wrt (\<lambda>x y. Comp_key gmt x < Comp_key gmt y) (transitions data))"

lemma sorted_transitionsD:
  "sorted_transitions data \<Longrightarrow> findLocaltime nd data sentry gmt = zone_at gmt data (Comp_key gmt sentry)"
  by (rule findLocaltime_zone_at) (simp add: sorted_transitions_def)

lemma toLocalTime_eq:
  assumes "sorted_transitions data" and "zone_at True data t = Some l" and "zone_name data l = Some n"
    and "i64 (t + gmtOffset l) = Some (t + gmtOffset l)"
  shows "toLocalTime nd gm (Some data) t =
    Some ((gm (t + gmtOffset l))\<lparr>tm_isdst := of_bool (isDst l), tm_gmtoff := gmtOffset l, tm_zone := n\<rparr>)"
  using assms by (simp add: toLocalTime_def sorted_transitionsD Comp_key_def)

lemma local_time_round_trip:
  assumes "sorted_transitions data" and "timegm_inverts gm tg lo hi"
    and "zone_at True data t = Some l" and "zone_at False data (t + gmtOffset l) = Some l" and "zone_name data l = Some n"
    and "lo \<le> t + gmtOffset l" "t + gmtOffset l \<le> hi" and "i64 (t + gmtOffset l) = Some (t + gmtOffset l)" "i64 t = Some t"
  shows "\<exists>lt. toLocalTime nd gm (Some data) t = Some lt \<and> fromLocalTime nd gm tg (Some data) lt = Some t"
proof -
  note lt = toLocalTime_eq [OF assms(1,3,5,8), of nd gm]
  have tg: "tg ((gm (t + gmtOffset l))\<lparr>tm_isdst := d, tm_gmtoff := g, tm_zone := z\<rparr>) = t + gmtOffset l" for d g z
    using assms(2,6,7) by (simp add: timegm_inverts_def)
  show ?thesis
    by (simp add: lt fromLocalTime_def tg sorted_transitionsD [OF assms(1)] Comp_key_def assms(4,9))
qed

section \<open>Properties\<close>

text \<open>
  C36: converting seconds since the epoch to UTC and back gives the same seconds, for every
  time from the Julian day 0 up to the year 1.46 million, with the time of day in range and the
  right day of the week (the epoch was a Thursday).
\<close>

theorem utc_time_and_back:
  assumes "- 210866803200 \<le> t" and "t \<le> 46172011391999"
  shows "\<exists>utc. toUtcTime t False = Some utc \<and> fromUtcTime utc = Some t \<and>
    0 \<le> tm_sec utc \<and> tm_sec utc < 60 \<and> 0 \<le> tm_min utc \<and> tm_min utc < 60 \<and> 0 \<le> tm_hour utc \<and> tm_hour utc < 24 \<and>
    tm_wday utc = (t div 86400 + 4) mod 7"
  using assms by (rule utc_round_trip)

theorem utc_time_and_back_witness:
  "\<exists>utc. toUtcTime (- 1) False = Some utc \<and> fromUtcTime utc = Some (- 1) \<and>
    0 \<le> tm_sec utc \<and> tm_sec utc < 60 \<and> 0 \<le> tm_min utc \<and> tm_min utc < 60 \<and> 0 \<le> tm_hour utc \<and> tm_hour utc < 24 \<and>
    tm_wday utc = (- 1 div 86400 + 4) mod 7"
  by (rule utc_time_and_back) simp_all

text \<open>
  C34: with the transitions in strictly increasing order, the binary search of \<open>findLocaltime\<close>
  returns the type of the last transition that is not after the given time, and the first
  type of the table before all of them; its assertion never fails.
\<close>

theorem localtime_in_force:
  assumes "sorted_wrt (\<lambda>x y. Comp_key gmt x < Comp_key gmt y) (transitions data)"
  shows "findLocaltime nd data sentry gmt =
    (let past = filter (\<lambda>t. Comp_key gmt t \<le> Comp_key gmt sentry) (transitions data) in
     if past = [] then vec_at (localtimes data) 0 else local_at (localtimes data) (localtimeIdx (last past)))"
  using findLocaltime_zone_at [OF assms] by (simp add: zone_at_def)

definition sample_zone :: tz_data where
  "sample_zone = \<lparr>transitions = [\<lparr>gmttime = 1000000, localtime = 985600, localtimeIdx = 1\<rparr>,
       \<lparr>gmttime = 20000000, localtime = 19982000, localtimeIdx = 0\<rparr>],
     localtimes = [\<lparr>gmtOffset = - 18000, isDst = False, arrbIdx = 0\<rparr>, \<lparr>gmtOffset = - 14400, isDst = True, arrbIdx = 4\<rparr>],
     names = [], tz_abbreviation = ''EST'' @ [NUL] @ ''EDT'' @ [NUL]\<rparr>"

theorem localtime_in_force_witness:
  "findLocaltime False sample_zone \<lparr>gmttime = 5000000, localtime = 0, localtimeIdx = 0\<rparr> True =
     Some \<lparr>gmtOffset = - 14400, isDst = True, arrbIdx = 4\<rparr>"
  using localtime_in_force [of True sample_zone False "\<lparr>gmttime = 5000000, localtime = 0, localtimeIdx = 0\<rparr>"]
  by (simp add: sample_zone_def Comp_key_def local_at_def vec_at_def Let_def)

text \<open>
  C33: the reader of compiled time zone files gives back what the file format encodes: the
  transitions with their local times, the types and the abbreviations, whatever follows them.
\<close>

theorem time_zone_file_read_back:
  assumes "tz_data_ok data"
  shows "readTimeZoneFile (Some (tz_file data @ rest)) = Some (True, data\<lparr>names := []\<rparr>)"
  using assms by (rule read_tz_file)

theorem time_zone_file_read_back_witness:
  "readTimeZoneFile (Some (tz_file sample_zone @ ''TZif2'')) = Some (True, sample_zone)"
proof -
  have "tz_data_ok sample_zone" by (simp add: tz_data_ok_def sample_zone_def is32_def local_at_def vec_at_def)
  from time_zone_file_read_back [OF this, of "''TZif2''"] show ?thesis by (simp add: sample_zone_def)
qed

text \<open>
  C35: local time and back. Where the type in force is the same on the clock of UTC and on the
  local clock (outside of the hours around a change), \<open>fromLocalTime\<close> takes what \<open>toLocalTime\<close>
  has given back to the same seconds, with daylight saving time or without.
\<close>

theorem local_time_and_back:
  assumes "sorted_transitions data" and "timegm_inverts gm tg lo hi"
    and "zone_at True data t = Some l" and "zone_at False data (t + gmtOffset l) = Some l" and "zone_name data l = Some n"
    and "lo \<le> t + gmtOffset l" "t + gmtOffset l \<le> hi" and "i64 (t + gmtOffset l) = Some (t + gmtOffset l)" "i64 t = Some t"
  shows "\<exists>lt. toLocalTime nd gm (Some data) t = Some lt \<and> fromLocalTime nd gm tg (Some data) lt = Some t"
  using assms by (rule local_time_round_trip)

definition own_gmtime :: "int \<Rightarrow> tm" where
  "own_gmtime t = (case toUtcTime t False of Some u \<Rightarrow> u | None \<Rightarrow> tm_zero)"

definition own_timegm :: "tm \<Rightarrow> int" where
  "own_timegm u = (case fromUtcTime u of Some t \<Rightarrow> t | None \<Rightarrow> 0)"

lemma own_timegm_inverts: "timegm_inverts own_gmtime own_timegm (- 210866803200) 46172011391999"
proof -
  have "own_timegm (own_gmtime t) = t" if "- 210866803200 \<le> t" "t \<le> 46172011391999" for t
    using utc_round_trip [OF that] by (auto simp: own_gmtime_def own_timegm_def)
  moreover have "own_timegm (u\<lparr>tm_isdst := d, tm_gmtoff := g, tm_zone := z\<rparr>) = own_timegm u" for u d g z
    by (simp add: own_timegm_def fromUtcTime_def)
  ultimately show ?thesis by (simp add: timegm_inverts_def)
qed

theorem local_time_and_back_witness:
  "\<exists>lt. toLocalTime False own_gmtime (Some sample_zone) 5000000 = Some lt \<and>
     fromLocalTime False own_gmtime own_timegm (Some sample_zone) lt = Some 5000000"
proof (rule local_time_and_back [OF _ own_timegm_inverts])
  show "sorted_transitions sample_zone" by (simp add: sorted_transitions_def sample_zone_def Comp_key_def)
  show "zone_at True sample_zone 5000000 = Some (localtimes sample_zone ! 1)"
    by (simp add: zone_at_def sample_zone_def Comp_key_def local_at_def vec_at_def Let_def)
  show "zone_at False sample_zone (5000000 + gmtOffset (localtimes sample_zone ! 1)) = Some (localtimes sample_zone ! 1)"
    by (simp add: zone_at_def sample_zone_def Comp_key_def local_at_def vec_at_def Let_def)
  show "zone_name sample_zone (localtimes sample_zone ! 1) = Some ''EDT''"
    by (simp add: zone_name_def sample_zone_def c_str_def)
qed (simp_all add: sample_zone_def i64_def)

text \<open>
  A file that cannot be opened, or is no time zone file, gives a zone that is valid and has no
  type of local time: using it reads the front of an empty vector.
\<close>

lemma unreadable_zone_valid:
  assumes "f = None \<or> f = Some []"
  shows "\<exists>zone. TimeZone_file f = Some zone \<and> TimeZone_valid zone \<and> toLocalTime nd gm zone t = None"
proof -
  have "readTimeZoneFile f = Some (True, tz_data_new)"
    using assms by (auto simp: readTimeZoneFile_def read_header_def readBytes_def)
  then show ?thesis
    by (simp add: TimeZone_file_def TimeZone_valid_def toLocalTime_def findLocaltime_def tz_data_new_def vec_at_def)
qed

end
