(* ===== verification/Double.thy ===== *)
theory Double
  imports Prelude "HOL-Library.Log_Nat"
begin

text \<open>
  The arithmetic of \<open>double\<close> that \<open>timestamp.h\<close> uses. A finite \<open>double\<close> is its value, a rational
  number; every operation computes the exact result and rounds it to the nearest number with a
  significand of 53 bits, ties to even. The exponent is not bounded: a result too large for a
  \<open>double\<close> becomes infinite, and the conversion of it to an integer, the only use made of it, is
  undefined as that of the unbounded value is; a result so small that it is denormal is
  converted to zero whatever its rounding.
\<close>

section \<open>Rounding to a double\<close>

text \<open>The exponent of a number that is not zero: \<open>2 ^ e \<le> \<bar>x\<bar> < 2 ^ (e + 1)\<close>.\<close>

definition exponent :: "rat \<Rightarrow> int" where
  "exponent x =
     (let (p, q) = quotient_of \<bar>x\<bar>;
          k = int (floorlog 2 (nat p)) - int (floorlog 2 (nat q))
      in if 2 powi k \<le> \<bar>x\<bar> then k else k - 1)"

definition round_half_even :: "rat \<Rightarrow> int" where
  "round_half_even x =
     (let f = \<lfloor>x\<rfloor>; d = x - of_int f
      in if d < 1 / 2 \<or> (d = 1 / 2 \<and> even f) then f else f + 1)"

definition to_double :: "rat \<Rightarrow> rat" where
  "to_double x =
     (if x = 0 then 0
      else let u = 2 powi (exponent x - 52) in of_int (round_half_even (x / u)) * u)"

text \<open>The operations, and the conversions from and to \<open>int64_t\<close>; the latter truncates.\<close>

definition double_of_int :: "int \<Rightarrow> rat" where
  "double_of_int n = to_double (of_int n)"

definition double_div :: "rat \<Rightarrow> rat \<Rightarrow> rat" where
  "double_div x y = to_double (x / y)"

definition double_mult :: "rat \<Rightarrow> rat \<Rightarrow> rat" where
  "double_mult x y = to_double (x * y)"

definition int64_of_double :: "rat \<Rightarrow> int option" where
  "int64_of_double x = i64 (if 0 \<le> x then \<lfloor>x\<rfloor> else \<lceil>x\<rceil>)"

section \<open>The rounding error\<close>

lemma powi_add_1: "(2 :: rat) powi (k + 1) = 2 * 2 powi k"
  by (simp add: power_int_add)

lemma floorlog_bounds:
  assumes "0 < p"
  shows "2 powi (int (floorlog 2 (nat p)) - 1) \<le> (of_int p :: rat)"
    and "(of_int p :: rat) < 2 powi int (floorlog 2 (nat p))"
proof -
  have f: "0 < floorlog 2 (nat p)" using assms by (simp add: floorlog_def)
  have b: "2 ^ (floorlog 2 (nat p) - 1) \<le> nat p" "nat p < 2 ^ floorlog 2 (nat p)"
    using floorlog_bounds [of "nat p" 2] assms by auto
  have "(2 :: int) ^ (floorlog 2 (nat p) - 1) \<le> p" "p < 2 ^ floorlog 2 (nat p)"
    using b assms by (simp_all add: nat_less_iff le_nat_iff)
  then have "(of_int (2 ^ (floorlog 2 (nat p) - 1)) :: rat) \<le> of_int p"
    "(of_int p :: rat) < of_int (2 ^ floorlog 2 (nat p))"
    by (simp_all only: of_int_le_iff of_int_less_iff)
  moreover have "int (floorlog 2 (nat p)) - 1 = int (floorlog 2 (nat p) - 1)" using f by simp
  ultimately show "2 powi (int (floorlog 2 (nat p)) - 1) \<le> (of_int p :: rat)"
    "(of_int p :: rat) < 2 powi int (floorlog 2 (nat p))"
    by (simp_all only: power_int_of_nat of_int_power of_int_numeral)
qed

lemma exponent_bounds:
  assumes "x \<noteq> 0"
  shows "2 powi exponent x \<le> \<bar>x\<bar>" "\<bar>x\<bar> < 2 powi (exponent x + 1)"
proof -
  obtain p q where pq: "quotient_of \<bar>x\<bar> = (p, q)" by (cases "quotient_of \<bar>x\<bar>")
  define a where "a = int (floorlog 2 (nat p))"
  define b where "b = int (floorlog 2 (nat q))"
  have x: "\<bar>x\<bar> = of_int p / of_int q" and q: "0 < q"
    using pq quotient_of_div quotient_of_denom_pos by blast+
  have p: "0 < p" using assms x q by (metis abs_of_pos zero_less_abs_iff zero_less_divide_iff of_int_0_less_iff less_asym)
  have P: "2 powi (a - 1) \<le> (of_int p :: rat)" "(of_int p :: rat) < 2 powi a"
    and Q: "2 powi (b - 1) \<le> (of_int q :: rat)" "(of_int q :: rat) < 2 powi b"
    using floorlog_bounds [OF p] floorlog_bounds [OF q] by (simp_all add: a_def b_def)
  have "2 powi (a - 1) / 2 powi b \<le> (of_int p / of_int q :: rat)"
    by (rule frac_le) (use P Q p q in auto)
  then have lo: "2 powi (a - b - 1) \<le> \<bar>x\<bar>"
    by (simp add: x power_int_diff power_int_add field_simps)
  have "(of_int p / of_int q :: rat) < 2 powi a / 2 powi (b - 1)"
    by (rule frac_less) (use P Q p q in auto)
  then have hi: "\<bar>x\<bar> < 2 powi (a - b + 1)"
    by (simp add: x power_int_diff power_int_add field_simps)
  have e: "exponent x = (if 2 powi (a - b) \<le> \<bar>x\<bar> then a - b else a - b - 1)"
    by (simp add: exponent_def pq a_def b_def Let_def)
  show "2 powi exponent x \<le> \<bar>x\<bar>" "\<bar>x\<bar> < 2 powi (exponent x + 1)"
    using lo hi by (auto simp: e)
qed

lemma round_half_even_error: "\<bar>of_int (round_half_even x) - x\<bar> \<le> 1 / 2"
proof -
  have "of_int \<lfloor>x\<rfloor> \<le> x" "x < of_int \<lfloor>x\<rfloor> + 1" by linarith+
  then show ?thesis by (auto simp: round_half_even_def Let_def abs_le_iff)
qed

lemma round_half_even_of_int [simp]: "round_half_even (of_int n) = n"
  by (simp add: round_half_even_def)

lemma to_double_error: "\<bar>to_double x - x\<bar> \<le> \<bar>x\<bar> / 2 ^ 53"
proof (cases "x = 0")
  case False
  define u where "u = (2 :: rat) powi (exponent x - 52)"
  have u: "0 < u" by (simp add: u_def)
  have "to_double x - x = (of_int (round_half_even (x / u)) - x / u) * u"
    using False u by (simp add: to_double_def u_def [symmetric] Let_def left_diff_distrib)
  then have "\<bar>to_double x - x\<bar> \<le> 1 / 2 * u"
    using round_half_even_error [of "x / u"] u by (simp add: abs_mult)
  also have "1 / 2 * u = 2 powi exponent x / 2 ^ 53"
    by (simp add: u_def power_int_diff)
  also have "\<dots> \<le> \<bar>x\<bar> / 2 ^ 53"
    using exponent_bounds(1) [OF False] by (simp add: divide_right_mono)
  finally show ?thesis .
qed (simp add: to_double_def)

text \<open>An integer of at most 53 bits is a \<open>double\<close>.\<close>

lemma to_double_of_int:
  assumes "\<bar>n\<bar> < 2 ^ 53"
  shows "to_double (of_int n) = of_int n"
proof (cases "n = 0")
  case False
  let ?x = "of_int n :: rat"
  have e: "2 powi exponent ?x \<le> \<bar>?x\<bar>" by (rule exponent_bounds) (use False in simp)
  have "\<bar>?x\<bar> < 2 powi 53" using assms by (simp flip: of_int_abs)
  then have "exponent ?x < 53" using e power_int_increasing [of 53 "exponent ?x" "2 :: rat"] by linarith
  then obtain k where k: "exponent ?x - 52 = - int k" by (intro that [of "nat (52 - exponent ?x)"]) simp
  have u: "?x / 2 powi (exponent ?x - 52) = of_int (n * 2 ^ k)"
    unfolding k by (simp add: power_int_minus divide_inverse)
  show ?thesis
    using False unfolding to_double_def Let_def u round_half_even_of_int
    by (simp add: k power_int_minus)
qed (simp add: to_double_def)

text \<open>The result of a rounding, given its exponent and significand.\<close>

lemma to_double_eqI:
  assumes "2 powi e \<le> \<bar>x\<bar>" "\<bar>x\<bar> < 2 powi (e + 1)" "\<bar>x / 2 powi (e - 52) - of_int r\<bar> < 1 / 2"
  shows "to_double x = of_int r * 2 powi (e - 52)"
proof -
  have "0 < (2 :: rat) powi e" by simp
  then have x: "x \<noteq> 0" using assms(1) by (metis abs_zero leD)
  have e: "exponent x = e"
    using exponent_bounds [OF x] assms(1,2) power_int_increasing [of "exponent x + 1" e "2 :: rat"]
      power_int_increasing [of "e + 1" "exponent x" "2 :: rat"] by linarith
  have "\<bar>of_int (round_half_even (x / 2 powi (e - 52))) - of_int r\<bar> < (1 :: rat)"
    using round_half_even_error [of "x / 2 powi (e - 52)"] assms(3) by linarith
  then have "round_half_even (x / 2 powi (e - 52)) = r" by linarith
  then show ?thesis using x by (simp add: to_double_def e)
qed

text \<open>Truncation of a number close to an integer loses at most one, towards zero.\<close>

lemma truncate_close:
  fixes p :: rat
  assumes "\<bar>p - of_int d\<bar> < 1" "d = 0 \<Longrightarrow> p = 0"
  shows "(if 0 \<le> p then \<lfloor>p\<rfloor> else \<lceil>p\<rceil>) \<in> {d, d - sgn d}"
proof -
  have "\<lfloor>p\<rfloor> = d \<or> \<lfloor>p\<rfloor> = d - 1" "\<lceil>p\<rceil> = d \<or> \<lceil>p\<rceil> = d + 1" using assms(1) by linarith+
  moreover have "0 < d \<Longrightarrow> 0 < p" "d < 0 \<Longrightarrow> p < 0" using assms(1) by linarith+
  ultimately show ?thesis using assms(2) by (cases d "0 :: int" rule: linorder_cases) auto
qed

lemma double_zero [simp]: "double_of_int 0 = 0" "double_div 0 x = 0" "double_mult 0 x = 0"
  by (simp_all add: double_of_int_def double_div_def double_mult_def to_double_def)

end
