(* ===== verification/Timestamp.thy ===== *)
theory Timestamp
  imports Time_Zone Double
begin

text \<open>
  \<open>net::Timestamp\<close> (\<open>srcs/timer/timestamp.h\<close>, \<open>timestamp.cc\<close>): microseconds since the epoch and their texts.
  \<open>timeDifference\<close> and \<open>addTime\<close> compute in the floating point of \<open>Double\<close>. \<open>gmtime_r\<close> and the
  result of \<open>gettimeofday\<close> are parameters.
\<close>

section \<open>The class\<close>

datatype timestamp = MkTimestamp (microSecondsSinceEpoch: int)

definition kMicroSecondsPerSecond :: int where
  [cpp_consts]: "kMicroSecondsPerSecond = 1000 * 1000"

definition Timestamp_default :: timestamp where
  "Timestamp_default = MkTimestamp 0"

definition Timestamp_invalid :: timestamp where
  "Timestamp_invalid = Timestamp_default"

definition Timestamp_valid :: "timestamp \<Rightarrow> bool" where
  "Timestamp_valid t \<longleftrightarrow> microSecondsSinceEpoch t > 0"

definition secondsSinceEpoch :: "timestamp \<Rightarrow> int" where
  "secondsSinceEpoch t = microSecondsSinceEpoch t sdiv kMicroSecondsPerSecond"

definition fromUnixTime2 :: "int \<Rightarrow> int \<Rightarrow> timestamp option" where
  "fromUnixTime2 t microseconds =
     do {
       us \<leftarrow> i64 (t * kMicroSecondsPerSecond);
       us' \<leftarrow> i64 (us + microseconds);
       Some (MkTimestamp us')
     }"

definition fromUnixTime :: "int \<Rightarrow> timestamp option" where
  "fromUnixTime t = fromUnixTime2 t 0"

definition Timestamp_now :: "int \<times> int \<Rightarrow> timestamp option" where
  "Timestamp_now tv =
     do {
       us \<leftarrow> i64 (fst tv * kMicroSecondsPerSecond);
       us' \<leftarrow> i64 (us + snd tv);
       Some (MkTimestamp us')
     }"

definition Timestamp_swap :: "timestamp \<Rightarrow> timestamp \<Rightarrow> timestamp \<times> timestamp" where
  "Timestamp_swap this that = (MkTimestamp (microSecondsSinceEpoch that), MkTimestamp (microSecondsSinceEpoch this))"

definition Timestamp_less :: "timestamp \<Rightarrow> timestamp \<Rightarrow> bool" where
  "Timestamp_less lhs rhs \<longleftrightarrow> microSecondsSinceEpoch lhs < microSecondsSinceEpoch rhs"

definition Timestamp_equal :: "timestamp \<Rightarrow> timestamp \<Rightarrow> bool" where
  "Timestamp_equal lhs rhs \<longleftrightarrow> microSecondsSinceEpoch lhs = microSecondsSinceEpoch rhs"

instantiation timestamp :: linorder
begin

definition less_timestamp :: "timestamp \<Rightarrow> timestamp \<Rightarrow> bool" where
  "less_timestamp = Timestamp_less"

definition less_eq_timestamp :: "timestamp \<Rightarrow> timestamp \<Rightarrow> bool" where
  "less_eq_timestamp x y \<longleftrightarrow> Timestamp_less x y \<or> Timestamp_equal x y"

instance
  by standard (auto simp: less_eq_timestamp_def less_timestamp_def Timestamp_less_def Timestamp_equal_def
      intro: timestamp.expand)

end

lemma Timestamp_equal_iff [simp]: "Timestamp_equal x y \<longleftrightarrow> x = y"
  by (auto simp: Timestamp_equal_def intro: timestamp.expand)

lemma Timestamp_swap_eq [simp]: "Timestamp_swap x y = (y, x)"
  by (simp add: Timestamp_swap_def)

text \<open>The seconds between two timestamps, and the timestamp some seconds later.\<close>

definition timeDifference :: "timestamp \<Rightarrow> timestamp \<Rightarrow> rat option" where
  "timeDifference high low =
     do {
       diff \<leftarrow> i64 (microSecondsSinceEpoch high - microSecondsSinceEpoch low);
       Some (double_div (double_of_int diff) (double_of_int kMicroSecondsPerSecond))
     }"

definition addTime :: "timestamp \<Rightarrow> rat \<Rightarrow> timestamp option" where
  "addTime t seconds =
     do {
       delta \<leftarrow> int64_of_double (double_mult seconds (double_of_int kMicroSecondsPerSecond));
       us \<leftarrow> i64 (microSecondsSinceEpoch t + delta);
       Some (MkTimestamp us)
     }"

section \<open>Texts\<close>

definition Timestamp_toString :: "timestamp \<Rightarrow> string" where
  "Timestamp_toString t =
     (let seconds = microSecondsSinceEpoch t sdiv kMicroSecondsPerSecond;
          microseconds = microSecondsSinceEpoch t smod kMicroSecondsPerSecond in
      c_str (snprintf 32 (decimal_int seconds @ ''.'' @ fmt_0d 6 microseconds)))"

text \<open>The format \<open>%4d%02d%02d %02d:%02d:%02d\<close> of a broken-down time.\<close>

definition tm_text :: "tm \<Rightarrow> string option" where
  "tm_text t =
     do {
       y \<leftarrow> i32 (tm_year t + 1900);
       m \<leftarrow> i32 (tm_mon t + 1);
       Some (fmt_d 4 y @ fmt_0d 2 m @ fmt_0d 2 (tm_mday t) @ '' '' @
         fmt_0d 2 (tm_hour t) @ '':'' @ fmt_0d 2 (tm_min t) @ '':'' @ fmt_0d 2 (tm_sec t))
     }"

definition toFormattedString :: "(int \<Rightarrow> tm) \<Rightarrow> bool \<Rightarrow> timestamp \<Rightarrow> string option" where
  "toFormattedString gmtime_r showMicroseconds t =
     do {
       let seconds = microSecondsSinceEpoch t sdiv kMicroSecondsPerSecond;
       text \<leftarrow> tm_text (gmtime_r seconds);
       if showMicroseconds then
         (let microseconds = to_int32 (microSecondsSinceEpoch t smod kMicroSecondsPerSecond) in
          Some (c_str (snprintf 64 (text @ ''.'' @ fmt_0d 6 microseconds))))
       else Some (c_str (snprintf 64 text))
     }"

section \<open>Lengths of formatted numbers\<close>

lemma length_pad: "length (pad c w s) = max w (length s)"
  by (simp add: pad_def)

lemma length_fmt_0d: "0 \<le> x \<Longrightarrow> x < 10 ^ w \<Longrightarrow> 0 < w \<Longrightarrow> length (fmt_0d w x) = w"
  using decimal_length [of "nat x" w] by (simp add: fmt_0d_def length_pad nat_less_iff max_def)

lemma length_fmt_d: "0 \<le> x \<Longrightarrow> x < 10 ^ w \<Longrightarrow> 0 < w \<Longrightarrow> length (fmt_d w x) = w"
  using decimal_length [of "nat x" w] by (simp add: fmt_d_def decimal_int_def length_pad nat_less_iff max_def)

lemma fmt_plain: "NUL \<notin> set (fmt_0d w x)" "NUL \<notin> set (fmt_d w x)" "NUL \<notin> set (decimal_int x)"
  using decimal_no_NUL by (auto simp: fmt_0d_def fmt_d_def decimal_int_def pad_def)

text \<open>A time of day on a day of a year of four digits.\<close>

definition tm_ok :: "tm \<Rightarrow> bool" where
  "tm_ok t \<longleftrightarrow> 0 \<le> tm_year t + 1900 \<and> tm_year t + 1900 \<le> 9999 \<and> 0 \<le> tm_mon t \<and> tm_mon t \<le> 11 \<and>
     1 \<le> tm_mday t \<and> tm_mday t \<le> 31 \<and> 0 \<le> tm_hour t \<and> tm_hour t \<le> 23 \<and> 0 \<le> tm_min t \<and> tm_min t \<le> 59 \<and>
     0 \<le> tm_sec t \<and> tm_sec t \<le> 60"

definition date_text :: "tm \<Rightarrow> string" where
  "date_text t = fmt_d 4 (tm_year t + 1900) @ fmt_0d 2 (tm_mon t + 1) @ fmt_0d 2 (tm_mday t) @ '' '' @
     fmt_0d 2 (tm_hour t) @ '':'' @ fmt_0d 2 (tm_min t) @ '':'' @ fmt_0d 2 (tm_sec t)"

lemma tm_text_ok:
  assumes "tm_ok t"
  shows "tm_text t = Some (date_text t) \<and> length (date_text t) = 17 \<and> NUL \<notin> set (date_text t)"
  using assms by (simp add: tm_ok_def tm_text_def date_text_def i32_def length_fmt_d length_fmt_0d fmt_plain)

section \<open>Properties\<close>

lemma undecimal_pad: "undecimal (pad (CHR ''0'') w s) = undecimal s"
proof -
  have "foldl (\<lambda>n c. 10 * n + (of_char c - 48)) (0 :: nat) (replicate k (CHR ''0'') @ s) = undecimal s" for k
    by (induction k) (simp_all add: undecimal_def)
  then show ?thesis by (simp add: undecimal_def pad_def)
qed

lemma undecimal_fmt_0d: "0 \<le> x \<Longrightarrow> int (undecimal (fmt_0d w x)) = x"
  by (simp add: fmt_0d_def undecimal_pad)

text \<open>
  The text of a time stamp gives it back: before the point the seconds, after it the
  microseconds in six digits, for every time stamp from the epoch on; and a time stamp made of
  seconds and a fraction of a second has these seconds.
\<close>

theorem timestamp_text_read_back:
  assumes "0 \<le> us" and "us < 2 ^ 63"
  shows "\<exists>s f. Timestamp_toString (MkTimestamp us) = s @ ''.'' @ f \<and> length f = 6 \<and>
    int (undecimal s) * 1000000 + int (undecimal f) = us \<and>
    fromUnixTime2 (int (undecimal s)) (int (undecimal f)) = Some (MkTimestamp us) \<and>
    secondsSinceEpoch (MkTimestamp us) = int (undecimal s)"
proof -
  let ?s = "us div 1000000" and ?f = "us mod 1000000"
  have s: "0 \<le> ?s" "?s < 10 ^ 13" using assms by (auto simp: div_less_iff_less_mult intro: order.strict_trans1)
  have f: "0 \<le> ?f" "?f < 10 ^ 6" by simp_all
  have "length (decimal (nat ?s)) \<le> 13" using s by (intro decimal_length) (auto simp: nat_less_iff)
  then have l: "length (decimal_int ?s @ ''.'' @ fmt_0d 6 ?f) < 32"
    using s f by (simp add: decimal_int_def length_fmt_0d)
  have "Timestamp_toString (MkTimestamp us) = decimal_int ?s @ ''.'' @ fmt_0d 6 ?f"
    unfolding Timestamp_toString_def using assms snprintf_id [OF l]
    by (simp add: kMicroSecondsPerSecond_def Let_def fmt_plain)
  moreover have "int (undecimal (decimal_int ?s)) = ?s" using s by (simp add: decimal_int_def)
  moreover have "int (undecimal (fmt_0d 6 ?f)) = ?f"
    using undecimal_fmt_0d [OF f(1)] .
  moreover have "?s * 1000000 + ?f = us" by simp
  moreover have "?s * 1000000 \<le> us" "0 \<le> ?s * 1000000" using s f by simp_all
  ultimately show ?thesis
    using assms f
    by (intro exI [of _ "decimal_int ?s"] exI [of _ "fmt_0d 6 ?f"])
      (simp add: fromUnixTime2_def kMicroSecondsPerSecond_def i64_def length_fmt_0d secondsSinceEpoch_def)
qed

theorem timestamp_text_read_back_witness:
  "\<exists>s f. Timestamp_toString (MkTimestamp 1500000000000042) = s @ ''.'' @ f \<and> length f = 6 \<and>
    int (undecimal s) * 1000000 + int (undecimal f) = 1500000000000042"
proof -
  have "0 \<le> (1500000000000042 :: int)" "1500000000000042 < (2 ^ 63 :: int)" by simp_all
  from timestamp_text_read_back [OF this] show ?thesis by blast
qed

section \<open>Seconds in floating point\<close>

text \<open>A Julian century of 36525 days, in microseconds.\<close>

definition century :: int where
  "century = 36525 * 24 * 60 * 60 * 1000000"

lemma double_of_million [simp]: "double_of_int kMicroSecondsPerSecond = 1000000"
  using to_double_of_int [of 1000000] by (simp add: double_of_int_def cpp_consts)

text \<open>The seconds are off by less than half a microsecond.\<close>

lemma seconds_error:
  assumes "\<bar>d\<bar> \<le> century" "x = double_div (double_of_int d) 1000000"
  shows "\<bar>x * 1000000 - of_int d\<bar> \<le> \<bar>of_int d\<bar> / 2 ^ 53"
proof -
  have d: "double_of_int d = of_int d"
    using assms(1) to_double_of_int [of d] by (simp add: double_of_int_def century_def)
  have "\<bar>x - of_int d / 1000000\<bar> \<le> \<bar>of_int d / 1000000\<bar> / 2 ^ 53"
    using to_double_error [of "of_int d / 1000000"] by (simp add: assms(2) double_div_def d)
  moreover have "\<bar>x * 1000000 - of_int d\<bar> = \<bar>x - of_int d / 1000000\<bar> * 1000000"
    using abs_mult [of "x - of_int d / 1000000" 1000000] by (simp add: left_diff_distrib)
  ultimately show ?thesis by simp
qed

lemma microseconds_error:
  assumes "\<bar>d\<bar> \<le> century" "x = double_div (double_of_int d) 1000000"
  shows "\<bar>double_mult x 1000000 - of_int d\<bar> < 1"
proof -
  have d: "\<bar>of_int d\<bar> \<le> (3155760000000000 :: rat)"
    using assms(1) by (simp add: century_def flip: of_int_abs)
  have 1: "\<bar>x * 1000000 - of_int d\<bar> \<le> 3 / 8"
    using seconds_error [OF assms] d by simp
  have "\<bar>double_mult x 1000000 - x * 1000000\<bar> \<le> \<bar>x * 1000000\<bar> / 2 ^ 53"
    unfolding double_mult_def by (rule to_double_error)
  moreover have "\<bar>x * 1000000\<bar> \<le> 3155760000000001" using 1 d by linarith
  ultimately have "\<bar>double_mult x 1000000 - x * 1000000\<bar> \<le> 3 / 8" by simp
  then show ?thesis using 1 by linarith
qed

text \<open>
  C37: for timestamps at most a century apart, \<open>timeDifference\<close> is within half a microsecond of the
  exact difference, and \<open>addTime\<close> of it to the earlier timestamp gives back the later one, or one
  microsecond less (more, when the difference is negative): truncation may lose that microsecond.
\<close>

theorem time_difference_and_back:
  assumes "\<bar>high - low\<bar> \<le> century" "i64 high = Some high" "i64 low = Some low"
  shows "\<exists>s r. timeDifference (MkTimestamp high) (MkTimestamp low) = Some s \<and>
    addTime (MkTimestamp low) s = Some (MkTimestamp r) \<and> r \<in> {high, high - sgn (high - low)} \<and>
    \<bar>s * 1000000 - of_int (high - low)\<bar> < 1 / 2"
proof -
  define d where "d = high - low"
  define s where "s = double_div (double_of_int d) 1000000"
  define p where "p = double_mult s 1000000"
  define k where "k = (if 0 \<le> p then \<lfloor>p\<rfloor> else \<lceil>p\<rceil>)"
  have d: "\<bar>d\<bar> \<le> century" using assms(1) by (simp add: d_def)
  have k: "k \<in> {d, d - sgn d}"
    unfolding k_def
    by (rule truncate_close) (use microseconds_error [OF d s_def] in \<open>auto simp: p_def s_def\<close>)
  have i: "i64 d = Some d" "i64 k = Some k" "i64 (low + k) = Some (low + k)"
    using d k assms(2,3) by (auto simp: i64_def century_def d_def sgn_if split: if_splits)
  have "\<bar>of_int d\<bar> \<le> (3155760000000000 :: rat)" using d by (simp add: century_def flip: of_int_abs)
  then have "\<bar>s * 1000000 - of_int d\<bar> < 1 / 2" using seconds_error [OF d s_def] by simp
  moreover have "low + k \<in> {high, high - sgn (high - low)}" using k by (auto simp: d_def)
  moreover have "timeDifference (MkTimestamp high) (MkTimestamp low) = Some s"
    by (simp add: timeDifference_def s_def i flip: d_def)
  moreover have "addTime (MkTimestamp low) s = Some (MkTimestamp (low + k))"
    by (simp add: addTime_def int64_of_double_def i flip: p_def k_def)
  ultimately show ?thesis by (auto simp: d_def)
qed

theorem time_difference_and_back_witness:
  "\<exists>s r. timeDifference (MkTimestamp 249) (MkTimestamp 0) = Some s \<and>
    addTime (MkTimestamp 0) s = Some (MkTimestamp r) \<and> (r = 249 \<or> r = 248) \<and>
    \<bar>s * 1000000 - 249\<bar> < 1 / 2"
  using time_difference_and_back [of 249 0] by (auto simp: century_def i64_def)

text \<open>The microsecond is lost already at a difference of 249 microseconds.\<close>

lemma add_time_loses:
  "timeDifference (MkTimestamp 249) (MkTimestamp 0) \<bind> addTime (MkTimestamp 0) = Some (MkTimestamp 248)"
proof -
  have s: "to_double (249 / 1000000) = of_int 4593239274353678 * 2 powi (- 12 - 52)"
    by (rule to_double_eqI) (simp_all add: power_int_minus)
  have "to_double (35884681830888109375 / 144115188075855872) = of_int 8760908650119167 * 2 powi (7 - 52)"
    by (rule to_double_eqI) (simp_all add: power_int_minus)
  also have "\<dots> = 8760908650119167 / 35184372088832"
    by (simp add: power_int_minus)
  finally have p: "to_double (35884681830888109375 / 144115188075855872) = 8760908650119167 / 35184372088832" .
  have d: "double_of_int 249 = 249" using to_double_of_int [of 249] by (simp add: double_of_int_def)
  have f: "\<lfloor>(8760908650119167 :: rat) / 35184372088832\<rfloor> = 248"
    by (rule floor_unique) simp_all
  show ?thesis
    by (simp add: timeDifference_def addTime_def i64_def double_div_def double_mult_def int64_of_double_def
        power_int_minus divide_inverse [symmetric] d s p f)
qed

end
