(* ===== verification/Log_Stream.thy ===== *)
theory Log_Stream
  imports Prelude
begin

text \<open>
  \<open>net::FixedBuffer\<close>, \<open>net::LogStream\<close> and the conversions of integers to text (\<open>srcs/logger/log_stream.h\<close>,
  \<open>log_stream.cc\<close>).

  A buffer is its array and the offset of \<open>curr_\<close>. Writing behind the end of the array is
  undefined. The text \<open>snprintf\<close> makes of a floating-point number, and of the argument of a
  \<open>Fmt\<close>, is given: floating point and format strings belong to the C library. The cookie
  of a buffer, set for a debugger and never read, is left out.
\<close>

section \<open>Fixed buffers\<close>

definition kSmallBuffer :: nat where
  [cpp_consts]: "kSmallBuffer = 4000"

record fixed_buffer =
  fb_data :: string
  fb_curr :: nat

definition FixedBuffer_new :: "string \<Rightarrow> fixed_buffer" where
  "FixedBuffer_new mem = \<lparr>fb_data = mem, fb_curr = 0\<rparr>"

definition fb_remain :: "fixed_buffer \<Rightarrow> nat" where
  "fb_remain b = size_sub (length (fb_data b)) (fb_curr b)"

definition fb_append :: "string \<Rightarrow> fixed_buffer \<Rightarrow> fixed_buffer option" where
  "fb_append s b =
     (if fb_remain b > length s then do {
        d \<leftarrow> mem_write (fb_curr b) s (fb_data b);
        Some (b\<lparr>fb_data := d, fb_curr := fb_curr b + length s\<rparr>)
      }
      else Some b)"

definition fb_add :: "nat \<Rightarrow> fixed_buffer \<Rightarrow> fixed_buffer" where
  "fb_add n b = b\<lparr>fb_curr := fb_curr b + n\<rparr>"

definition fb_text :: "fixed_buffer \<Rightarrow> string" where
  "fb_text b = take (fb_curr b) (fb_data b)"

section \<open>Numbers\<close>

text \<open>
  \<open>convert\<close> divides towards zero, so that the digits of a negative number are negative; the table
  \<open>digits\<close> is read around its middle.
\<close>

definition digits :: string where
  "digits = ''9876543210123456789''"

definition zero_at :: "int \<Rightarrow> char" where
  "zero_at lsd = digits ! nat (9 + lsd)"

lemma sdiv_shrinks: "i sdiv 10 \<noteq> 0 \<Longrightarrow> i \<noteq> 0 \<and> \<bar>i sdiv 10\<bar> < \<bar>i\<bar>" for i :: int
  by (auto simp: signed_divide_int_def sgn_if abs_mult zero_less_mult_iff split: if_splits)

function convert_loop :: "int \<Rightarrow> string" where
  "convert_loop i =
     (let lsd = i smod 10; i' = i sdiv 10 in
      zero_at lsd # (if i' \<noteq> 0 then convert_loop i' else []))"
  by pat_completeness auto
termination
proof (relation "measure (\<lambda>i. nat \<bar>i\<bar>)")
  fix i x i' :: int
  assume "i' = i sdiv 10" and "i' \<noteq> 0"
  then show "(i', i) \<in> measure (\<lambda>i. nat \<bar>i\<bar>)" using sdiv_shrinks [of i] by simp
qed simp

declare convert_loop.simps [simp del]

definition convert :: "int \<Rightarrow> string" where
  "convert v = rev (convert_loop v @ (if v < 0 then ''-'' else []))"

definition digitsHex :: string where
  "digitsHex = ''0123456789ABCDEF''"

fun convertHex_loop :: "nat \<Rightarrow> string" where
  "convertHex_loop i =
     (let lsd = i mod 16; i' = i div 16 in
      digitsHex ! lsd # (if i' \<noteq> 0 then convertHex_loop i' else []))"

declare convertHex_loop.simps [simp del]

definition convertHex :: "nat \<Rightarrow> string" where
  "convertHex v = rev (convertHex_loop v)"

section \<open>The stream\<close>

definition kMaxNumericSize :: nat where
  [cpp_consts]: "kMaxNumericSize = 32"

text \<open>Storing a text and its zero byte at \<open>curr_\<close>, and advancing over the text.\<close>

definition put_number :: "string \<Rightarrow> fixed_buffer \<Rightarrow> fixed_buffer option" where
  "put_number s b = do { d \<leftarrow> mem_write (fb_curr b) (s @ [NUL]) (fb_data b); Some (fb_add (length s) (b\<lparr>fb_data := d\<rparr>)) }"

definition formatInt :: "int \<Rightarrow> fixed_buffer \<Rightarrow> fixed_buffer option" where
  "formatInt v b = (if fb_remain b \<ge> kMaxNumericSize then put_number (convert v) b else Some b)"

definition put_double :: "string \<Rightarrow> fixed_buffer \<Rightarrow> fixed_buffer option" where
  "put_double g b =
     (if fb_remain b \<ge> kMaxNumericSize then do {
        d \<leftarrow> mem_write (fb_curr b) (snprintf kMaxNumericSize g @ [NUL]) (fb_data b);
        Some (fb_add (length g) (b\<lparr>fb_data := d\<rparr>))
      }
      else Some b)"

definition put_char :: "char \<Rightarrow> fixed_buffer \<Rightarrow> fixed_buffer option" where
  "put_char c b = (if fb_remain b \<ge> 1 then fb_append [c] b else Some b)"

definition put_bool :: "bool \<Rightarrow> fixed_buffer \<Rightarrow> fixed_buffer option" where
  "put_bool v b = fb_append (if v then ''1'' else ''0'') b"

definition put_string :: "string \<Rightarrow> fixed_buffer \<Rightarrow> fixed_buffer option" where
  "put_string s b = fb_append s b"

text \<open>A C string, or a null pointer.\<close>

definition put_cstr :: "string option \<Rightarrow> fixed_buffer \<Rightarrow> fixed_buffer option" where
  "put_cstr str b = (case str of Some s \<Rightarrow> fb_append (c_str s) b | None \<Rightarrow> fb_append ''(null)'' b)"

definition put_pointer :: "nat \<Rightarrow> fixed_buffer \<Rightarrow> fixed_buffer option" where
  "put_pointer v b =
     (if fb_remain b \<ge> kMaxNumericSize then do {
        d \<leftarrow> mem_write (fb_curr b) ''0x'' (fb_data b);
        d \<leftarrow> mem_write (fb_curr b + 2) (convertHex v @ [NUL]) d;
        Some (fb_add (length (convertHex v) + 2) (b\<lparr>fb_data := d\<rparr>))
      }
      else Some b)"

text \<open>\<open>Fmt\<close>: the text made of its argument, which must fit in 32 bytes, and its length.\<close>

definition Fmt_new :: "bool \<Rightarrow> string \<Rightarrow> (string \<times> nat) option" where
  "Fmt_new ndebug s = do { cpp_assert ndebug (length s < 32); Some (snprintf 32 s @ [NUL], length s) }"

text \<open>\<open>len\<close> bytes from a pointer into an array (\<open>Fmt\<close>, \<open>StaticStrHolder\<close>, \<open>SourceFile\<close>).\<close>

definition put_counted :: "string \<Rightarrow> nat \<Rightarrow> fixed_buffer \<Rightarrow> fixed_buffer option" where
  "put_counted str len b =
     (if fb_remain b > len then do { s \<leftarrow> mem_read 0 len str; fb_append s b } else Some b)"

text \<open>The name of a source file behind its last slash, and its length.\<close>

definition SourceFile_new :: "string \<Rightarrow> string \<times> nat" where
  "SourceFile_new file =
     (let base = rev (takeWhile (\<lambda>c. c \<noteq> CHR ''/'') (rev file)) in (base, length base))"

section \<open>What is written\<close>

datatype log_item =
    LInt int | LDouble string | LChar char | LBool bool | LString string | LCStr "string option" | LPointer nat
  | LCounted string nat

fun put_item :: "log_item \<Rightarrow> fixed_buffer \<Rightarrow> fixed_buffer option" where
  "put_item (LInt v) b = formatInt v b"
| "put_item (LDouble g) b = put_double g b"
| "put_item (LChar c) b = put_char c b"
| "put_item (LBool v) b = put_bool v b"
| "put_item (LString s) b = put_string s b"
| "put_item (LCStr s) b = put_cstr s b"
| "put_item (LPointer v) b = put_pointer v b"
| "put_item (LCounted s n) b = put_counted s n b"

fun put_items :: "log_item list \<Rightarrow> fixed_buffer \<Rightarrow> fixed_buffer option" where
  "put_items [] b = Some b"
| "put_items (x # xs) b = do { b' \<leftarrow> put_item x b; put_items xs b' }"

text \<open>
  The text of an item, the room it needs, and what a stream with a given room keeps: an
  item is written as a whole or left out.
\<close>

fun item_text :: "log_item \<Rightarrow> string" where
  "item_text (LInt v) = decimal_int v"
| "item_text (LDouble g) = g"
| "item_text (LChar c) = [c]"
| "item_text (LBool v) = (if v then ''1'' else ''0'')"
| "item_text (LString s) = s"
| "item_text (LCStr s) = (case s of Some s \<Rightarrow> c_str s | None \<Rightarrow> ''(null)'')"
| "item_text (LPointer v) = ''0x'' @ convertHex v"
| "item_text (LCounted s n) = take n s"

fun is_numeric :: "log_item \<Rightarrow> bool" where
  "is_numeric (LInt v) = True"
| "is_numeric (LDouble g) = True"
| "is_numeric (LPointer v) = True"
| "is_numeric _ = False"

definition item_room :: "log_item \<Rightarrow> nat" where
  "item_room x = (if is_numeric x then 32 else length (item_text x) + 1)"

fun item_ok :: "log_item \<Rightarrow> bool" where
  "item_ok (LInt v) = (- (2 ^ 63) \<le> v \<and> v < 2 ^ 64)"
| "item_ok (LDouble g) = (length g < 32)"
| "item_ok (LPointer v) = (v < 2 ^ 64)"
| "item_ok (LCounted s n) = (n \<le> length s)"
| "item_ok _ = True"

fun kept :: "nat \<Rightarrow> log_item list \<Rightarrow> string" where
  "kept room [] = []"
| "kept room (x # xs) =
     (if item_room x \<le> room then item_text x @ kept (room - length (item_text x)) xs else kept room xs)"

definition fb_ok :: "fixed_buffer \<Rightarrow> bool" where
  "fb_ok b \<longleftrightarrow> fb_curr b \<le> length (fb_data b)"

section \<open>Digits\<close>

lemma zero_at_digit:
  assumes "- 9 \<le> d" and "d \<le> 9"
  shows "zero_at d = digit_char (nat \<bar>d\<bar>)"
proof -
  have "d \<in> {- 9, - 8, - 7, - 6, - 5, - 4, - 3, - 2, - 1, 0, 1, 2, 3, 4, 5, 6, 7, 8, 9}" using assms by (simp, presburger)
  then have "digit_char (nat \<bar>d\<bar>) = zero_at d"
    by (elim insertE emptyE) (simp_all add: zero_at_def digits_def digit_char_def char_of_eq_iff)
  then show ?thesis by simp
qed

lemma sdiv_abs: "\<bar>i sdiv 10\<bar> = \<bar>i\<bar> div 10" for i :: int
  by (auto simp: signed_divide_int_def sgn_if abs_mult)

lemma smod_abs: "\<bar>i smod 10\<bar> = \<bar>i\<bar> mod 10" for i :: int
  by (auto simp: signed_modulo_int_def sgn_if abs_mult)

lemma convert_loop_decimal: "rev (convert_loop i) = decimal (nat \<bar>i\<bar>)"
proof (induction i rule: convert_loop.induct)
  case (1 i)
  have "- 9 \<le> i smod 10" "i smod 10 \<le> 9" using smod_abs [of i] pos_mod_bound [of 10 "\<bar>i\<bar>"] by linarith+
  then have z: "zero_at (i smod 10) = digit_char (nat \<bar>i\<bar> mod 10)"
    by (simp add: zero_at_digit smod_abs nat_mod_distrib)
  have q: "nat \<bar>i sdiv 10\<bar> = nat \<bar>i\<bar> div 10" by (simp add: sdiv_abs nat_div_distrib)
  show ?case
  proof (cases "i sdiv 10 = 0")
    case True
    with q have "nat \<bar>i\<bar> < 10" by (simp add: div_eq_0_iff)
    with True z show ?thesis by (simp add: convert_loop.simps [of i] decimal_rec)
  next
    case False
    with q have "10 \<le> nat \<bar>i\<bar>" by (metis div_less abs_eq_0 nat_eq_iff2 linorder_not_le nat_0_iff abs_le_zero_iff)
    with False z q "1.IH" [OF refl refl False] show ?thesis
      by (simp add: convert_loop.simps [of i] decimal_rec(2))
  qed
qed

lemma convert_decimal: "convert v = decimal_int v"
  by (simp add: convert_def decimal_int_def convert_loop_decimal)

lemma decimal_int_length: "- (2 ^ 63) \<le> v \<Longrightarrow> v < 2 ^ 64 \<Longrightarrow> length (decimal_int v) < 32"
proof -
  assume v: "- (2 ^ 63) \<le> v" "v < 2 ^ 64"
  have "length (decimal (nat \<bar>v\<bar>)) \<le> 20"
    using v by (intro decimal_length) auto
  then show ?thesis by (auto simp: decimal_int_def split: if_splits)
qed

definition hex_value :: "string \<Rightarrow> nat" where
  "hex_value s = foldl (\<lambda>n c. 16 * n + (LEAST d. digitsHex ! d = c)) 0 s"

lemma hex_digit: "d < 16 \<Longrightarrow> (LEAST e. digitsHex ! e = digitsHex ! d) = d"
proof -
  have dist: "distinct digitsHex" "length digitsHex = 16" by (simp_all add: digitsHex_def)
  assume d: "d < 16"
  show ?thesis
  proof (rule Least_equality)
    fix e assume "digitsHex ! e = digitsHex ! d"
    then show "d \<le> e" using dist d nth_eq_iff_index_eq [of digitsHex e d] by (cases "e < 16") auto
  qed simp
qed

lemma convertHex_rec:
  "convertHex v = (if v < 16 then [] else convertHex (v div 16)) @ [digitsHex ! (v mod 16)]"
  by (simp add: convertHex_def convertHex_loop.simps [of v] Let_def div_eq_0_iff)

lemma hex_value_convertHex: "hex_value (convertHex v) = v"
proof (induction v rule: convertHex_loop.induct)
  case (1 v)
  show ?case
  proof (cases "v < 16")
    case True
    then show ?thesis by (simp add: convertHex_rec [of v] hex_value_def hex_digit)
  next
    case False
    then have "hex_value (convertHex (v div 16)) = v div 16" using "1.IH" [OF refl refl] by (simp add: div_eq_0_iff)
    with False show ?thesis by (simp add: convertHex_rec [of v] hex_value_def hex_digit)
  qed
qed

lemma convertHex_length: "v < 16 ^ k \<Longrightarrow> 0 < k \<Longrightarrow> length (convertHex v) \<le> k"
proof (induction k arbitrary: v)
  case (Suc k)
  show ?case
  proof (cases "v < 16")
    case True
    then show ?thesis by (simp add: convertHex_rec [of v])
  next
    case False
    then have "0 < k" using Suc.prems(1) by (cases k) auto
    moreover have "v div 16 < 16 ^ k" using Suc.prems(1) by (simp add: less_mult_imp_div_less)
    ultimately show ?thesis using Suc.IH [of "v div 16"] False by (simp add: convertHex_rec [of v])
  qed
qed simp

section \<open>Writing\<close>

lemma fb_remain_eq: "fb_ok b \<Longrightarrow> fb_remain b = length (fb_data b) - fb_curr b"
  by (simp add: fb_ok_def fb_remain_def)

text \<open>An item was written (\<open>text\<close>) into a buffer that keeps its size.\<close>

definition wrote :: "string \<Rightarrow> fixed_buffer \<Rightarrow> fixed_buffer \<Rightarrow> bool" where
  "wrote s b b' \<longleftrightarrow> fb_ok b' \<and> length (fb_data b') = length (fb_data b) \<and> fb_text b' = fb_text b @ s \<and>
     fb_curr b' = fb_curr b + length s"

lemma wrote_nothing: "fb_ok b \<Longrightarrow> wrote [] b b"
  by (simp add: wrote_def)

lemma wrote_mem:
  assumes "fb_ok b" and "fb_curr b + length s + length t \<le> length (fb_data b)"
  shows "\<exists>d. mem_write (fb_curr b) (s @ t) (fb_data b) = Some d \<and> length d = length (fb_data b) \<and>
    wrote s b (b\<lparr>fb_data := d, fb_curr := fb_curr b + length s\<rparr>)"
  using assms by (auto simp: mem_write_def wrote_def fb_ok_def fb_text_def)

lemma fb_append_wrote:
  assumes "fb_ok b"
  shows "\<exists>b'. fb_append s b = Some b' \<and> wrote (if length s + 1 \<le> length (fb_data b) - fb_curr b then s else []) b b'"
proof (cases "length s + 1 \<le> length (fb_data b) - fb_curr b")
  case True
  then have "fb_curr b + length s + length [] \<le> length (fb_data b)" by simp
  from wrote_mem [OF assms this] obtain d where "mem_write (fb_curr b) s (fb_data b) = Some d"
    "wrote s b (b\<lparr>fb_data := d, fb_curr := fb_curr b + length s\<rparr>)" by auto
  with True show ?thesis by (simp add: fb_append_def fb_remain_eq [OF assms] Suc_le_eq)
next
  case False
  with assms show ?thesis by (simp add: fb_append_def fb_remain_eq wrote_nothing)
qed

lemma put_number_wrote:
  assumes "fb_ok b" and "length s < 32" and "32 \<le> length (fb_data b) - fb_curr b"
  shows "\<exists>b'. put_number s b = Some b' \<and> wrote s b b'"
proof -
  have "fb_curr b + length s + length [NUL] \<le> length (fb_data b)" using assms by simp
  from wrote_mem [OF assms(1) this] obtain d where "mem_write (fb_curr b) (s @ [NUL]) (fb_data b) = Some d"
    "wrote s b (b\<lparr>fb_data := d, fb_curr := fb_curr b + length s\<rparr>)" by auto
  then show ?thesis by (simp add: put_number_def fb_add_def)
qed

lemma mem_write_twice:
  assumes "i + length s + length t \<le> length v"
  shows "(mem_write i s v \<bind> mem_write (i + length s) t) = mem_write i (s @ t) v"
  using assms by (simp add: mem_write_def ac_simps)

lemma put_pointer_number:
  assumes "v < 2 ^ 64" and "fb_ok b"
  shows "put_pointer v b = (if fb_remain b \<ge> kMaxNumericSize then put_number (''0x'' @ convertHex v) b else Some b)"
proof (cases "fb_remain b \<ge> kMaxNumericSize")
  case True
  have "length (convertHex v) \<le> 16" using assms by (intro convertHex_length) simp_all
  then have "fb_curr b + length ''0x'' + length (convertHex v @ [NUL]) \<le> length (fb_data b)"
    using True assms(2) by (simp add: fb_remain_eq kMaxNumericSize_def)
  from mem_write_twice [OF this]
  have "(mem_write (fb_curr b) ''0x'' (fb_data b) \<bind> mem_write (fb_curr b + 2) (convertHex v @ [NUL])) =
      mem_write (fb_curr b) (''0x'' @ convertHex v @ [NUL]) (fb_data b)" by simp
  with True show ?thesis
    by (simp add: put_pointer_def put_number_def bind_assoc [symmetric])
qed (simp add: put_pointer_def)

lemma put_item_append:
  assumes "fb_ok b" and "item_ok x" and "\<not> is_numeric x"
  shows "put_item x b = fb_append (item_text x) b"
  using assms
  by (cases x) (auto simp: put_char_def put_bool_def put_string_def put_cstr_def put_counted_def fb_append_def mem_read_def
      split: option.split)

lemma put_item_number:
  assumes "fb_ok b" and "item_ok x" and "is_numeric x"
  shows "put_item x b = (if fb_remain b \<ge> 32 then put_number (item_text x) b else Some b) \<and> length (item_text x) < 32"
proof (cases x)
  case (LPointer v)
  then have "length (convertHex v) \<le> 16" using assms(2) by (intro convertHex_length) simp_all
  with LPointer assms show ?thesis by (simp add: put_pointer_number kMaxNumericSize_def)
qed (use assms decimal_int_length in \<open>simp_all add: formatInt_def convert_decimal put_double_def put_number_def kMaxNumericSize_def\<close>)

lemma put_item_wrote:
  assumes "fb_ok b" and "item_ok x"
  shows "\<exists>b'. put_item x b = Some b' \<and> wrote (if item_room x \<le> length (fb_data b) - fb_curr b then item_text x else []) b b'"
proof (cases "is_numeric x")
  case True
  then show ?thesis
    using put_item_number [OF assms] put_number_wrote [OF assms(1), of "item_text x"] wrote_nothing [OF assms(1)]
    by (cases "32 \<le> length (fb_data b) - fb_curr b") (simp_all add: fb_remain_eq [OF assms(1)] item_room_def)
next
  case False
  then show ?thesis using fb_append_wrote [OF assms(1), of "item_text x"] by (simp add: put_item_append [OF assms] item_room_def)
qed

lemma put_items_kept:
  assumes "fb_ok b" and "\<forall>x \<in> set xs. item_ok x"
  shows "\<exists>b'. put_items xs b = Some b' \<and> wrote (kept (length (fb_data b) - fb_curr b) xs) b b'"
  using assms
proof (induction xs arbitrary: b)
  case Nil
  then show ?case by (simp add: wrote_nothing)
next
  case (Cons x xs)
  let ?r = "length (fb_data b) - fb_curr b"
  from put_item_wrote [of b x] Cons.prems obtain b1
    where b1: "put_item x b = Some b1" "wrote (if item_room x \<le> ?r then item_text x else []) b b1" by auto
  then have "fb_ok b1" "length (fb_data b1) - fb_curr b1 = (if item_room x \<le> ?r then ?r - length (item_text x) else ?r)"
    by (auto simp: wrote_def split: if_splits)
  with Cons.IH [of b1] Cons.prems obtain b2 where "put_items xs b1 = Some b2"
    "wrote (kept (if item_room x \<le> ?r then ?r - length (item_text x) else ?r) xs) b1 b2" by auto
  with b1 show ?case by (auto simp: wrote_def split: if_splits)
qed

section \<open>Properties\<close>

text \<open>
  C29: integers are printed as decimal numbers. \<open>convert\<close>, which takes the digits of a negative number with
  their sign and reads its table of digits around the middle, gives the usual decimal text
  for every integer, also for the most negative value of each type; and the hexadecimal text
  of a pointer reads back as its value, in at most 16 digits.
\<close>

theorem numbers_printed:
  "convert v = decimal_int v \<and> hex_value (convertHex p) = p \<and> (p < 2 ^ 64 \<longrightarrow> length (convertHex p) \<le> 16)"
  using convertHex_length [of p 16] by (simp add: convert_decimal hex_value_convertHex)

theorem numbers_printed_witness:
  "convert (- 9223372036854775808) = decimal_int (- 9223372036854775808) \<and> length (convertHex 3735928559) \<le> 16"
  using numbers_printed [of "- 9223372036854775808" 3735928559] by simp

text \<open>
  C28: a log stream never writes outside its buffer of 4000 bytes. Whatever items are written, each
  goes in as a whole or is left out when there is too little room for it, and the buffer
  holds the texts of those that went in, in order.
\<close>

theorem log_stream_within_buffer:
  assumes "length mem = kSmallBuffer" and "\<forall>x \<in> set xs. item_ok x"
  shows "\<exists>b. put_items xs (FixedBuffer_new mem) = Some b \<and> fb_text b = kept kSmallBuffer xs \<and>
    length (fb_data b) = kSmallBuffer \<and> fb_curr b \<le> kSmallBuffer"
  using put_items_kept [of "FixedBuffer_new mem" xs] assms
  by (auto simp: FixedBuffer_new_def fb_ok_def wrote_def fb_text_def)

theorem log_stream_within_buffer_witness:
  "\<exists>b. put_items [LString (replicate 3990 (CHR ''a'')), LInt 7, LBool True, LString (replicate 9 (CHR ''b''))]
      (FixedBuffer_new (replicate 4000 NUL)) = Some b \<and> fb_text b = replicate 3990 (CHR ''a'') @ ''1''"
  using log_stream_within_buffer [of "replicate 4000 NUL"
      "[LString (replicate 3990 (CHR ''a'')), LInt 7, LBool True, LString (replicate 9 (CHR ''b''))]"]
  by (auto simp: kSmallBuffer_def item_room_def)

end
