(* ===== verification/Logger.thy ===== *)
theory Logger
  imports Timestamp Log_Stream
begin

text \<open>
  \<open>net::Logger\<close> and the macros \<open>LOG\<close>, \<open>LOGSYS\<close> (\<open>srcs/logger/logger.h\<close>, \<open>logger.cc\<close>): one logger object
  writes one line, with a header of the time, the thread, the place in the source and the level.

  The thread-local variables are a record, as are the calls of the output and flush
  functions. The text of a thread's identity, \<open>strerror_r\<close>, \<open>gmtime_r\<close> and the time are
  parameters. The output and flush functions are opaque values; their calls are recorded, with the
  function called and, for output, the text it was given.
\<close>

section \<open>State\<close>

datatype log_level = DEBUG | INFO | WARN | ERROR | FATAL | NUM_LOG_LEVELS

primrec level_index :: "log_level \<Rightarrow> nat" where
  "level_index DEBUG = 0"
| "level_index INFO = 1"
| "level_index WARN = 2"
| "level_index ERROR = 3"
| "level_index FATAL = 4"
| "level_index NUM_LOG_LEVELS = 5"

definition kLogLevelName :: "string list" where
  "kLogLevelName = [''DEBUG '', ''INFO  '', ''WARN  '', ''ERROR '', ''FATAL '']"

record thread_log =
  t_time :: string
  t_lastSecond :: int
  tid_str :: string
  tid_str_len :: nat

definition thread_log_new :: thread_log where
  "thread_log_new = \<lparr>t_time = replicate 64 NUL, t_lastSecond = 0, tid_str = replicate 32 NUL, tid_str_len = 0\<rparr>"

record log_output =
  g_output_func :: nat
  g_flush_func :: nat
  lines_out :: "(nat \<times> string) list"
  flushes :: "nat list"

definition setOutputFunc :: "nat \<Rightarrow> log_output \<Rightarrow> log_output" where
  "setOutputFunc f out = out\<lparr>g_output_func := f\<rparr>"

definition setFlushFunc :: "nat \<Rightarrow> log_output \<Rightarrow> log_output" where
  "setFlushFunc f out = out\<lparr>g_flush_func := f\<rparr>"

text \<open>
  The cast to \<open>LogLevel\<close> is defined for the values of the bits the enumerators need, 0 to 7.
\<close>

definition initMinLogLevel :: "string option \<Rightarrow> nat option" where
  "initMinLogLevel env =
     (let min_log_lvl = (case env of None \<Rightarrow> 0 | Some s \<Rightarrow> strtol s) in
      if 0 \<le> min_log_lvl \<and> min_log_lvl \<le> 7 then Some (nat min_log_lvl) else None)"

record logger =
  stream :: fixed_buffer
  lg_file :: "string \<times> nat"
  lg_line :: int
  lg_level :: log_level
  saved_errno :: int
  lg_time :: timestamp

text \<open>What a log statement uses of its surroundings.\<close>

record log_env =
  le_ndebug :: bool
  le_zone :: "tz_data option"
  le_gmtime :: "int \<Rightarrow> tm"
  le_thread :: string
  le_strerror :: "int \<Rightarrow> string"
  le_stack :: string

section \<open>The header\<close>

text \<open>\<open>snprintf\<close> into an array that is longer: the text, a zero byte, and the old bytes.\<close>

definition print_into :: "string \<Rightarrow> string \<Rightarrow> string option" where
  "print_into arr text = mem_write 0 (snprintf (length arr) text @ [NUL]) arr"

definition cacheID :: "log_env \<Rightarrow> thread_log \<Rightarrow> thread_log option" where
  "cacheID e th =
     (if tid_str_len th = 0 then do {
        let text = c_str (le_thread e) @ '' '';
        arr \<leftarrow> print_into (tid_str th) text;
        Some (th\<lparr>tid_str := arr, tid_str_len := length text\<rparr>)
      }
      else Some th)"

text \<open>The text of a second, kept until the next one.\<close>

definition cacheTime :: "log_env \<Rightarrow> int \<Rightarrow> thread_log \<Rightarrow> thread_log option" where
  "cacheTime e seconds th =
     (if seconds \<noteq> t_lastSecond th then do {
        tm_time \<leftarrow> (if TimeZone_valid (le_zone e) then toLocalTime (le_ndebug e) (le_gmtime e) (le_zone e) seconds
                    else Some (le_gmtime e seconds));
        line \<leftarrow> tm_text tm_time;
        arr \<leftarrow> print_into (t_time th) line;
        cpp_assert (le_ndebug e) (length line = 17);
        Some (th\<lparr>t_lastSecond := seconds, t_time := arr\<rparr>)
      }
      else Some th)"

definition formatTime :: "log_env \<Rightarrow> timestamp \<Rightarrow> thread_log \<Rightarrow> fixed_buffer \<Rightarrow> (thread_log \<times> fixed_buffer) option" where
  "formatTime e time th b =
     do {
       let us = microSecondsSinceEpoch time;
       let seconds = us sdiv kMicroSecondsPerSecond;
       let microseconds = to_int32 (us smod kMicroSecondsPerSecond);
       th \<leftarrow> cacheTime e seconds th;
       if TimeZone_valid (le_zone e) then do {
         (buf, len) \<leftarrow> Fmt_new (le_ndebug e) (''.'' @ fmt_0d 6 microseconds @ '' '');
         cpp_assert (le_ndebug e) (len = 8);
         b \<leftarrow> put_items [LCounted (t_time th) 17, LCounted buf 8] b;
         Some (th, b)
       }
       else do {
         (buf, len) \<leftarrow> Fmt_new (le_ndebug e) (''.'' @ fmt_0d 6 microseconds @ ''Z '');
         cpp_assert (le_ndebug e) (len = 9);
         b \<leftarrow> put_items [LCounted (t_time th) 17, LCounted buf 9] b;
         Some (th, b)
       }
     }"

definition file_line_text :: "string \<times> nat \<Rightarrow> int \<Rightarrow> string" where
  "file_line_text file line = snprintf 64 (pad (CHR '' '') 20 (c_str (fst file)) @ '':'' @ decimal_int line @ '' '')"

definition formatFileAndLine :: "string \<times> nat \<Rightarrow> int \<Rightarrow> fixed_buffer \<Rightarrow> fixed_buffer option" where
  "formatFileAndLine file line b = put_items [LCStr (Some (file_line_text file line))] b"

definition strerror_tl :: "log_env \<Rightarrow> int \<Rightarrow> string" where
  [simp]: "strerror_tl e saved = le_strerror e saved"

definition getTidStr :: "thread_log \<Rightarrow> string" where
  [simp]: "getTidStr th = tid_str th"

definition getTidStrLen :: "thread_log \<Rightarrow> nat" where
  [simp]: "getTidStrLen th = tid_str_len th"

definition writeHeader :: "log_env \<Rightarrow> thread_log \<Rightarrow> logger \<Rightarrow> (thread_log \<times> logger) option" where
  "writeHeader e th lg =
     do {
       (th, b) \<leftarrow> formatTime e (lg_time lg) th (stream lg);
       th \<leftarrow> cacheID e th;
       b \<leftarrow> put_items [LCounted (getTidStr th) (getTidStrLen th)] b;
       b \<leftarrow> formatFileAndLine (lg_file lg) (lg_line lg) b;
       level \<leftarrow> vec_at kLogLevelName (level_index (lg_level lg));
       b \<leftarrow> put_items [LCounted level 6, LCStr (Some '': '')] b;
       b \<leftarrow> (if saved_errno lg \<noteq> 0 then
               put_items [LCStr (Some (strerror_tl e (saved_errno lg))), LCStr (Some '' (errno=''), LInt (saved_errno lg), LCStr (Some '') '')] b
             else Some b);
       Some (th, lg\<lparr>stream := b\<rparr>)
     }"

text \<open>
  The two constructors differ in the error number they save, 0 or \<open>errno\<close>; the flag of the
  second is not used. The array of the stream is on the stack and not initialised.
\<close>

definition Logger_new ::
  "log_env \<Rightarrow> string \<Rightarrow> int \<Rightarrow> log_level \<Rightarrow> int \<Rightarrow> timestamp \<Rightarrow> thread_log \<Rightarrow> (thread_log \<times> logger) option" where
  "Logger_new e file line level err now th =
     writeHeader e th \<lparr>stream = FixedBuffer_new (le_stack e), lg_file = SourceFile_new file, lg_line = line, lg_level = level,
       saved_errno = err, lg_time = now\<rparr>"

definition Logger_destroy :: "logger \<Rightarrow> log_output \<Rightarrow> log_output option" where
  "Logger_destroy lg out =
     do {
       b \<leftarrow> put_items [LChar (CHR 0x0A)] (stream lg);
       let out = out\<lparr>lines_out := lines_out out @ [(g_output_func out, fb_text b)]\<rparr>;
       Some (if lg_level lg = FATAL then out\<lparr>flushes := flushes out @ [g_flush_func out]\<rparr> else out)
     }"

text \<open>The statement \<open>LOG(level) << items\<close>, or \<open>LOGSYS(level) << items\<close> with \<open>errno\<close>.\<close>

definition log_statement ::
  "log_env \<Rightarrow> nat \<Rightarrow> string \<Rightarrow> int \<Rightarrow> log_level \<Rightarrow> int \<Rightarrow> timestamp \<Rightarrow> log_item list \<Rightarrow>
   thread_log \<times> log_output \<Rightarrow> (thread_log \<times> log_output) option" where
  "log_statement e g_min_log_level file line level err now items st =
     (if level_index level \<ge> g_min_log_level then do {
        (th, lg) \<leftarrow> Logger_new e file line level err now (fst st);
        b \<leftarrow> put_items items (stream lg);
        out \<leftarrow> Logger_destroy (lg\<lparr>stream := b\<rparr>) (snd st);
        Some (th, out)
      }
      else Some st)"

section \<open>The minimal level\<close>

text \<open>
  The level is read from the environment: without a setting everything is logged, a level from 0 to 5 written
  in decimal is taken as it is, so that a level above \<open>FATAL\<close> turns all messages off, and
  a number outside the range of the type makes the cast undefined.
\<close>

lemma initMinLogLevel_text:
  "initMinLogLevel None = Some 0"
  "int n < 2 ^ 63 \<Longrightarrow> initMinLogLevel (Some (decimal n)) = (if n \<le> 7 then Some n else None)"
  by (simp_all add: initMinLogLevel_def strtol_decimal Let_def)

section \<open>Streams with room left\<close>

definition holds :: "string \<Rightarrow> fixed_buffer \<Rightarrow> bool" where
  "holds s b \<longleftrightarrow> fb_ok b \<and> length (fb_data b) = 4000 \<and> fb_text b = s \<and> fb_curr b = length s"

lemma kept_all: "length (concat (map item_text xs)) + 32 \<le> room \<Longrightarrow> kept room xs = concat (map item_text xs)"
proof (induction xs arbitrary: room)
  case (Cons x xs)
  then have "item_room x \<le> room" by (simp add: item_room_def)
  with Cons.IH [of "room - length (item_text x)"] Cons.prems show ?case by simp
qed simp

lemma holds_put:
  assumes "holds s b" and "\<forall>x \<in> set xs. item_ok x" and "length s + length (concat (map item_text xs)) + 32 \<le> 4000"
  shows "\<exists>b'. put_items xs b = Some b' \<and> holds (s @ concat (map item_text xs)) b'"
proof -
  have "kept (length (fb_data b) - fb_curr b) xs = concat (map item_text xs)"
    using assms by (intro kept_all) (simp add: holds_def)
  with put_items_kept [of b xs] assms show ?thesis by (auto simp: holds_def wrote_def)
qed

lemma holds_new: "length mem = 4000 \<Longrightarrow> holds [] (FixedBuffer_new mem)"
  by (simp add: holds_def FixedBuffer_new_def fb_ok_def fb_text_def)

lemma print_into_take:
  assumes "length text < length arr"
  shows "\<exists>arr'. print_into arr text = Some arr' \<and> length arr' = length arr \<and> take (length text) arr' = text"
  using assms by (simp add: print_into_def mem_write_def)

section \<open>The header's parts\<close>

text \<open>
  The thread-local caches hold the text of the last second and of the thread's identity. The time zone
  of the log is never set, so that times are in UTC. \<open>log_env_ok\<close>: a thread's identity is a
  short text, and a stream has its 4000 bytes.
\<close>

definition log_env_ok :: "log_env \<Rightarrow> bool" where
  "log_env_ok e \<longleftrightarrow> le_zone e = None \<and> length (le_stack e) = 4000 \<and> NUL \<notin> set (le_thread e) \<and> length (le_thread e) < 31"

definition time_cached :: "log_env \<Rightarrow> thread_log \<Rightarrow> bool" where
  "time_cached e th \<longleftrightarrow> length (t_time th) = 64 \<and>
     (t_lastSecond th \<noteq> 0 \<longrightarrow> take 17 (t_time th) = date_text (le_gmtime e (t_lastSecond th)))"

definition id_cached :: "log_env \<Rightarrow> thread_log \<Rightarrow> bool" where
  "id_cached e th \<longleftrightarrow> length (tid_str th) = 32 \<and>
     (tid_str_len th \<noteq> 0 \<longrightarrow> tid_str_len th = length (le_thread e) + 1 \<and> take (tid_str_len th) (tid_str th) = le_thread e @ '' '')"

definition time_part :: "log_env \<Rightarrow> int \<Rightarrow> string" where
  "time_part e us = date_text (le_gmtime e (us div 1000000)) @ ''.'' @ fmt_0d 6 (us mod 1000000) @ ''Z ''"

definition errno_part :: "log_env \<Rightarrow> int \<Rightarrow> string" where
  "errno_part e err = (if err = 0 then [] else c_str (le_strerror e err) @ '' (errno='' @ decimal_int err @ '') '')"

definition header_text :: "log_env \<Rightarrow> string \<Rightarrow> int \<Rightarrow> log_level \<Rightarrow> int \<Rightarrow> int \<Rightarrow> string" where
  "header_text e file line level err us =
     time_part e us @ le_thread e @ '' '' @ c_str (file_line_text (SourceFile_new file) line) @
     kLogLevelName ! level_index level @ '': '' @ errno_part e err"

lemma caches_new: "time_cached e thread_log_new" "id_cached e thread_log_new"
  by (simp_all add: time_cached_def id_cached_def thread_log_new_def)

lemma cacheID_ok:
  assumes "log_env_ok e" and "id_cached e th"
  shows "\<exists>th'. cacheID e th = Some th' \<and> id_cached e th' \<and> tid_str_len th' = length (le_thread e) + 1 \<and>
    t_time th' = t_time th \<and> t_lastSecond th' = t_lastSecond th"
proof (cases "tid_str_len th = 0")
  case True
  let ?t = "le_thread e @ '' ''"
  from print_into_take [of ?t "tid_str th"] assms obtain arr where
    "print_into (tid_str th) ?t = Some arr" "length arr = 32" "take (length ?t) arr = ?t"
    by (auto simp: log_env_ok_def id_cached_def)
  with True assms show ?thesis by (simp add: cacheID_def log_env_ok_def id_cached_def)
next
  case False
  with assms show ?thesis by (auto simp: cacheID_def id_cached_def)
qed

lemma cacheTime_ok:
  assumes "log_env_ok e" and "time_cached e th" and "s \<noteq> 0" and "tm_ok (le_gmtime e s)"
  shows "\<exists>th'. cacheTime e s th = Some th' \<and>
    time_cached e th' \<and> t_lastSecond th' = s \<and> tid_str th' = tid_str th \<and> tid_str_len th' = tid_str_len th"
proof (cases "s = t_lastSecond th")
  case True
  with assms show ?thesis by (simp add: cacheTime_def)
next
  case False
  note d = tm_text_ok [OF assms(4)]
  from print_into_take [of "date_text (le_gmtime e s)" "t_time th"] d assms(2) obtain arr where
    "print_into (t_time th) (date_text (le_gmtime e s)) = Some arr" "length arr = 64" "take 17 arr = date_text (le_gmtime e s)"
    by (auto simp: time_cached_def)
  with False d assms show ?thesis by (simp add: cacheTime_def log_env_ok_def TimeZone_valid_def time_cached_def)
qed

lemma formatTime_ok:
  assumes "log_env_ok e" and "time_cached e th" and "1000000 \<le> us" and "tm_ok (le_gmtime e (us div 1000000))"
    and "holds [] b"
  shows "\<exists>th' b'. formatTime e (MkTimestamp us) th b = Some (th', b') \<and> holds (time_part e us) b' \<and>
    time_cached e th' \<and> tid_str th' = tid_str th \<and> tid_str_len th' = tid_str_len th"
proof -
  let ?s = "us div 1000000" and ?f = "us mod 1000000"
  let ?us = "''.'' @ fmt_0d 6 ?f @ ''Z ''"
  have s: "?s \<noteq> 0" using assms(3) by (simp add: div_eq_0_iff)
  have f: "to_int32 ?f = ?f" by (rule to_int32_id) (use pos_mod_bound [of 1000000 us] pos_mod_sign [of 1000000 us] in linarith)+
  have lf: "length (fmt_0d 6 ?f) = 6" by (rule length_fmt_0d) simp_all
  obtain th' where th': "cacheTime e ?s th = Some th'" "time_cached e th'" "t_lastSecond th' = ?s" "tid_str th' = tid_str th"
    "tid_str_len th' = tid_str_len th"
    using cacheTime_ok [OF assms(1,2) s assms(4)] by blast
  have date: "take 17 (t_time th') = date_text (le_gmtime e ?s)" "length (t_time th') = 64"
    using th' s by (simp_all add: time_cached_def)
  let ?items = "[LCounted (t_time th') 17, LCounted (?us @ [NUL]) 9]"
  have texts: "concat (map item_text ?items) = time_part e us"
    using date lf by (simp add: time_part_def)
  have len: "length [] + length (concat (map item_text ?items)) + 32 \<le> 4000"
    unfolding texts using tm_text_ok [OF assms(4)] lf by (simp add: time_part_def)
  have ok: "\<forall>x \<in> set ?items. item_ok x" using date lf by simp
  obtain b' where b': "put_items ?items b = Some b'" "holds (time_part e us) b'"
    using holds_put [OF assms(5) ok len] texts by auto
  have fmt: "Fmt_new (le_ndebug e) ?us = Some (?us @ [NUL], 9)"
    using lf by (simp add: Fmt_new_def)
  have "formatTime e (MkTimestamp us) th b = Some (th', b')"
    using assms(1,3) th'(1) b'(1) fmt f
    by (simp add: formatTime_def kMicroSecondsPerSecond_def log_env_ok_def TimeZone_valid_def del: put_items.simps)
  with b'(2) th' show ?thesis by blast
qed

lemma time_part_length: "tm_ok (le_gmtime e (us div 1000000)) \<Longrightarrow> length (time_part e us) = 26"
  using tm_text_ok [of "le_gmtime e (us div 1000000)"] length_fmt_0d [of "us mod 1000000" 6] by (simp add: time_part_def)

lemma put_items_append: "put_items (xs @ ys) b = (put_items xs b \<bind> put_items ys)"
proof (induction xs arbitrary: b)
  case (Cons x xs)
  then show ?case by (cases "put_item x b") simp_all
qed simp

lemma put_items_join: "(put_items xs b \<bind> (\<lambda>b. put_items ys b \<bind> f)) = (put_items (xs @ ys) b \<bind> f)"
  by (cases "put_items xs b") (simp_all add: put_items_append)

lemma level_name: "level \<noteq> NUM_LOG_LEVELS \<Longrightarrow>
    vec_at kLogLevelName (level_index level) = Some (kLogLevelName ! level_index level) \<and>
    length (kLogLevelName ! level_index level) = 6"
  by (cases level) (simp_all add: kLogLevelName_def vec_at_def)

definition errno_items :: "log_env \<Rightarrow> int \<Rightarrow> log_item list" where
  "errno_items e err = (if err = 0 then []
     else [LCStr (Some (le_strerror e err)), LCStr (Some '' (errno=''), LInt err, LCStr (Some '') '')])"

lemma errno_items_text: "concat (map item_text (errno_items e err)) = errno_part e err"
  by (simp add: errno_items_def errno_part_def)

lemma Logger_new_ok:
  assumes "log_env_ok e" and "time_cached e th" and "id_cached e th" and "1000000 \<le> us" and "tm_ok (le_gmtime e (us div 1000000))"
    and "level \<noteq> NUM_LOG_LEVELS" and "i32 err = Some err" and "length (header_text e file line level err us) + 32 \<le> 4000"
  shows "\<exists>th' lg. Logger_new e file line level err (MkTimestamp us) th = Some (th', lg) \<and>
    holds (header_text e file line level err us) (stream lg) \<and> lg_level lg = level \<and> time_cached e th' \<and> id_cached e th'"
proof -
  have "holds [] (FixedBuffer_new (le_stack e))" using assms(1) by (intro holds_new) (simp add: log_env_ok_def)
  from formatTime_ok [OF assms(1,2,4,5) this] obtain th1 b1 where
    b1: "formatTime e (MkTimestamp us) th (FixedBuffer_new (le_stack e)) = Some (th1, b1)" "holds (time_part e us) b1"
    and th1: "time_cached e th1" "tid_str th1 = tid_str th" "tid_str_len th1 = tid_str_len th" by blast
  then have "id_cached e th1" using assms(3) by (simp add: id_cached_def)
  from cacheID_ok [OF assms(1) this] obtain th2 where th2: "cacheID e th1 = Some th2" "id_cached e th2"
    "tid_str_len th2 = length (le_thread e) + 1" "t_time th2 = t_time th1" "t_lastSecond th2 = t_lastSecond th1" by blast
  have id: "take (tid_str_len th2) (tid_str th2) = le_thread e @ '' ''" "tid_str_len th2 \<le> length (tid_str th2)"
    using th2(2,3) assms(1) by (simp_all add: id_cached_def log_env_ok_def)
  have tc: "time_cached e th2" using th1(1) th2 by (simp add: time_cached_def)
  let ?items = "[LCounted (tid_str th2) (tid_str_len th2)] @ [LCStr (Some (file_line_text (SourceFile_new file) line))] @
    [LCounted (kLogLevelName ! level_index level) 6, LCStr (Some '': '')] @ errno_items e err"
  have c: "c_str '': '' = '': ''" by (simp add: c_str_def)
  have "concat (map item_text ?items) = le_thread e @ '' '' @ c_str (file_line_text (SourceFile_new file) line) @
      kLogLevelName ! level_index level @ '': '' @ errno_part e err"
    using id(1) level_name [OF assms(6)] c by (simp add: errno_items_text)
  then have texts: "time_part e us @ concat (map item_text ?items) = header_text e file line level err us"
    by (simp only: header_text_def)
  have ok: "\<forall>x \<in> set ?items. item_ok x"
    using id(2) level_name [OF assms(6)] assms(7) by (auto simp: errno_items_def i32_def split: if_splits)
  have len: "length (time_part e us) + length (concat (map item_text ?items)) + 32 \<le> 4000"
    using assms(8) unfolding texts [symmetric] by simp
  from holds_put [OF b1(2) ok len] obtain b2 where b2: "put_items ?items b1 = Some b2" "holds (header_text e file line level err us) b2"
    unfolding texts by blast
  define lg where "lg = \<lparr>stream = FixedBuffer_new (le_stack e), lg_file = SourceFile_new file, lg_line = line, lg_level = level,
    saved_errno = err, lg_time = MkTimestamp us\<rparr>"
  have "writeHeader e th lg = do { b \<leftarrow> put_items ?items b1; Some (th2, lg\<lparr>stream := b\<rparr>) }"
    using b1(1) th2(1) level_name [OF assms(6)]
    by (cases "err = 0") (simp_all add: writeHeader_def lg_def formatFileAndLine_def put_items_join errno_items_def del: put_items.simps)
  with b2 tc th2(2) show ?thesis by (simp add: Logger_new_def lg_def)
qed

lemma log_statement_ok:
  assumes "log_env_ok e" and "time_cached e th" and "id_cached e th" and "1000000 \<le> us" and "tm_ok (le_gmtime e (us div 1000000))"
    and "level \<noteq> NUM_LOG_LEVELS" and "i32 err = Some err" and "\<forall>x \<in> set items. item_ok x"
    and "length (header_text e file line level err us @ concat (map item_text items)) + 33 \<le> 4000"
  shows "\<exists>th' out'. log_statement e lmin file line level err (MkTimestamp us) items (th, out) = Some (th', out') \<and>
    time_cached e th' \<and> id_cached e th' \<and>
    (if lmin \<le> level_index level
     then lines_out out' = lines_out out @
            [(g_output_func out, header_text e file line level err us @ concat (map item_text items) @ [CHR 0x0A])] \<and>
          flushes out' = flushes out @ (if level = FATAL then [g_flush_func out] else [])
     else th' = th \<and> out' = out)"
proof (cases "lmin \<le> level_index level")
  case True
  let ?h = "header_text e file line level err us" and ?m = "concat (map item_text items)"
  have "length ?h + 32 \<le> 4000" using assms(9) by simp
  from Logger_new_ok [OF assms(1-7) this] obtain th' lg where
    lg: "Logger_new e file line level err (MkTimestamp us) th = Some (th', lg)" "holds ?h (stream lg)" "lg_level lg = level"
      "time_cached e th'" "id_cached e th'" by auto
  from holds_put [OF lg(2) assms(8)] assms(9) obtain b where b: "put_items items (stream lg) = Some b" "holds (?h @ ?m) b" by auto
  from holds_put [OF b(2), of "[LChar (CHR 0x0A)]"] assms(9) obtain b' where
    b': "put_items [LChar (CHR 0x0A)] b = Some b'" "holds (?h @ ?m @ [CHR 0x0A]) b'" by (auto simp del: put_items.simps)
  with True lg b show ?thesis
    by (simp add: log_statement_def Logger_destroy_def holds_def Let_def del: put_items.simps)
qed (simp add: log_statement_def assms(2,3))

section \<open>Properties\<close>

text \<open>
  C30: what a log statement prints. At or above the minimal level it calls the output function once, with
  the header, the texts of the items and a line break, when they fit into the buffer; the
  header shows the time of the statement, also when the text of its second comes from the cache of the
  thread, and the caches stay right. A fatal message flushes. Below the minimal level nothing happens.
\<close>

theorem log_line_printed:
  assumes "log_env_ok e" and "time_cached e th" and "id_cached e th" and "1000000 \<le> us" and "tm_ok (le_gmtime e (us div 1000000))"
    and "level \<noteq> NUM_LOG_LEVELS" and "i32 err = Some err" and "\<forall>x \<in> set items. item_ok x"
    and "length (header_text e file line level err us @ concat (map item_text items)) + 33 \<le> 4000"
  shows "\<exists>th' out'. log_statement e lmin file line level err (MkTimestamp us) items (th, out) = Some (th', out') \<and>
    time_cached e th' \<and> id_cached e th' \<and>
    (if lmin \<le> level_index level
     then lines_out out' = lines_out out @
            [(g_output_func out, header_text e file line level err us @ concat (map item_text items) @ [CHR 0x0A])] \<and>
          flushes out' = flushes out @ (if level = FATAL then [g_flush_func out] else [])
     else th' = th \<and> out' = out)"
  using assms by (rule log_statement_ok)

definition wit_log_env :: log_env where
  "wit_log_env = \<lparr>le_ndebug = False, le_zone = None,
     le_gmtime = (\<lambda>s. tm_zero\<lparr>tm_year := 117, tm_mon := 6, tm_mday := 14, tm_hour := 2, tm_min := 40\<rparr>),
     le_thread = ''1407'', le_strerror = (\<lambda>err. ''Broken pipe''), le_stack = replicate 4000 NUL\<rparr>"

lemma wit_header_length: "length (header_text wit_log_env ''srcs/net/a.cc'' 12 ERROR 32 1500000000000042) \<le> 200"
proof -
  have "tm_ok (le_gmtime wit_log_env (1500000000000042 div 1000000))" by (simp add: wit_log_env_def tm_ok_def tm_zero_def)
  from time_part_length [OF this] have "length (time_part wit_log_env 1500000000000042) = 26" .
  moreover have "length (c_str (file_line_text f l)) \<le> 63" for f l
    using length_takeWhile_le [of "\<lambda>c. c \<noteq> NUL" "file_line_text f l"] by (simp add: c_str_def file_line_text_def snprintf_def)
  from this [of "SourceFile_new ''srcs/net/a.cc''" 12]
  have "length (c_str (file_line_text (SourceFile_new ''srcs/net/a.cc'') 12)) \<le> 63" .
  moreover have "length (errno_part wit_log_env 32) \<le> 60"
    using decimal_int_length [of 32] length_takeWhile_le [of "\<lambda>c. c \<noteq> NUL" "''Broken pipe''"]
    by (simp add: errno_part_def wit_log_env_def c_str_def)
  ultimately show ?thesis by (simp add: header_text_def wit_log_env_def kLogLevelName_def)
qed

theorem log_line_printed_witness:
  "\<exists>th' out'. log_statement wit_log_env (level_index INFO) ''srcs/net/a.cc'' 12 ERROR 32 (MkTimestamp 1500000000000042) [LString ''fd '', LInt (- 1)]
      (thread_log_new, \<lparr>g_output_func = 1, g_flush_func = 2, lines_out = [], flushes = []\<rparr>) = Some (th', out') \<and>
    lines_out out' = [(1, header_text wit_log_env ''srcs/net/a.cc'' 12 ERROR 32 1500000000000042 @ ''fd '' @ decimal_int (- 1) @ [CHR 0x0A])]"
proof -
  have ok: "log_env_ok wit_log_env" by (simp add: log_env_ok_def wit_log_env_def)
  have tm: "tm_ok (le_gmtime wit_log_env (1500000000000042 div 1000000))" by (simp add: wit_log_env_def tm_ok_def tm_zero_def)
  have items: "\<forall>x \<in> set [LString ''fd '', LInt (- 1)]. item_ok x" by simp
  have len: "length (header_text wit_log_env ''srcs/net/a.cc'' 12 ERROR 32 1500000000000042 @
      concat (map item_text [LString ''fd '', LInt (- 1)])) + 33 \<le> 4000"
    using wit_header_length decimal_int_length [of "- 1"] by simp
  have "(1000000 :: int) \<le> 1500000000000042" "ERROR \<noteq> NUM_LOG_LEVELS" "i32 32 = Some 32" by (simp_all add: i32_def)
  from log_line_printed [OF ok caches_new this(1) tm this(2,3) items len, of "level_index INFO" "\<lparr>g_output_func = 1, g_flush_func = 2, lines_out = [], flushes = []\<rparr>"]
  show ?thesis by auto
qed

end
