(* ===== verification/Sysw.thy ===== *)
theory Sysw
  imports Logger
begin

text \<open>
  \<open>net::sysw\<close> (\<open>srcs/net/sys_wrapper/sysw.cc\<close>): the wrappers of the system calls. Each makes its
  call, logs a failure with the error number, and returns the result of the call. Two failures are
  expected and not logged: an \<open>epoll_wait\<close> interrupted by a signal, and the \<open>shutdown\<close> of
  a socket that is no longer connected.

  The kernel is a parameter: what a call returns, and the value of \<open>errno\<close> after it. The
  memory behind pointer arguments belongs to the caller and does not matter here: the
  wrappers only pass the pointers on.
\<close>

datatype sys_call =
    SysOpen string int | SysWrite int "char list" | SysRead int nat | SysClose int
  | SysEventfd nat int | SysEpollCreate1 int | SysEpollCtl int int int | SysEpollWait int int int
  | SysSocket int int int | SysBind int string | SysListen int int | SysAccept4 int int | SysConnect int string
  | SysReadv int "nat list" | SysWritev int "string list" | SysShutdown int int
  | SysSetsockopt int int int string

type_synonym sys_kernel = "sys_call \<Rightarrow> int \<times> int"

text \<open>What a log statement in this file uses: its surroundings, the minimal level, the name of the file, the time.\<close>

record log_site =
  ls_env :: log_env
  ls_min :: nat
  ls_file :: string
  ls_now :: timestamp

definition EINTR :: int where [cpp_consts]: "EINTR = 4"

definition log_error :: "log_site \<Rightarrow> string \<Rightarrow> int \<Rightarrow> thread_log \<times> log_output \<Rightarrow> (thread_log \<times> log_output) option" where
  "log_error L which errno st =
     log_statement (ls_env L) (ls_min L) (ls_file L) 20 ERROR errno (ls_now L)
       [LCStr (Some which), LCStr (Some '' error.'')] st"

definition log_if :: "bool \<Rightarrow> log_site \<Rightarrow> string \<Rightarrow> int \<Rightarrow> thread_log \<times> log_output \<Rightarrow> (thread_log \<times> log_output) option" where
  "log_if c L which errno st = (if c then log_error L which errno st else Some st)"

text \<open>The wrappers, in the order of the source.\<close>

fun sysw :: "sys_kernel \<Rightarrow> log_site \<Rightarrow> sys_call \<Rightarrow> thread_log \<times> log_output \<Rightarrow> (int \<times> (thread_log \<times> log_output)) option" where
  "sysw k L (SysOpen path flag) st =
     (let (fd, errno) = k (SysOpen path flag) in map_option (Pair fd) (log_if (fd < 0) L ''open'' errno st))"
| "sysw k L (SysWrite fd buf) st =
     (let (n, errno) = k (SysWrite fd buf) in map_option (Pair n) (log_if (n < 0) L ''write'' errno st))"
| "sysw k L (SysRead fd count) st =
     (let (n, errno) = k (SysRead fd count) in map_option (Pair n) (log_if (n < 0) L ''read'' errno st))"
| "sysw k L (SysClose fd) st =
     (let (ok, errno) = k (SysClose fd) in map_option (Pair ok) (log_if (ok < 0) L ''close'' errno st))"
| "sysw k L (SysEventfd count flags) st =
     (let (fd, errno) = k (SysEventfd count flags) in map_option (Pair fd) (log_if (fd < 0) L ''eventfd'' errno st))"
| "sysw k L (SysEpollCreate1 flags) st =
     (let (epfd, errno) = k (SysEpollCreate1 flags) in map_option (Pair epfd) (log_if (epfd < 0) L ''epoll_create1'' errno st))"
| "sysw k L (SysEpollCtl epfd op fd) st =
     (let (ok, errno) = k (SysEpollCtl epfd op fd) in map_option (Pair ok) (log_if (ok < 0) L ''epoll_ctl'' errno st))"
| "sysw k L (SysEpollWait epfd max_events timeout) st =
     (let (num_events, errno) = k (SysEpollWait epfd max_events timeout) in
      map_option (Pair num_events) (log_if (num_events < 0 \<and> errno \<noteq> EINTR) L ''epoll_wait'' errno st))"
| "sysw k L (SysSocket domain type protocol) st =
     (let (fd, errno) = k (SysSocket domain type protocol) in map_option (Pair fd) (log_if (fd < 0) L ''socket'' errno st))"
| "sysw k L (SysBind sockfd addr) st =
     (let (ok, errno) = k (SysBind sockfd addr) in map_option (Pair ok) (log_if (ok < 0) L ''bind'' errno st))"
| "sysw k L (SysListen sockfd backlog) st =
     (let (ok, errno) = k (SysListen sockfd backlog) in map_option (Pair ok) (log_if (ok < 0) L ''listen'' errno st))"
| "sysw k L (SysAccept4 sockfd flags) st =
     (let (fd, errno) = k (SysAccept4 sockfd flags) in map_option (Pair fd) (log_if (fd < 0) L ''accept'' errno st))"
| "sysw k L (SysConnect clientfd addr) st =
     (let (ok, errno) = k (SysConnect clientfd addr) in map_option (Pair ok) (log_if (ok < 0) L ''connect'' errno st))"
| "sysw k L (SysReadv fd iov) st =
     (let (n, errno) = k (SysReadv fd iov) in map_option (Pair n) (log_if (n < 0) L ''readv'' errno st))"
| "sysw k L (SysWritev fd iov) st =
     (let (n, errno) = k (SysWritev fd iov) in map_option (Pair n) (log_if (n < 0) L ''writev'' errno st))"
| "sysw k L (SysShutdown fd how) st =
     (let (ok, errno) = k (SysShutdown fd how) in
      map_option (Pair ok) (log_if (ok < 0 \<and> errno \<noteq> 107) L ''shutdown'' errno st))"
| "sysw k L (SysSetsockopt sockfd level optname optval) st =
     (let (ok, errno) = k (SysSetsockopt sockfd level optname optval) in
      map_option (Pair ok) (log_if (ok < 0) L ''setsockopt'' errno st))"

section \<open>What is logged\<close>

text \<open>Failures the caller is told of but that are no errors, and the name a call is logged with.\<close>

fun expected_failure :: "sys_call \<Rightarrow> int \<Rightarrow> bool" where
  "expected_failure (SysEpollWait _ _ _) errno = (errno = 4)"
| "expected_failure (SysShutdown _ _) errno = (errno = 107)"
| "expected_failure _ _ = False"

fun call_name :: "sys_call \<Rightarrow> string" where
  "call_name (SysOpen _ _) = ''open''"
| "call_name (SysWrite _ _) = ''write''"
| "call_name (SysRead _ _) = ''read''"
| "call_name (SysClose _) = ''close''"
| "call_name (SysEventfd _ _) = ''eventfd''"
| "call_name (SysEpollCreate1 _) = ''epoll_create1''"
| "call_name (SysEpollCtl _ _ _) = ''epoll_ctl''"
| "call_name (SysEpollWait _ _ _) = ''epoll_wait''"
| "call_name (SysSocket _ _ _) = ''socket''"
| "call_name (SysBind _ _) = ''bind''"
| "call_name (SysListen _ _) = ''listen''"
| "call_name (SysAccept4 _ _) = ''accept''"
| "call_name (SysConnect _ _) = ''connect''"
| "call_name (SysReadv _ _) = ''readv''"
| "call_name (SysWritev _ _) = ''writev''"
| "call_name (SysShutdown _ _) = ''shutdown''"
| "call_name (SysSetsockopt _ _ _ _) = ''setsockopt''"

definition failed :: "sys_kernel \<Rightarrow> sys_call \<Rightarrow> bool" where
  "failed k c \<longleftrightarrow> fst (k c) < 0 \<and> \<not> expected_failure c (snd (k c))"

lemma sysw_log_if: "sysw k L c st = map_option (Pair (fst (k c))) (log_if (failed k c) L (call_name c) (snd (k c)) st)"
  by (cases c) (simp_all add: failed_def split_beta cpp_consts)

lemma call_name_plain: "NUL \<notin> set (call_name c)" "length (call_name c) \<le> 13"
  by (cases c; simp)+

definition log_site_ok :: "log_site \<Rightarrow> bool" where
  "log_site_ok L \<longleftrightarrow> log_env_ok (ls_env L) \<and>
     (\<exists>us. ls_now L = MkTimestamp us \<and> 1000000 \<le> us \<and> tm_ok (le_gmtime (ls_env L) (us div 1000000))) \<and>
     (\<forall>err. length (le_strerror (ls_env L) err) < 512)"

definition error_line :: "log_site \<Rightarrow> string \<Rightarrow> int \<Rightarrow> string" where
  "error_line L which errno =
     header_text (ls_env L) (ls_file L) 20 ERROR errno (microSecondsSinceEpoch (ls_now L)) @ which @ '' error.'' @ [CHR 0x0A]"

definition caches_ok :: "log_site \<Rightarrow> thread_log \<Rightarrow> bool" where
  "caches_ok L th \<longleftrightarrow> time_cached (ls_env L) th \<and> id_cached (ls_env L) th"

lemma header_short:
  assumes "log_site_ok L" and "i32 err = Some err"
  shows "length (header_text (ls_env L) (ls_file L) 20 ERROR err (microSecondsSinceEpoch (ls_now L))) \<le> 800"
proof -
  obtain us where us: "ls_now L = MkTimestamp us" "tm_ok (le_gmtime (ls_env L) (us div 1000000))"
    and e: "log_env_ok (ls_env L)" "length (le_strerror (ls_env L) err) < 512"
    using assms(1) by (auto simp: log_site_ok_def)
  have "length (c_str (file_line_text f 20)) \<le> 63" for f
    using length_takeWhile_le [of "\<lambda>c. c \<noteq> NUL" "file_line_text f 20"] by (simp add: c_str_def file_line_text_def snprintf_def)
  from this [of "SourceFile_new (ls_file L)"]
  have "length (c_str (file_line_text (SourceFile_new (ls_file L)) 20)) \<le> 63" .
  moreover have "length (errno_part (ls_env L) err) \<le> 560"
    using e(2) assms(2) decimal_int_length [of err] length_takeWhile_le [of "\<lambda>c. c \<noteq> NUL" "le_strerror (ls_env L) err"]
    by (auto simp: errno_part_def c_str_def i32_def split: if_splits)
  ultimately show ?thesis
    using time_part_length [OF us(2)] e(1) us(1) by (simp add: header_text_def log_env_ok_def kLogLevelName_def)
qed

lemma log_error_ok:
  assumes "log_site_ok L" and "caches_ok L th" and "i32 err = Some err" and "NUL \<notin> set which" and "length which \<le> 13"
  shows "\<exists>th' out'. log_error L which err (th, out) = Some (th', out') \<and> caches_ok L th' \<and>
    lines_out out' = lines_out out @ (if ls_min L \<le> 3 then [(g_output_func out, error_line L which err)] else [])"
proof -
  obtain us where us: "ls_now L = MkTimestamp us" "1000000 \<le> us" "tm_ok (le_gmtime (ls_env L) (us div 1000000))"
    and e: "log_env_ok (ls_env L)"
    using assms(1) by (auto simp: log_site_ok_def)
  let ?items = "[LCStr (Some which), LCStr (Some '' error.'')]"
  have c: "c_str which = which" "c_str '' error.'' = '' error.''" using assms(4) by simp_all
  then have len: "length (header_text (ls_env L) (ls_file L) 20 ERROR err us @ concat (map item_text ?items)) + 33 \<le> 4000"
    using header_short [OF assms(1,3)] us(1) assms(5) by simp
  have ok: "\<forall>x \<in> set ?items. item_ok x" by simp
  from log_statement_ok [OF e _ _ us(2,3) _ assms(3) ok len, of th "ls_min L" out] assms(2) c us(1) show ?thesis
    by (fastforce simp: log_error_def caches_ok_def error_line_def split: if_splits)
qed

section \<open>Properties\<close>

text \<open>
  C32: the wrappers are transparent. Every wrapper returns what the kernel returned; it adds exactly one line
  to the log, naming the call and the error, when the call failed in an unexpected way and errors
  are logged, and none otherwise. It never makes an execution undefined.
\<close>

theorem sysw_transparent:
  assumes "log_site_ok L" and "caches_ok L th" and "i32 (snd (k c)) = Some (snd (k c))"
  shows "\<exists>th' out'. sysw k L c (th, out) = Some (fst (k c), th', out') \<and> caches_ok L th' \<and>
    lines_out out' = lines_out out @
      (if fst (k c) < 0 \<and> \<not> expected_failure c (snd (k c)) \<and> ls_min L \<le> level_index ERROR
       then [(g_output_func out, error_line L (call_name c) (snd (k c)))] else [])"
proof (cases "failed k c")
  case True
  from log_error_ok [OF assms(1-3) call_name_plain, of c out] True show ?thesis
    by (auto simp: sysw_log_if log_if_def failed_def)
next
  case False
  with assms(2) show ?thesis by (auto simp: sysw_log_if log_if_def failed_def)
qed

definition wit_site :: log_site where
  "wit_site = \<lparr>ls_env = wit_log_env, ls_min = 0, ls_file = ''srcs/net/sys_wrapper/sysw.cc'', ls_now = MkTimestamp 1500000000000042\<rparr>"

theorem sysw_transparent_witness:
  "\<exists>th' out'. sysw (\<lambda>c. (- 1, 98)) wit_site (SysBind 3 ''addr'')
      (thread_log_new, \<lparr>g_output_func = 1, g_flush_func = 2, lines_out = [], flushes = []\<rparr>) = Some (- 1, th', out') \<and>
    lines_out out' = [(1, error_line wit_site ''bind'' 98)]"
proof -
  have L: "log_site_ok wit_site"
    by (simp add: log_site_ok_def wit_site_def log_env_ok_def wit_log_env_def tm_ok_def tm_zero_def)
  have th: "caches_ok wit_site thread_log_new" by (simp add: caches_ok_def caches_new)
  have n: "i32 98 = Some 98" by (simp add: i32_def)
  from sysw_transparent [of wit_site thread_log_new "\<lambda>c. (- 1, 98)" "SysBind 3 ''addr''"
      "\<lparr>g_output_func = 1, g_flush_func = 2, lines_out = [], flushes = []\<rparr>"] L th n
  show ?thesis by (auto simp: wit_site_def)
qed

end
