(* ===== verification/Test_Programs.thy ===== *)
theory Test_Programs
  imports Linked_Buffer Response_Cache Http_Request Fd_Handler
begin

text \<open>
  The small test programs of the repository, \<open>tests/test_linked_buffer.cc\<close>, \<open>tests/test_http_req_hash.cc\<close> and
  \<open>unit_tests/test_fd_handler.cc\<close>: each exercises one class by hand and prints what it sees. The
  model of a program is the list of what it prints, computed with the model of the class.
\<close>

section \<open>Linked buffers\<close>

declare it_range.simps [code] lb_node_iters.simps [code] lb_forward.simps [code] lb_backward.simps [code] lb_sum_to.simps [code]

datatype printed = OutInt int | OutChars string | OutHash hash | OutFd int | OutError string

text \<open>\<open>for (auto&& c : lb)\<close> starts at \<open>begin()\<close>, the first byte of the first node, not at the reader.\<close>

definition print_chars :: "linked_buffer \<Rightarrow> printed option" where
  "print_chars b =
     do {
       first \<leftarrow> LinkedBuffer_begin b;
       s \<leftarrow> std_string LinkedBuffer_type b first (LinkedBuffer_end b);
       Some (OutChars s)
     }"

definition print_size :: "linked_buffer \<Rightarrow> printed option" where
  "print_size b = map_option (\<lambda>n. OutInt (int n)) (LinkedBuffer_readableSize b)"

definition test_linked_buffer_main :: "printed list option" where
  "test_linked_buffer_main =
     do {
       let lb = LinkedBuffer_new;
       lb \<leftarrow> LinkedBuffer_append (''hll'' @ [CHR 0x0D]) lb;
       lb \<leftarrow> LinkedBuffer_append [CHR 0x0A] lb;
       lb \<leftarrow> LinkedBuffer_append ''sssss'' lb;
       iter \<leftarrow> std_search LinkedBuffer_type lb (reader_iter lb) (LinkedBuffer_end lb) kCRLF;
       first \<leftarrow> LinkedBuffer_begin lb;
       d \<leftarrow> LinkedBufferIter_diff lb iter first;
       let e = OutInt (if LinkedBufferIter_equal iter (LinkedBuffer_end lb) then 1 else 0);
       n1 \<leftarrow> print_size lb; s1 \<leftarrow> print_chars lb;
       (_, lb) \<leftarrow> LinkedBuffer_read 2 lb;
       n2 \<leftarrow> print_size lb; s2 \<leftarrow> print_chars lb;
       (_, lb) \<leftarrow> LinkedBuffer_read 2 lb;
       n3 \<leftarrow> print_size lb; s3 \<leftarrow> print_chars lb;
       Some [OutInt d, e, n1, s1, n2, s2, n3, s3]
     }"

text \<open>The line break is found at offset 3; reading takes bytes off the size, and the loop prints all ten bytes each time.\<close>

lemma test_linked_buffer_prints:
  "test_linked_buffer_main = (let s = OutChars (''hll'' @ [CHR 0x0D, CHR 0x0A] @ ''sssss'') in
     Some [OutInt 3, OutInt 0, OutInt 10, s, OutInt 8, s, OutInt 6, s])"
  by code_simp

section \<open>Hashes of requests\<close>

text \<open>A hash table keyed by pointers to requests: number 0 and number 1, both to new requests.\<close>

definition test_http_req_hash_main :: "boost_hash \<Rightarrow> printed list" where
  "test_http_req_hash_main B =
     (let h = HTTPRequstPtrHash B (\<lambda>_. HTTPRequest_new);
          count = (\<lambda>t p. OutInt (if table_find h t p = None then 0 else 1));
          mp = table_emplace h [] 0 0;
          mp' = table_emplace h mp 1 1 in
      [OutHash (h 0), count mp 0, OutHash (h 1), count mp 1, OutInt (int (length mp'))])"

lemma test_http_req_hash_prints:
  "test_http_req_hash_main B = (let h = to_hash_value B HTTPRequest_new in [OutHash h, OutInt 1, OutHash h, OutInt 1, OutInt 1])"
  by (simp add: test_http_req_hash_main_def table_emplace_def table_find_def HTTPRequstPtrHash_def Let_def)

section \<open>Descriptors\<close>

text \<open>
  Handler 0 is \<open>fd_handler\<close> of \<open>main\<close>, 1 the parameter of \<open>foo\<close> and 2 its local copy. The system calls on the descriptor are
  observed with the printed lines; what \<open>write\<close> returns and the texts \<open>strerror(errno)\<close> gives at its places are
  parameters.
\<close>

datatype fd_test_event = Printed printed | Written int string nat | ClosedByHand int

definition fd_foo :: "int \<Rightarrow> string \<Rightarrow> fd_heap \<Rightarrow> (fd_test_event list \<times> fd_heap) option" where
  "fd_foo written err s =
     do {
       s \<leftarrow> FDHandler_copy 0 1 s;
       s \<leftarrow> FDHandler_copy 1 2 s;
       fd \<leftarrow> FDHandler_get 2 s;
       let evs = [Printed (OutFd fd), Written fd ''a dummy test'' 50] @ (if written < 0 then [Printed (OutError err)] else []);
       s \<leftarrow> FDHandler_drop 2 s;
       s \<leftarrow> FDHandler_drop 1 s;
       Some (evs, s)
     }"

definition test_fd_handler_main :: "int \<Rightarrow> int \<Rightarrow> (nat \<Rightarrow> string) \<Rightarrow> (fd_test_event list \<times> fd_heap) option" where
  "test_fd_handler_main opened written err =
     do {
       s \<leftarrow> FDHandler_new 0 opened fd_heap_new;
       (evs, s) \<leftarrow> fd_foo written (err 0) s;
       fd \<leftarrow> FDHandler_get 0 s;
       s \<leftarrow> FDHandler_drop 0 s;
       Some (evs @ [Printed (OutError (err 1)), Printed (OutFd fd), ClosedByHand fd, Printed (OutError (err 2))], s)
     }"

text \<open>
  The block closes the descriptor, once, when its handler goes out of scope and not when \<open>foo\<close> drops the copies; the
  \<open>close\<close> that follows the block is the second for this descriptor.
\<close>

lemma test_fd_handler_closes:
  "\<exists>evs s. test_fd_handler_main fd written err = Some (evs, s) \<and> closed s = [0] \<and> handlers s = Map.empty \<and> ClosedByHand fd \<in> set evs"
  "\<exists>evs s s0. FDHandler_new 0 fd fd_heap_new = Some s0 \<and> fd_foo written (err 0) s0 = Some (evs, s) \<and> closed s = []"
  by (simp_all add: test_fd_handler_main_def fd_foo_def FDHandler_new_def FDHandler_copy_def FDHandler_get_def FDHandler_drop_def
      fd_heap_new_def vec_at_def fun_eq_iff)

end
