(* ===== verification/Spec2Isabelle.thy ===== *)
theory Spec2Isabelle
  imports Server_System Shared_Cache Watched_Connection Buffer_Calls Sysw Test_Programs
begin

text \<open>
  \<^bold>\<open>A model of the web server.\<close>

  The program is a multi-threaded HTTP server in the style of a reactor. One event loop per thread waits in
  a poller for events of file descriptors and calls the callbacks of their channels; the main thread accepts
  connections and hands them to the loops of a pool in turn; a connection reads bytes into an input buffer, the
  HTTP callbacks parse requests from it, look for a handler or a cached response, print the response into
  the output buffer and write it to the socket, at once or when the poller reports that there is room. A logger, a
  calendar and a time zone database serve all parts.

  \<^bold>\<open>How executions are modelled.\<close> An operation of the code is a function on the fields of its class, a
  record. Its result has type \<open>option\<close>: \<open>None\<close> is an execution that the language gives no meaning to (an access out
  of range, a signed overflow, a null pointer) or that an assertion stops; \<open>cpp_assert\<close> depends on the
  build mode, \<open>NDEBUG\<close>. Errors the code handles are ordinary values. Code outside the repository is a
  parameter: the system calls, \<open>inet_ntop\<close>, \<open>gmtime_r\<close>, \<open>timegm\<close>, the hash function of \<open>boost\<close>, the order of an
  \<open>unordered_map\<close>. What the proofs need of them is a named predicate that states documented behaviour:
  \<open>readv_contract\<close>, \<open>writev_contract\<close>, \<open>ctl_contract\<close>, \<open>kernel_contract\<close>, \<open>wait_contract\<close>, \<open>eventfd_contract\<close>, \<open>ntop_contract\<close>,
  \<open>map_order_contract\<close>, \<open>log_env_ok\<close>.
  Loops whose end is not obvious are \<open>partial_function (option)\<close>, where not ending is \<open>None\<close> too, so that each theorem
  with a result \<open>Some\<close> says that the loop ends. No fuel is used anywhere. Integers keep their width where
  it matters: event masks are words, calendar arithmetic is checked against 32 and 64 bits, \<open>size_t\<close> subtraction wraps.

  \<^bold>\<open>The theories and the sources under \<open>srcs/\<close>.\<close>

  \<^item> \<open>Prelude\<close>: executions, assertions, checked memory, C strings, decimal text, fixed-width integers, and the
    collections of rewrite rules.
  \<^item> \<open>Byte_Buffer\<close>: what the templates use of a buffer class (a record of operations), \<open>std::find\<close> and \<open>std::search\<close> over
    its iterators, and the two contracts, locales \<open>in_buffer\<close> and \<open>out_buffer\<close>. \<open>Buffer\<close>
    (\<open>net/connection/buffer/buffer.h\<close>, \<open>buffer.cc\<close>) and \<open>Linked_Buffer\<close> (\<open>linked_buffer.h\<close>, \<open>linked_buffer.cc\<close>) model the two classes and interpret
    both locales. All lemmas on clients of buffers are proved once, in the locales. \<open>Buffer_Calls\<close>: arbitrary sequences of calls on the
    two classes, and which calls are defined.
  \<^item> \<open>Http_Request\<close>, \<open>Http_Context\<close>, \<open>Http_Parser\<close> (\<open>net/server/http/http_request.h\<close>, \<open>http_literal.cc\<close>, \<open>http_context.h\<close>): the
    incremental parser, generic in the buffer; \<open>parse_spec\<close> is the same parser on a list of bytes and the refinement
    is proved in \<open>in_buffer\<close>. Round trip with \<open>render_request\<close>, independence of how the bytes are cut,
    and exactly on which inputs the parser returns.
  \<^item> \<open>Channel\<close> (\<open>net/channel\<close>): event masks and the dispatch to callbacks. \<open>Poller\<close> (\<open>net/poller\<close>): the table of channels and the
    requests to epoll, against an abstract registry.
  \<^item> \<open>Tcp_Connection\<close> (\<open>net/connection/tcp_connection.h\<close>, \<open>tcp_connection.cc\<close>): the status machine of a connection. \<open>conn_abs\<close> is the abstract
    connection, a stream of accepted, sent and pending bytes; locale \<open>conn_buffers\<close> extends the two buffer contracts and proves the
    simulation for every acceptable callback.
  \<^item> \<open>Http_Response\<close> (\<open>http_response.h\<close>): printing, and a client that reads the response back. \<open>Response_Cache\<close>: list and
    hash table of \<open>HTTPServer\<close> against a least-recently-used cache. \<open>Http_Server\<close> (\<open>http_server.h\<close>, \<open>http_server.cc\<close>): the callbacks.
    \<open>Cache_Valid\<close>: a cache whose entries are answers of the handlers stays so, and a server with one answers like a server without.
    \<open>Http_Session\<close>: all of these together, from the bytes of a sequence of requests on the socket, cut anywhere, to the bytes of the
    responses, in the locale \<open>conn_buffers\<close> and so for both buffers. \<open>Watched_Connection\<close>: the connection with its poller and the kernel. \<open>Shared_Cache\<close>: the section of the read
    callback that the spin lock guards, as interleaved steps of several threads.
  \<^item> \<open>Event_Loop\<close> (\<open>net/thread/event_loop.h\<close>, \<open>event_loop.cc\<close>, \<open>event_loop_thread.cc\<close>): the loop and its callers as a step relation, with the mutex
    and the event descriptor; locale \<open>fair_progress\<close> is the argument for liveness. \<open>Thread_Pool\<close>
    (\<open>event_loop_thread_pool.cc\<close>), \<open>Fd_Handler\<close> (\<open>net/fd_handler\<close>), \<open>Socket_Address\<close> (\<open>net/address\<close>) and \<open>Tcp_Server\<close> (\<open>net/server/acceptor.cc\<close>,
    \<open>tcp_server.cc\<close>): accepting, naming and dropping connections. \<open>Server_Program\<close>: the \<open>HTTPServer\<close> object and the program
    \<open>tests/test_server.cc\<close>. \<open>Server_System\<close>: a server with all its connections, the closures queued in its loops and the events of its
    clients, as a step relation. \<open>Test_Programs\<close>: the programs \<open>tests/test_linked_buffer.cc\<close>, \<open>tests/test_http_req_hash.cc\<close> and
    \<open>unit_tests/test_fd_handler.cc\<close>.
  \<^item> \<open>Date\<close>, \<open>Time_Zone\<close>, \<open>Timestamp\<close> (\<open>timer\<close>): calendar arithmetic, compiled time zone files and the search in them, time differences in
    \<open>double\<close>. \<open>Double\<close>: double-precision arithmetic as rational numbers rounded to 53 bits.
  \<^item> \<open>Log_Stream\<close>, \<open>Logger\<close> (\<open>logger\<close>) and \<open>Sysw\<close> (\<open>net/sys_wrapper\<close>): the fixed buffer of a log line, number printing, the header with its
    caches, and the wrappers of the system calls that log failures.

  \<^bold>\<open>What the theorems show.\<close> Refinement: both buffers are byte queues, the parser is a function of the bytes, a connection is a
  stream with a half-close, the poller is a registry, the cache is least-recently-used. Equivalence: the cache cannot be told from calling the handlers. Type soundness: no allowed call
  on a buffer goes wrong. Composition: sessions of many requests, the test server from \<open>main\<close> to its pages, a
  whole server whose table holds the connections that are not closed and erased yet, and the kernel watches exactly
  the open connections. Invariants over all
  reachable states: servers with all their connections, event loops with any interleaving of callers, the cache with any interleaving of its users, the
  table of connections, descriptors and their handles. Liveness: queued callbacks run, a half-close completes. Round trips: requests, responses, dates, local
  times, time zone files, time stamps. Bounds: no write outside the log buffer, no overflow in the calendar.
  Errors: what is answered to bad requests and unknown paths, what system call failures do. Some
  theorems show where the code goes wrong, and say so.

  \<^bold>\<open>Not modelled.\<close> Log output of the network components, which has no effect on them; the addresses a connection
  keeps for logging; the range limits of \<open>double\<close>, which numbers of microseconds do not reach; the memory model beyond
  the mutex and the event descriptor, so that a data race is not an error here; the iterator invalidation of \<open>std::deque\<close>
  by \<open>push_back\<close>; type aliases and empty base classes; \<open>tests/test_event_loop.cc\<close>,
  which ends in an empty endless loop.
\<close>

section \<open>The loop and its poller\<close>

text \<open>
  The theory of the event loop represents the poller by the descriptors it watches with their events, and lets
  a poll return any watched descriptors. The poller of the sources implements this.
\<close>

definition polls_as :: "'k event_loop \<Rightarrow> poller \<Rightarrow> bool" where
  "polls_as l p \<longleftrightarrow> (\<forall>fd. map_option ucast (poll_set l fd) = map_option snd (registry p fd))"

lemma polls_as_None: "polls_as l p \<Longrightarrow> poll_set l fd = None \<longleftrightarrow> registry p fd = None"
  unfolding polls_as_def by (metis option.map_disc_iff)

lemma polls_as_add:
  "polls_as l p \<Longrightarrow> registry p' = (registry p)(ch_fd ch \<mapsto> (ptr, ucast (events_type ch))) \<Longrightarrow> polls_as (addChannelInPoller ch l) p'"
  by (simp add: polls_as_def addChannelInPoller_def)

lemma polls_as_update:
  "polls_as l p \<Longrightarrow> poll_set l (ch_fd ch) \<noteq> None \<Longrightarrow>
   registry p' = (registry p)(ch_fd ch \<mapsto> (ptr, ucast (events_type ch))) \<Longrightarrow> polls_as (updateChannelInPoller ch l) p'"
  by (auto simp: polls_as_def updateChannelInPoller_def)

lemma polls_as_remove:
  "polls_as l p \<Longrightarrow> registry p' = (registry p)(ch_fd ch := None) \<Longrightarrow> polls_as (removeChannelInPoller ch l) p'"
  by (simp add: polls_as_def removeChannelInPoller_def)

lemma polls_as_new: "polls_as (EventLoop_new tid fd) EpollPoller_new"
  by (simp add: polls_as_def EventLoop_new_def registry_def EpollPoller_new_def)

section \<open>Properties\<close>

text \<open>
  C31: the event loop may treat its poller as a table of watched descriptors. A new loop starts with an empty table; registering
  a descriptor that is not in the table, and updating or removing the channel that is registered for one, does in the
  map of the poller and in the kernel what it does in the table; and a poll succeeds, reports descriptors of the
  table only, and leaves the table as it is.
\<close>

theorem loop_poller_refines:
  fixes l :: "'k event_loop"
  assumes "poller_inv store p" and "ctl_contract ctl (watched p)" and "store ptr = Some ch" and "polls_as l p"
  shows "polls_as (EventLoop_new tid fd :: 'k event_loop) EpollPoller_new \<and>
    (poll_set l (ch_fd ch) = None \<longrightarrow>
      (\<exists>p'. addChannel ctl store ptr p = Some p' \<and> poller_inv store p' \<and> polls_as (addChannelInPoller ch l) p')) \<and>
    (fd2channels p (ch_fd ch) = Some ptr \<longrightarrow>
      (\<exists>p'. updateChannel ctl store ptr p = Some p' \<and> poller_inv store p' \<and> polls_as (updateChannelInPoller ch l) p') \<and>
      (\<exists>p'. removeChannel ctl store ptr p = Some p' \<and> poller_inv store p' \<and> polls_as (removeChannelInPoller ch l) p')) \<and>
    (wait_contract wait (watched p) \<longrightarrow> wait (num_event_slots p) = Some evs \<longrightarrow>
      (\<exists>store' p'. poll wait store p = Some (int (length evs), store', p') \<and> poller_inv store' p' \<and> polls_as l p' \<and>
        fst ` set evs \<subseteq> dom (poll_set l)))"
proof (intro conjI impI)
  show "polls_as (EventLoop_new tid fd :: 'k event_loop) EpollPoller_new" by (rule polls_as_new)
next
  assume "poll_set l (ch_fd ch) = None"
  then have "registry p (ch_fd ch) = None" using polls_as_None [OF assms(4)] by simp
  from addChannel_registry [OF assms(1-3) this] polls_as_add [OF assms(4)]
  show "\<exists>p'. addChannel ctl store ptr p = Some p' \<and> poller_inv store p' \<and> polls_as (addChannelInPoller ch l) p'" by blast
next
  assume r: "fd2channels p (ch_fd ch) = Some ptr"
  then have "poll_set l (ch_fd ch) \<noteq> None" using polls_as_None [OF assms(4)] registry_None [OF assms(1)] by simp
  with updateChannel_registry [OF assms(1-3) r] polls_as_update [OF assms(4)]
  show "\<exists>p'. updateChannel ctl store ptr p = Some p' \<and> poller_inv store p' \<and> polls_as (updateChannelInPoller ch l) p'" by blast
  from removeChannel_registry [OF assms(1-3) r] polls_as_remove [OF assms(4)]
  show "\<exists>p'. removeChannel ctl store ptr p = Some p' \<and> poller_inv store p' \<and> polls_as (removeChannelInPoller ch l) p'" by blast
next
  assume w: "wait_contract wait (watched p)" "wait (num_event_slots p) = Some evs"
  have "dom (poll_set l) = dom (watched p)"
    using polls_as_None [OF assms(4)] registry_None [OF assms(1)] watched_iff [OF assms(1)] by (auto simp: dom_def)
  with w have sub: "fst ` set evs \<subseteq> dom (poll_set l)" unfolding wait_contract_def by metis
  obtain store' p' where p': "poll wait store p = Some (int (length evs), store', p')" "poller_inv store' p'" "registry p' = registry p"
    using poll_reports [OF assms(1) w] by blast
  have "polls_as l p'" using assms(4) p'(3) by (simp add: polls_as_def)
  with p' sub show "\<exists>store' p'. poll wait store p = Some (int (length evs), store', p') \<and> poller_inv store' p' \<and> polls_as l p' \<and>
      fst ` set evs \<subseteq> dom (poll_set l)" by blast
qed

theorem loop_poller_refines_witness:
  "\<exists>p'. addChannel (own_kernel Map.empty) [7 \<mapsto> enableReading (Channel_new 9)] 7 EpollPoller_new = Some p' \<and>
     polls_as (setWakeupChannel (EventLoop_new 0 9 :: unit event_loop)) p'"
proof -
  let ?ch = "enableReading (Channel_new 9)" and ?l = "EventLoop_new 0 9 :: unit event_loop"
  have w: "watched EpollPoller_new = Map.empty" by (simp add: EpollPoller_new_def)
  have "poll_set (?l\<lparr>wakeup_channel := Some ?ch\<rparr>) (ch_fd ?ch) = None" by (simp add: EventLoop_new_def)
  moreover have "polls_as (?l\<lparr>wakeup_channel := Some ?ch\<rparr>) EpollPoller_new"
    using polls_as_new [where 'a = unit, of 0 9] by (simp add: polls_as_def)
  ultimately obtain p' where p': "addChannel (own_kernel Map.empty) [7 \<mapsto> ?ch] 7 EpollPoller_new = Some p'"
    "polls_as (addChannelInPoller ?ch (?l\<lparr>wakeup_channel := Some ?ch\<rparr>)) p'"
    using loop_poller_refines [where 'k = unit, of "[7 \<mapsto> ?ch]" EpollPoller_new "own_kernel Map.empty" 7 ?ch "?l\<lparr>wakeup_channel := Some ?ch\<rparr>"
        0 9 "\<lambda>_. None" "[]"]
      poller_inv_new own_kernel_ok [of Map.empty] w by auto
  moreover have "setWakeupChannel ?l = addChannelInPoller ?ch (?l\<lparr>wakeup_channel := Some ?ch\<rparr>)"
    by (simp add: setWakeupChannel_def EventLoop_new_def Let_def)
  ultimately show ?thesis by metis
qed

end
